(* ===== verification/Prelude.thy ===== *)
theory Prelude
  imports Main "HOL-Library.Word"
begin

text \<open>
  Shared vocabulary of the ASNU kernel development: the widths of the C integer types on
  x86-64 (LP64), byte-addressed memory, address regions, and the generic facts on words,
  lists and memory that every component uses.

  A C object of type \<^verbatim>\<open>uintN_t\<close> is an \<open>N word\<close>: addition, subtraction and
  multiplication wrap as the machine does. An address is a \<open>64 word\<close>. Memory is a total
  map from addresses to bytes: the model covers accesses to mapped addresses, and each
  component that can dereference \<^verbatim>\<open>NULL\<close> says so with an \<open>option\<close> result.
\<close>

unbundle bit_operations_syntax

type_synonym u8 = "8 word"
type_synonym u16 = "16 word"
type_synonym u32 = "32 word"
type_synonym u64 = "64 word"

type_synonym mem = "u64 \<Rightarrow> u8"

named_theorems mem_simps \<open>reading memory after a write\<close>
named_theorems region_simps \<open>membership in address regions\<close>
named_theorems log_formats "formats of the log calls that the log writer accepts"

subsection \<open>Offsets from a base address\<close>

text \<open>
  A region is the set of the \<open>n\<close> addresses from \<open>p\<close> on, counted with the wrap-around of
  the address space, so that no lemma needs a side condition on overflow.
\<close>

definition region :: "u64 \<Rightarrow> nat \<Rightarrow> u64 set" where
  "region p n = {a. unat (a - p) < n}"

lemma in_region [region_simps]: "a \<in> region p n \<longleftrightarrow> unat (a - p) < n"
  by (simp add: region_def)

lemma unat_of_nat_u64: "i < 2 ^ 64 \<Longrightarrow> unat (of_nat i :: u64) = i"
  by (simp add: unat_of_nat)

lemma of_nat_u64_inject: "i < 2 ^ 64 \<Longrightarrow> j < 2 ^ 64 \<Longrightarrow> (of_nat i :: u64) = of_nat j \<longleftrightarrow> i = j"
  by (metis unat_of_nat_u64)

lemma unat_less_2_64: "unat (x :: u64) < 2 ^ 64"
  using unsigned_less [of x] by simp

lemma region_offset [region_simps]: "i < 2 ^ 64 \<Longrightarrow> p + of_nat i \<in> region p n \<longleftrightarrow> i < n"
  by (simp add: region_def unat_of_nat)

lemma region_base [simp]: "p \<in> region p n \<longleftrightarrow> 0 < n"
  by (simp add: region_def)

lemma region_empty [simp]: "region p 0 = {}"
  by (simp add: region_def)

lemma region_Suc: "n < 2 ^ 64 \<Longrightarrow> region p (Suc n) = insert (p + of_nat n) (region p n)"
  by (auto simp: region_def unat_of_nat less_Suc_eq)

lemma region_shift: "n < 2 ^ 64 \<Longrightarrow> a \<in> region (p + 1) n \<longleftrightarrow> a \<in> region p (Suc n) \<and> a \<noteq> p"
proof (cases "a = p")
  case True
  assume "n < 2 ^ 64"
  moreover have "p - (p + 1) = (- 1 :: u64)" by simp
  moreover have "unat (- 1 :: u64) = 2 ^ 64 - 1" by (simp add: unsigned_minus_1_eq_mask mask_eq_exp_minus_1)
  ultimately show ?thesis using True by (simp add: region_def)
next
  case False
  then have "a - p \<noteq> 0" by simp
  then have "unat (a - p - 1) = unat (a - p) - 1" "0 < unat (a - p)"
    by (simp_all add: unat_minus_one unat_gt_0)
  then show ?thesis using False by (auto simp: region_def diff_diff_add)
qed

lemma region_mono: "n \<le> k \<Longrightarrow> region p n \<subseteq> region p k"
  by (auto simp: region_def)

lemma region_within: "unat n + k \<le> l \<Longrightarrow> region ((b :: u64) + n) k \<subseteq> region b l"
proof
  fix a assume n: "unat n + k \<le> l" and "a \<in> region (b + n) k"
  then have a: "unat (a - (b + n)) < k" by (simp add: region_def)
  have "a - b = (a - (b + n)) + n" by simp
  then have "unat (a - b) \<le> unat (a - (b + n)) + unat n" by (simp only: unat_word_ariths) simp
  with a n show "a \<in> region b l" by (simp add: region_def)
qed

lemma region_obtain:
  assumes "a \<in> region p n"
  obtains i where "i < n" and "i < 2 ^ 64" and "a = p + of_nat i"
proof
  show "unat (a - p) < n" using assms by (simp add: region_def)
  show "unat (a - p) < 2 ^ 64" by (rule unat_less_2_64)
  show "a = p + of_nat (unat (a - p))" by simp
qed

lemma unat_offset: "unat p + n \<le> 2 ^ 64 \<Longrightarrow> i < n \<Longrightarrow> unat (p + of_nat i :: u64) = unat p + i"
  by (simp add: unat_word_ariths unat_of_nat)

lemma region_disjoint:
  assumes "unat p + n \<le> unat q" and "unat q + k \<le> 2 ^ 64"
  shows "region p n \<inter> region q k = {}"
proof -
  have False if "a \<in> region p n" "a \<in> region q k" for a
  proof -
    from that obtain i j where "i < n" "a = p + of_nat i" "j < k" "a = q + of_nat j"
      by (metis region_obtain)
    then have "unat a = unat p + i" "unat a = unat q + j"
      using assms unat_offset [of p n i] unat_offset [of q k j] by simp_all
    with \<open>i < n\<close> assms(1) show False by simp
  qed
  then show ?thesis by blast
qed

lemma unat_succ: "(i :: 'a::len word) < n \<Longrightarrow> unat (i + 1) = Suc (unat i)"
proof -
  assume "i < n"
  then have "Suc (unat i) \<le> unat n" by (simp add: word_less_nat_alt Suc_le_eq)
  also have "unat n < 2 ^ LENGTH('a)" by (rule unsigned_less)
  finally show ?thesis by (simp add: unat_word_ariths)
qed

lemma unat_less_of_less: "(i :: 'a::len word) < n \<Longrightarrow> unat i < unat n"
  by (simp add: word_less_nat_alt)

lemma unat_ucast_u32 [simp]: "unat (ucast (w :: u32) :: u64) = unat w"
proof -
  have "unat w < 2 ^ 32" using unsigned_less [of w, where 'a = nat] by simp
  then show ?thesis by (simp add: unsigned_ucast_eq take_bit_nat_eq_self)
qed

lemma ucast_of_nat_u64 [simp]: "(ucast (of_nat n :: u64) :: u32) = of_nat n"
  by (simp add: word_unat_eq_iff unat_of_nat unsigned_ucast_eq take_bit_eq_mod mod_mod_cancel)

lemma ucast_of_nat_u32: "k < 2 ^ 32 \<Longrightarrow> (ucast (of_nat k :: u32) :: u64) = of_nat k"
  by (simp add: unsigned_of_nat take_bit_nat_eq_self)

subsection \<open>Copying byte by byte\<close>

text \<open>
  A copy loop visits its indices in some order. It copies the bytes that were there at the
  start as long as no index is read after the byte it reads has been overwritten.
\<close>

definition copied :: "mem \<Rightarrow> u64 \<Rightarrow> u64 \<Rightarrow> nat \<Rightarrow> mem" where
  "copied m dest src n = (\<lambda>a. if a \<in> region dest n then m (src + (a - dest)) else m a)"

definition safe_order :: "u64 \<Rightarrow> u64 \<Rightarrow> nat list \<Rightarrow> bool" where
  "safe_order dest src is \<longleftrightarrow>
     sorted_wrt (\<lambda>j i. src + of_nat i \<noteq> dest + (of_nat j :: u64)) is"

lemma copy_fold:
  assumes "safe_order dest src is"
  shows "fold (\<lambda>i m. m(dest + of_nat i := m (src + of_nat i))) is m =
    (\<lambda>a. if a \<in> (\<lambda>i. dest + of_nat i) ` set is then m (src + (a - dest)) else (m :: mem) a)"
  using assms
proof (induction "is" rule: rev_induct)
  case Nil
  then show ?case by simp
next
  case (snoc i "is")
  then show ?case
    by (force simp: safe_order_def sorted_wrt_append fun_eq_iff)
qed

lemma region_image: "n \<le> 2 ^ 64 \<Longrightarrow> (\<lambda>i. p + of_nat i) ` {0..<n} = region p n"
proof (induction n)
  case (Suc n)
  then have "(\<lambda>i. p + of_nat i) ` {0..<n} = region p n" by simp
  moreover have "region p (Suc n) = insert (p + of_nat n) (region p n)"
    using Suc.prems by (intro region_Suc) simp
  ultimately show ?case by (simp only: atLeast0_lessThan_Suc image_insert)
qed simp

lemma copied_Suc:
  assumes "n < 2 ^ 64" and disj: "region dest (Suc n) \<inter> region src (Suc n) = {}"
  shows "copied (m(dest := m src)) (dest + 1) (src + 1) n = copied m dest src (Suc n)"
proof (rule ext)
  fix a
  show "copied (m(dest := m src)) (dest + 1) (src + 1) n a = copied m dest src (Suc n) a"
  proof (cases "a = dest \<or> a \<notin> region dest (Suc n)")
    case True
    with assms(1) show ?thesis by (auto simp: copied_def region_shift)
  next
    case False
    then have "src + (a - dest) \<in> region src (Suc n)" by (simp add: region_def)
    with disj have "src + (a - dest) \<noteq> dest" by (metis disjoint_iff region_base zero_less_Suc)
    moreover have "src + 1 + (a - (dest + 1)) = src + (a - dest)" by simp
    ultimately show ?thesis using False assms(1) by (simp add: copied_def region_shift)
  qed
qed

text \<open>A counted loop \<^verbatim>\<open>for (i = ...; i < n; i++)\<close> makes progress at any width.\<close>

lemma loop_decreases: "(i :: 'a::len word) < n \<Longrightarrow> unat n - unat (i + 1) < unat n - unat i"
  using unat_less_of_less [of i n] by (simp add: unat_succ)

text \<open>A small word read as a signed integer.\<close>

lemma sint_small: "k < 2 ^ 31 \<Longrightarrow> sint (of_nat k :: u32) = int k"
  by (simp add: signed_of_nat signed_take_bit_int_eq_self)

end
