(* ===== verification/CString.thy ===== *)
theory CString
  imports Prelude
begin

text \<open>
  Model of \<^verbatim>\<open>src/ASNU/src/string.c\<close>: the block operations (\<^verbatim>\<open>memcpy\<close>, \<^verbatim>\<open>memset\<close>,
  \<^verbatim>\<open>memmove\<close>, \<^verbatim>\<open>memcmp\<close>) and the string operations over byte memory. A counted loop is a
  \<open>fold\<close> over its index range or a recursion on the index with a termination proof; a loop
  that runs until it meets a NUL byte is a \<open>partial_function (option)\<close> whose value is
  \<open>None\<close> when the loop never ends. \<^verbatim>\<open>char\<close> comparisons are on bytes; the functions that
  return an \<^verbatim>\<open>int\<close> return it as an integer, since no case can overflow. A null pointer is
  the address 0.
\<close>

section \<open>Block operations\<close>

definition memcpy :: "mem \<Rightarrow> u64 \<Rightarrow> u64 \<Rightarrow> u64 \<Rightarrow> mem" where
  "memcpy m dest src n =
     fold (\<lambda>i m. m(dest + of_nat i := m (src + of_nat i))) [0..<unat n] m"

definition memset :: "mem \<Rightarrow> u64 \<Rightarrow> u32 \<Rightarrow> u64 \<Rightarrow> mem" where
  "memset m s c n = fold (\<lambda>i m. m(s + of_nat i := ucast c)) [0..<unat n] m"

definition memmove :: "mem \<Rightarrow> u64 \<Rightarrow> u64 \<Rightarrow> u64 \<Rightarrow> mem" where
  "memmove m dest src n =
     (if src > dest then
        fold (\<lambda>i m. m(dest + of_nat i := m (src + of_nat i))) [0..<unat n] m
      else if src < dest then
        fold (\<lambda>i m. m(dest + of_nat (i - 1) := m (src + of_nat (i - 1)))) (rev [1..<unat n + 1]) m
      else m)"

function memcmp_loop :: "mem \<Rightarrow> u64 \<Rightarrow> u64 \<Rightarrow> u64 \<Rightarrow> u64 \<Rightarrow> int" where
  "memcmp_loop m p1 p2 n i =
     (if i < n then
        (if m (p1 + i) \<noteq> m (p2 + i) then (if m (p1 + i) < m (p2 + i) then -1 else 1)
         else memcmp_loop m p1 p2 n (i + 1))
      else 0)"
  by pat_completeness auto
termination
  by (relation "measure (\<lambda>(m, p1, p2, n, i). unat n - unat i)")
    (auto simp: loop_decreases)

declare memcmp_loop.simps [simp del]

definition memcmp :: "mem \<Rightarrow> u64 \<Rightarrow> u64 \<Rightarrow> u64 \<Rightarrow> int" where
  "memcmp m s1 s2 n = memcmp_loop m s1 s2 n 0"

section \<open>String operations\<close>

partial_function (option) strcpy_loop :: "mem \<Rightarrow> u64 \<Rightarrow> u64 \<Rightarrow> mem option" where
  "strcpy_loop m p src =
     (let c = m src; m' = m(p := c)
      in if c \<noteq> 0 then strcpy_loop m' (p + 1) (src + 1) else Some m')"

definition strcpy :: "mem \<Rightarrow> u64 \<Rightarrow> u64 \<Rightarrow> mem option" where
  "strcpy m dest src = strcpy_loop m dest src"

function strncpy_copy :: "mem \<Rightarrow> u64 \<Rightarrow> u64 \<Rightarrow> u32 \<Rightarrow> u32 \<Rightarrow> mem \<times> u32" where
  "strncpy_copy m p src n i =
     (if i < n \<and> m (src + ucast i) \<noteq> 0
      then strncpy_copy (m(p + ucast i := m (src + ucast i))) p src n (i + 1)
      else (m, i))"
  by pat_completeness auto
termination
  by (relation "measure (\<lambda>(m, p, src, n, i). unat n - unat i)")
    (auto simp: loop_decreases)

function strncpy_pad :: "mem \<Rightarrow> u64 \<Rightarrow> u32 \<Rightarrow> u32 \<Rightarrow> mem" where
  "strncpy_pad m p n i =
     (if i < n then strncpy_pad (m(p + ucast i := 0)) p n (i + 1) else m)"
  by pat_completeness auto
termination
  by (relation "measure (\<lambda>(m, p, n, i). unat n - unat i)")
    (auto simp: loop_decreases)

declare strncpy_copy.simps [simp del] strncpy_pad.simps [simp del]

definition strncpy :: "mem \<Rightarrow> u64 \<Rightarrow> u64 \<Rightarrow> u32 \<Rightarrow> mem" where
  "strncpy m dest src n =
     (case strncpy_copy m dest src n 0 of (m', i) \<Rightarrow> strncpy_pad m' dest n i)"

partial_function (option) strlen_loop :: "mem \<Rightarrow> u64 \<Rightarrow> u32 \<Rightarrow> u32 option" where
  "strlen_loop m str len =
     (if m (str + ucast len) \<noteq> 0 then strlen_loop m str (len + 1) else Some len)"

definition strlen :: "mem \<Rightarrow> u64 \<Rightarrow> u32 option" where
  "strlen m str = strlen_loop m str 0"

partial_function (option) strcmp :: "mem \<Rightarrow> u64 \<Rightarrow> u64 \<Rightarrow> int option" where
  "strcmp m s1 s2 =
     (if m s1 \<noteq> 0 \<and> m s1 = m s2 then strcmp m (s1 + 1) (s2 + 1)
      else Some (uint (m s1) - uint (m s2)))"

function strncmp_loop :: "mem \<Rightarrow> u64 \<Rightarrow> u64 \<Rightarrow> u32 \<Rightarrow> u32 \<Rightarrow> u32" where
  "strncmp_loop m s1 s2 n i =
     (if i < n \<and> m (s1 + ucast i) \<noteq> 0 \<and> m (s1 + ucast i) = m (s2 + ucast i)
      then strncmp_loop m s1 s2 n (i + 1) else i)"
  by pat_completeness auto
termination
  by (relation "measure (\<lambda>(m, s1, s2, n, i). unat n - unat i)")
    (auto simp: loop_decreases)

declare strncmp_loop.simps [simp del]

definition strncmp :: "mem \<Rightarrow> u64 \<Rightarrow> u64 \<Rightarrow> u32 \<Rightarrow> int" where
  "strncmp m s1 s2 n =
     (let i = strncmp_loop m s1 s2 n 0
      in if i = n then 0 else uint (m (s1 + ucast i)) - uint (m (s2 + ucast i)))"

partial_function (option) find_nul :: "mem \<Rightarrow> u64 \<Rightarrow> u64 option" where
  "find_nul m p = (if m p \<noteq> 0 then find_nul m (p + 1) else Some p)"

definition strcat :: "mem \<Rightarrow> u64 \<Rightarrow> u64 \<Rightarrow> mem option" where
  "strcat m dest src =
     (case find_nul m dest of None \<Rightarrow> None | Some p \<Rightarrow> strcpy_loop m p src)"

function strncat_loop :: "mem \<Rightarrow> u64 \<Rightarrow> u64 \<Rightarrow> u32 \<Rightarrow> u32 \<Rightarrow> mem \<times> u64" where
  "strncat_loop m p src n i =
     (if i < n \<and> m (src + ucast i) \<noteq> 0
      then strncat_loop (m(p := m (src + ucast i))) (p + 1) src n (i + 1)
      else (m, p))"
  by pat_completeness auto
termination
  by (relation "measure (\<lambda>(m, p, src, n, i). unat n - unat i)")
    (auto simp: loop_decreases)

declare strncat_loop.simps [simp del]

definition strncat :: "mem \<Rightarrow> u64 \<Rightarrow> u64 \<Rightarrow> u32 \<Rightarrow> mem option" where
  "strncat m dest src n =
     (case find_nul m dest of None \<Rightarrow> None
      | Some p \<Rightarrow> (case strncat_loop m p src n 0 of (m', q) \<Rightarrow> Some (m'(q := 0))))"

text \<open>\<^verbatim>\<open>strchr\<close> and \<^verbatim>\<open>strstr\<close> return the null pointer when nothing is found.\<close>

partial_function (option) strchr :: "mem \<Rightarrow> u64 \<Rightarrow> u32 \<Rightarrow> u64 option" where
  "strchr m str c =
     (if m str \<noteq> 0 then
        (if m str = ucast c then Some str else strchr m (str + 1) c)
      else Some 0)"

partial_function (option) strstr_match :: "mem \<Rightarrow> u64 \<Rightarrow> u64 \<Rightarrow> u64 option" where
  "strstr_match m h n =
     (if m h \<noteq> 0 \<and> m n \<noteq> 0 \<and> m h = m n then strstr_match m (h + 1) (n + 1) else Some n)"

partial_function (option) strstr_loop :: "mem \<Rightarrow> u64 \<Rightarrow> u64 \<Rightarrow> u64 option" where
  "strstr_loop m haystack needle =
     (if m haystack \<noteq> 0 then
        (case strstr_match m haystack needle of None \<Rightarrow> None
         | Some n \<Rightarrow> if m n = 0 then Some haystack else strstr_loop m (haystack + 1) needle)
      else Some 0)"

definition strstr :: "mem \<Rightarrow> u64 \<Rightarrow> u64 \<Rightarrow> u64 option" where
  "strstr m haystack needle =
     (if m needle = 0 then Some haystack else strstr_loop m haystack needle)"

text \<open>
  \<^verbatim>\<open>strtok\<close> keeps its position in the static variable \<^verbatim>\<open>next\<close>, passed in and out here
  with the memory; the result is the token's address (0 at the end).
\<close>

partial_function (option) strtok_skip :: "mem \<Rightarrow> u64 \<Rightarrow> u64 \<Rightarrow> u64 option" where
  "strtok_skip m delim start =
     (if m start \<noteq> 0 then
        (case strchr m delim (scast (m start)) of None \<Rightarrow> None
         | Some r \<Rightarrow> if r \<noteq> 0 then strtok_skip m delim (start + 1) else Some start)
      else Some start)"

partial_function (option) strtok_end :: "mem \<Rightarrow> u64 \<Rightarrow> u64 \<Rightarrow> u64 option" where
  "strtok_end m delim e =
     (if m e \<noteq> 0 then
        (case strchr m delim (scast (m e)) of None \<Rightarrow> None
         | Some r \<Rightarrow> if r = 0 then strtok_end m delim (e + 1) else Some e)
      else Some e)"

definition strtok :: "mem \<Rightarrow> u64 \<Rightarrow> u64 \<Rightarrow> u64 \<Rightarrow> (u64 \<times> u64 \<times> mem) option" where
  "strtok m next_tok str delim =
     (let nxt = (if str \<noteq> 0 then str else next_tok)
      in if nxt = 0 then Some (0, nxt, m)
         else (case strtok_skip m delim nxt of None \<Rightarrow> None
         | Some start \<Rightarrow>
             if m start = 0 then Some (0, 0, m)
             else (case strtok_end m delim start of None \<Rightarrow> None
             | Some e \<Rightarrow>
                 if m e \<noteq> 0 then Some (start, e + 1, m(e := 0)) else Some (start, 0, m))))"

partial_function (option) strrchr_loop :: "mem \<Rightarrow> u64 \<Rightarrow> u32 \<Rightarrow> u64 \<Rightarrow> u64 option" where
  "strrchr_loop m s c last_p =
     (if m s \<noteq> 0 then strrchr_loop m (s + 1) c (if m s = ucast c then s else last_p)
      else Some last_p)"

definition strrchr :: "mem \<Rightarrow> u64 \<Rightarrow> u32 \<Rightarrow> u64 option" where
  "strrchr m s c = strrchr_loop m s c 0"

section \<open>Correctness of the block operations\<close>

lemma memset_apply [mem_simps]:
  "memset m p c n = (\<lambda>a. if a \<in> region p (unat n) then ucast c else m a)"
proof -
  have "fold (\<lambda>i m. m(p + of_nat i := ucast c)) [0..<k] m =
      (\<lambda>a. if a \<in> region p k then ucast c else m a)" if "k \<le> unat n" for k
    using that
  proof (induction k)
    case (Suc k)
    then have "k < 2 ^ 64" using unat_less_2_64 [of n] by simp
    with Suc show ?case by (auto simp: region_Suc fun_eq_iff)
  qed simp
  then show ?thesis by (simp add: memset_def)
qed

lemma copy_fold_region:
  fixes n :: u64
  assumes "safe_order dest src [0..<unat n]"
  shows "fold (\<lambda>i m. m(dest + of_nat i := m (src + of_nat i))) [0..<unat n] m =
    copied m dest src (unat n)"
  using assms unat_less_2_64 [of n]
  by (simp add: copy_fold copied_def region_image less_imp_le)

lemma memcpy_frame: "a \<notin> region dest (unat n) \<Longrightarrow> memcpy m dest src n a = m a"
proof -
  assume "a \<notin> region dest (unat n)"
  then have "\<forall>i \<in> set [0..<unat n]. a \<noteq> dest + of_nat i" 
    using unat_less_2_64 [of n] by (auto simp: region_def unat_of_nat_u64)
  moreover have "fold (\<lambda>i m. m(dest + of_nat i := m (src + of_nat i))) is m a = m a"
    if "\<forall>i \<in> set is. a \<noteq> dest + of_nat i" for "is"
    using that by (induction "is" arbitrary: m) auto
  ultimately show ?thesis by (simp add: memcpy_def)
qed

lemma memcpy_copied:
  assumes "region dest (unat n) \<inter> region src (unat n) = {}"
  shows "memcpy m dest src n = copied m dest src (unat n)"
proof -
  have "safe_order dest src [0..<unat n]"
    unfolding safe_order_def sorted_wrt_iff_nth_less
  proof (intro allI impI)
    fix j i assume "j < i" "i < length [0..<unat n]"
    then have "dest + of_nat j \<in> region dest (unat n)" "src + of_nat i \<in> region src (unat n)"
      using unat_less_2_64 [of n] by (simp_all add: region_offset)
    with assms \<open>j < i\<close> \<open>i < length _\<close>
    show "src + of_nat ([0..<unat n] ! i) \<noteq> dest + of_nat ([0..<unat n] ! j)"
      by (auto simp: disjoint_iff)
  qed
  then show ?thesis by (simp add: memcpy_def copy_fold_region)
qed

lemma memmove_copied:
  assumes "unat dest + unat n \<le> 2 ^ 64" and "unat src + unat n \<le> 2 ^ 64"
  shows "memmove m dest src n = copied m dest src (unat n)"
proof -
  have fwd: "safe_order dest src [0..<unat n]" if "src > dest"
    unfolding safe_order_def sorted_wrt_iff_nth_less
  proof (intro allI impI)
    fix j i assume ij: "j < i" "i < length [0..<unat n]"
    then have "unat (src + of_nat i) = unat src + i" "unat (dest + of_nat j) = unat dest + j"
      using assms by (auto intro: unat_offset)
    moreover have "unat dest < unat src" using that by (simp add: word_less_nat_alt)
    ultimately show "src + of_nat ([0..<unat n] ! i) \<noteq> dest + of_nat ([0..<unat n] ! j)"
      using ij by auto
  qed
  have bwd: "safe_order dest src (rev [0..<unat n])" if "src < dest"
    unfolding safe_order_def sorted_wrt_rev
    unfolding sorted_wrt_iff_nth_less
  proof (intro allI impI)
    fix j i assume ij: "j < i" "i < length [0..<unat n]"
    then have "unat (src + of_nat j) = unat src + j" "unat (dest + of_nat i) = unat dest + i"
      using assms by (auto intro: unat_offset)
    moreover have "unat src < unat dest" using that by (simp add: word_less_nat_alt)
    ultimately show "src + of_nat ([0..<unat n] ! j) \<noteq> dest + of_nat ([0..<unat n] ! i)"
      using ij by auto
  qed
  have pred: "map (\<lambda>i. i - 1) (rev [1..<unat n + 1]) = rev [0..<unat n]"
    using map_decr_upt [of 0 "unat n"] by (simp add: rev_map [symmetric] del: upt_Suc)
  have down: "fold (\<lambda>i m. m(dest + of_nat (i - 1) := m (src + of_nat (i - 1))))
      (rev [1..<unat n + 1]) m =
    fold (\<lambda>i m. m(dest + of_nat i := m (src + of_nat i))) (rev [0..<unat n]) m"
    by (simp only: pred [symmetric] fold_map comp_def)
  consider "src > dest" | "src < dest" | "src = dest" by fastforce
  then show ?thesis
  proof cases
    case 1
    then show ?thesis by (simp add: memmove_def fwd copy_fold_region)
  next
    case 2
    then have "memmove m dest src n =
        fold (\<lambda>i m. m(dest + of_nat i := m (src + of_nat i))) (rev [0..<unat n]) m"
      by (simp add: memmove_def down [simplified])
    with 2 show ?thesis
      using unat_less_2_64 [of n]
      by (simp add: copy_fold bwd copied_def region_image less_imp_le)
  next
    case 3
    then show ?thesis by (auto simp: memmove_def copied_def fun_eq_iff)
  qed
qed

section \<open>Strings in memory\<close>

text \<open>\<open>cstr m p xs\<close>: the bytes from \<open>p\<close> on are \<open>xs\<close>, none of them NUL, and then a NUL.\<close>

fun cstr :: "mem \<Rightarrow> u64 \<Rightarrow> u8 list \<Rightarrow> bool" where
  "cstr m p [] \<longleftrightarrow> m p = 0"
| "cstr m p (x # xs) \<longleftrightarrow> m p = x \<and> x \<noteq> 0 \<and> cstr m (p + 1) xs"

lemma cstr_nth: "cstr m p xs \<Longrightarrow> i < length xs \<Longrightarrow> m (p + of_nat i) = xs ! i"
proof (induction xs arbitrary: p i)
  case (Cons x xs)
  then show ?case by (cases i) (auto simp: add.assoc [symmetric])
qed simp

lemma cstr_nul: "cstr m p xs \<Longrightarrow> m (p + of_nat (length xs)) = 0"
  by (induction xs arbitrary: p) (auto simp: add.assoc [symmetric])

lemma cstr_nonzero: "cstr m p xs \<Longrightarrow> x \<in> set xs \<Longrightarrow> x \<noteq> 0"
  by (induction xs arbitrary: p) auto

lemma cstr_iff_nth:
  "cstr m p xs \<longleftrightarrow>
    (\<forall>i < length xs. m (p + of_nat i) = xs ! i \<and> xs ! i \<noteq> 0) \<and> m (p + of_nat (length xs)) = 0"
proof (induction xs arbitrary: p)
  case (Cons x xs)
  show ?case
    by (simp add: Cons.IH All_less_Suc2 add.assoc)
qed simp

lemma cstr_drop: "cstr m p xs \<Longrightarrow> k \<le> length xs \<Longrightarrow> cstr m (p + of_nat k) (drop k xs)"
proof (induction xs arbitrary: p k)
  case (Cons x xs)
  then show ?case by (cases k) (auto simp: add.assoc [symmetric])
qed simp

lemma cstr_cong:
  assumes "\<And>a. a \<in> region p (length xs + 1) \<Longrightarrow> m' a = m a" and "length xs < 2 ^ 64 - 1"
  shows "cstr m' p xs = cstr m p xs"
  using assms by (auto simp: cstr_iff_nth region_offset)

lemma strlen_loop_cstr:
  "cstr m (p + of_nat k) xs \<Longrightarrow> k + length xs < 2 ^ 32 \<Longrightarrow>
    strlen_loop m p (of_nat k) = Some (of_nat (k + length xs))"
proof (induction xs arbitrary: k)
  case Nil
  then show ?case by (subst strlen_loop.simps) (simp add: ucast_of_nat_u32)
next
  case (Cons x xs)
  from Cons.prems have "cstr m (p + of_nat (Suc k)) xs" "Suc k + length xs < 2 ^ 32"
    by (simp_all add: ac_simps)
  with Cons.IH [of "Suc k"] Cons.prems show ?case
    by (subst strlen_loop.simps) (simp add: ucast_of_nat_u32 add.commute)
qed

lemma strlen_cstr: "cstr m p xs \<Longrightarrow> length xs < 2 ^ 32 \<Longrightarrow> strlen m p = Some (of_nat (length xs))"
  using strlen_loop_cstr [of m p 0 xs] by (simp add: strlen_def)

text \<open>The order of byte strings that \<^verbatim>\<open>strcmp\<close> decides.\<close>

fun byte_cmp :: "u8 list \<Rightarrow> u8 list \<Rightarrow> int" where
  "byte_cmp [] [] = 0"
| "byte_cmp [] (y # ys) = - uint y"
| "byte_cmp (x # xs) [] = uint x"
| "byte_cmp (x # xs) (y # ys) = (if x = y then byte_cmp xs ys else uint x - uint y)"

lemma strcmp_byte_cmp: "cstr m p xs \<Longrightarrow> cstr m q ys \<Longrightarrow> strcmp m p q = Some (byte_cmp xs ys)"
proof (induction xs ys arbitrary: p q rule: byte_cmp.induct)
  case (4 x xs y ys)
  then show ?case by (subst strcmp.simps) auto
qed (subst strcmp.simps; simp)+

lemma byte_cmp_zero:
  "0 \<notin> set xs \<Longrightarrow> 0 \<notin> set ys \<Longrightarrow> byte_cmp xs ys = 0 \<longleftrightarrow> xs = ys"
  by (induction xs ys rule: byte_cmp.induct) (auto simp: word_uint_eq_iff)

lemma byte_cmp_less:
  "0 \<notin> set xs \<Longrightarrow> 0 \<notin> set ys \<Longrightarrow> byte_cmp xs ys < 0 \<longleftrightarrow> (xs, ys) \<in> lexord {(a, b). a < b}"
  by (induction xs ys rule: byte_cmp.induct) (auto simp: word_less_def word_uint_eq_iff order_less_le)

lemma strcpy_loop_cstr:
  assumes "cstr m src xs" and "length xs < 2 ^ 64 - 1"
    and "region dest (length xs + 1) \<inter> region src (length xs + 1) = {}"
  shows "strcpy_loop m dest src = Some (copied m dest src (length xs + 1))"
  using assms
proof (induction xs arbitrary: m dest src)
  case Nil
  then show ?case
    by (subst strcpy_loop.simps) (auto simp: copied_def fun_eq_iff region_Suc [of 0, simplified])
next
  case (Cons x xs)
  let ?m = "m(dest := m src)" and ?n = "length xs + 1"
  have n: "?n < 2 ^ 64" "length xs < 2 ^ 64 - 1" using Cons.prems(2) by simp_all
  have sub: "region (p + 1) ?n \<subseteq> region p (Suc ?n)" for p
    using n by (auto simp: region_shift)
  have "dest \<notin> region src (Suc ?n)" using Cons.prems(3) by (auto simp: disjoint_iff)
  then have "cstr ?m (src + 1) xs"
    using Cons.prems(1) n sub by (subst cstr_cong [where m = m]) auto
  moreover have "region (dest + 1) ?n \<inter> region (src + 1) ?n = {}"
    using Cons.prems(3) sub [of dest] sub [of src] by auto
  ultimately have "strcpy_loop ?m (dest + 1) (src + 1) = Some (copied ?m (dest + 1) (src + 1) ?n)"
    using n Cons.IH [of ?m "src + 1" "dest + 1"] by blast
  moreover have "copied ?m (dest + 1) (src + 1) ?n = copied m dest src (Suc ?n)"
    using Cons.prems(3) n by (intro copied_Suc) simp_all
  ultimately show ?case using Cons.prems(1) by (subst strcpy_loop.simps) (simp add: Let_def)
qed

lemma cstr_copied:
  assumes "cstr m src xs" and "length xs < 2 ^ 64 - 1"
  shows "cstr (copied m dest src (length xs + 1)) dest xs"
  using assms by (auto simp: cstr_iff_nth copied_def region_offset)

end
