(* ===== verification/CString_Spec.thy ===== *)
theory CString_Spec
  imports CString "HOL-Library.Sublist"
begin

text \<open>
  What the bounded and the searching functions of \<^verbatim>\<open>string.c\<close> do, in terms of the lists of
  bytes that NUL-terminated strings hold: \<^verbatim>\<open>memcmp\<close>, \<^verbatim>\<open>strncpy\<close>, \<^verbatim>\<open>strchr\<close>,
  \<^verbatim>\<open>strstr\<close> and \<^verbatim>\<open>strtok\<close>; then the properties of the whole file.
\<close>

lemma ucast_u32_of_nat: "(ucast (i :: u32) :: u64) = of_nat (unat i)"
  by simp

lemma ucast_offset: "a = dest + ucast (i :: u32) \<longleftrightarrow> unat (a - dest :: u64) = unat i"
  by (metis add_diff_cancel_left' diff_add_cancel unat_ucast_u32 word_unat_eq_iff)

section \<open>Bounded comparison and copying\<close>

lemma memcmp_loop_spec:
  assumes "unat i \<le> unat n"
  shows "(memcmp_loop m p q n i = 0 \<and> (\<forall>k. unat i \<le> k \<and> k < unat n \<longrightarrow> m (p + of_nat k) = m (q + of_nat k))) \<or>
    (\<exists>k. unat i \<le> k \<and> k < unat n \<and> (\<forall>j. unat i \<le> j \<and> j < k \<longrightarrow> m (p + of_nat j) = m (q + of_nat j)) \<and>
      m (p + of_nat k) \<noteq> m (q + of_nat k) \<and>
      memcmp_loop m p q n i = (if m (p + of_nat k) < m (q + of_nat k) then -1 else 1))"
  using assms
proof (induction m p q n i rule: memcmp_loop.induct)
  case (1 m p q n i)
  show ?case
  proof (cases "i < n")
    case False
    then show ?thesis using 1(2) by (subst memcmp_loop.simps) (auto simp: word_less_nat_alt)
  next
    case True
    then have s: "unat (i + 1) = Suc (unat i)" "unat i < unat n" by (simp_all add: unat_succ word_less_nat_alt)
    show ?thesis
    proof (cases "m (p + i) = m (q + i)")
      case False
      with True s show ?thesis
        by (intro disjI2 exI [of _ "unat i"], subst memcmp_loop.simps) auto
    next
      case eq: True
      then have r: "memcmp_loop m p q n i = memcmp_loop m p q n (i + 1)"
        using True by (subst memcmp_loop.simps) simp
      have here: "m (p + of_nat (unat i)) = m (q + of_nat (unat i))" using eq by simp
      have split: "(\<forall>k. unat i \<le> k \<and> k < b \<longrightarrow> P k) \<longleftrightarrow> (unat i < b \<longrightarrow> P (unat i)) \<and> (\<forall>k. unat (i + 1) \<le> k \<and> k < b \<longrightarrow> P k)" for b P
        unfolding s(1) by (metis Suc_leD Suc_leI le_neq_implies_less order_refl)
      have "unat (i + 1) \<le> unat n" using s by simp
      from 1(1) [OF True _ this] eq show ?thesis
        unfolding r split using here s by (metis Suc_leD)
    qed
  qed
qed

lemma strncpy_copy_spec:
  assumes "unat i \<le> unat n"
    and "cstr m src xs" and "unat i \<le> length xs"
    and "region dest (unat n) \<inter> region src (length xs + 1) = {}" and "length xs < 2 ^ 64 - 1"
  shows "strncpy_copy m dest src n i =
    ((\<lambda>a. if unat i \<le> unat (a - dest) \<and> unat (a - dest) < min (unat n) (length xs)
          then xs ! unat (a - dest) else m a), of_nat (min (unat n) (length xs)))"
  using assms
proof (induction m dest src n i rule: strncpy_copy.induct)
  case (1 m dest src n i)
  have n: "unat n < 2 ^ 32" using unsigned_less [of n, where 'a = nat] by simp
  have ci: "(ucast i :: u64) = of_nat (unat i)" by (rule ucast_u32_of_nat)
  show ?case
  proof (cases "i < n \<and> unat i < length xs")
    case False
    have z: "unat i = length xs \<Longrightarrow> m (src + ucast i) = 0"
      using cstr_nul [OF 1(3)] unfolding ci by (simp only:)
    from False have stop: "\<not> (i < n \<and> m (src + ucast i) \<noteq> 0)" and e: "unat i = min (unat n) (length xs)"
      using 1(2-4) z by (auto simp: word_less_nat_alt le_less)
    have "(\<lambda>a. if unat i \<le> unat (a - dest) \<and> unat (a - dest) < min (unat n) (length xs)
          then xs ! unat (a - dest) else m a) = m"
      by (auto simp: e fun_eq_iff)
    moreover have "strncpy_copy m dest src n i = (m, i)"
      using stop by (subst strncpy_copy.simps) (simp only: if_False)
    moreover have "of_nat (min (unat n) (length xs)) = i" unfolding e [symmetric] by simp
    ultimately show ?thesis by (simp only:)
  next
    case True
    let ?m = "m(dest + ucast i := m (src + ucast i))"
    have s: "unat (i + 1) = Suc (unat i)" "unat i < unat n"
      using True unat_succ [of i n] by (simp_all add: word_less_nat_alt)
    have x: "m (src + ucast i) = xs ! unat i" "m (src + ucast i) \<noteq> 0"
      using True cstr_nth [OF 1(3), of "unat i"] cstr_nonzero [OF 1(3)] by auto
    have "dest + of_nat (unat i) \<in> region dest (unat n)" using s n by (subst region_offset) simp_all
    with 1(5) have "dest + ucast i \<notin> region src (length xs + 1)" unfolding ci by blast
    then have c: "cstr ?m src xs" using 1(3) 1(6) by (subst cstr_cong [where m = m]) auto
    have at: "a = dest + ucast i \<longleftrightarrow> unat (a - dest) = unat i" for a
      by (rule ucast_offset)
    have "strncpy_copy m dest src n i = strncpy_copy ?m dest src n (i + 1)"
      using True x by (subst strncpy_copy.simps) simp
    also have "\<dots> = ((\<lambda>a. if unat (i + 1) \<le> unat (a - dest) \<and> unat (a - dest) < min (unat n) (length xs)
          then xs ! unat (a - dest) else ?m a), of_nat (min (unat n) (length xs)))"
    proof (rule 1(1) [OF _ _ c _ 1(5,6)])
      show "i < n \<and> m (src + ucast i) \<noteq> 0" using True x by simp
      show "unat (i + 1) \<le> unat n" "unat (i + 1) \<le> length xs" using True s by simp_all
    qed
    also have "\<dots> = ((\<lambda>a. if unat i \<le> unat (a - dest) \<and> unat (a - dest) < min (unat n) (length xs)
          then xs ! unat (a - dest) else m a), of_nat (min (unat n) (length xs)))"
    proof -
      have u: "?m a = (if unat (a - dest) = unat i then xs ! unat i else m a)" for a
        by (simp add: at x(1))
      have "unat i < min (unat n) (length xs)" using True s by simp
      then have "(if Suc (unat i) \<le> k \<and> k < min (unat n) (length xs) then xs ! k
            else if k = unat i then xs ! unat i else v) =
          (if unat i \<le> k \<and> k < min (unat n) (length xs) then xs ! k else v)" for k v
        by auto
      then show ?thesis unfolding u s(1) by (simp only:)
    qed
    finally show ?thesis .
  qed
qed

lemma strncpy_pad_spec:
  "strncpy_pad m dest n i =
    (\<lambda>a. if unat i \<le> unat (a - dest) \<and> unat (a - dest) < unat n then 0 else m a)"
proof (induction m dest n i rule: strncpy_pad.induct)
  case (1 m dest n i)
  have ci: "(ucast i :: u64) = of_nat (unat i)" by (rule ucast_u32_of_nat)
  have at: "a = dest + ucast i \<longleftrightarrow> unat (a - dest) = unat i" for a
    by (rule ucast_offset)
  show ?case
  proof (cases "i < n")
    case False
    then show ?thesis by (subst strncpy_pad.simps) (auto simp: fun_eq_iff word_less_nat_alt)
  next
    case True
    then have s: "unat (i + 1) = Suc (unat i)" "unat i < unat n" by (simp_all add: unat_succ word_less_nat_alt)
    have u: "(m(dest + ucast i := 0)) a = (if unat (a - dest) = unat i then 0 else m a)" for a
      by (simp add: at)
    have "strncpy_pad m dest n i = strncpy_pad (m(dest + ucast i := 0)) dest n (i + 1)"
      using True by (subst strncpy_pad.simps) simp
    also have "\<dots> = (\<lambda>a. if unat (i + 1) \<le> unat (a - dest) \<and> unat (a - dest) < unat n then 0
        else (m(dest + ucast i := 0)) a)"
      using True by (rule 1)
    also have "\<dots> = (\<lambda>a. if unat i \<le> unat (a - dest) \<and> unat (a - dest) < unat n then 0 else m a)"
      unfolding u s(1) using s(2) by (auto simp: fun_eq_iff)
    finally show ?thesis .
  qed
qed

lemma strncpy_spec:
  assumes "cstr m src xs" and "length xs < 2 ^ 64 - 1"
    and "region dest (unat n) \<inter> region src (length xs + 1) = {}"
  shows "strncpy m dest src n =
    (\<lambda>a. if a \<in> region dest (unat n)
         then (if unat (a - dest) < length xs then xs ! unat (a - dest) else 0) else m a)"
proof -
  have "unat (of_nat (min (unat n) (length xs)) :: u32) = min (unat n) (length xs)"
    using unsigned_less [of n, where 'a = nat] by (simp add: unat_of_nat take_bit_nat_eq_self)
  then show ?thesis
    using strncpy_copy_spec [of 0 n m src xs dest] assms
    by (auto simp: strncpy_def strncpy_pad_spec region_def fun_eq_iff)
qed

section \<open>Searching\<close>

lemma strchr_cstr:
  assumes "cstr m p xs"
  shows "strchr m p c = Some (if ucast c \<in> set xs
    then p + of_nat (length (takeWhile (\<lambda>x. x \<noteq> ucast c) xs)) else 0)"
  using assms
proof (induction xs arbitrary: p)
  case Nil
  then show ?case by (subst strchr.simps) simp
next
  case (Cons x xs)
  then show ?case by (subst strchr.simps) (auto simp: add.assoc)
qed

lemma strstr_match_cstr:
  assumes "cstr m h hs" and "cstr m n ns"
  shows "\<exists>k \<le> length ns. strstr_match m h n = Some (n + of_nat k) \<and> (k = length ns \<longleftrightarrow> prefix ns hs)"
  using assms
proof (induction ns arbitrary: h n hs)
  case Nil
  then show ?case by (subst strstr_match.simps) auto
next
  case (Cons y ns)
  show ?case
  proof (cases "hs \<noteq> [] \<and> hd hs = y")
    case False
    then have "strstr_match m h n = Some (n + of_nat 0)" "\<not> prefix (y # ns) hs"
      using Cons.prems by (cases hs; subst strstr_match.simps; auto; fail) (use False in \<open>cases hs; auto\<close>)
    then show ?thesis by (intro exI [of _ 0]) simp
  next
    case True
    then obtain hs' where hs: "hs = y # hs'" by (cases hs) auto
    with Cons.prems Cons.IH [of "h + 1" hs' "n + 1"] obtain k where k: "k \<le> length ns"
      "strstr_match m (h + 1) (n + 1) = Some (n + 1 + of_nat k)" "(k = length ns) = prefix ns hs'" by auto
    have "strstr_match m h n = strstr_match m (h + 1) (n + 1)"
      using Cons.prems hs by (subst strstr_match.simps) auto
    with k hs show ?thesis by (intro exI [of _ "Suc k"]) (simp add: add.assoc)
  qed
qed

text \<open>The position of the first occurrence of a needle.\<close>

fun occurrence :: "u8 list \<Rightarrow> u8 list \<Rightarrow> nat option" where
  "occurrence ns [] = None"
| "occurrence ns (x # xs) =
     (if prefix ns (x # xs) then Some 0 else map_option Suc (occurrence ns xs))"

lemma occurrence_Some_iff:
  "occurrence ns xs = Some i \<longleftrightarrow>
    i < length xs \<and> prefix ns (drop i xs) \<and> (\<forall>j < i. \<not> prefix ns (drop j xs))"
proof (induction xs arbitrary: i)
  case (Cons x xs)
  show ?case
    by (cases i) (auto simp: Cons.IH All_less_Suc2)
qed simp

lemma occurrence_None_iff:
  "occurrence ns xs = None \<longleftrightarrow> (\<forall>j < length xs. \<not> prefix ns (drop j xs))"
  by (induction xs) (auto simp: All_less_Suc2)

lemma strstr_loop_cstr:
  assumes "cstr m h hs" and "cstr m n ns"
  shows "strstr_loop m h n =
    Some (case occurrence ns hs of None \<Rightarrow> 0 | Some i \<Rightarrow> h + of_nat i)"
  using assms(1)
proof (induction hs arbitrary: h)
  case Nil
  then show ?case by (subst strstr_loop.simps) simp
next
  case (Cons x hs)
  obtain k where k: "k \<le> length ns" "strstr_match m h n = Some (n + of_nat k)"
    "(k = length ns) = prefix ns (x # hs)"
    using strstr_match_cstr [OF Cons.prems assms(2)] by blast
  have "m (n + of_nat k) = 0 \<longleftrightarrow> k = length ns"
    using k(1) cstr_nul [OF assms(2)] cstr_nth [OF assms(2)] cstr_nonzero [OF assms(2)]
    by (metis le_neq_implies_less nth_mem)
  with Cons k show ?case
    by (subst strstr_loop.simps) (auto simp: add.assoc split: option.split)
qed

section \<open>Tokens\<close>

lemma strchr_in:
  assumes "cstr m d ds" and "d \<noteq> 0" and "unat d + length ds < 2 ^ 64"
  shows "\<exists>r. strchr m d c = Some r \<and> (r \<noteq> 0 \<longleftrightarrow> ucast c \<in> set ds)"
proof -
  have "d + of_nat (length (takeWhile (\<lambda>x. x \<noteq> ucast c) ds)) \<noteq> 0"
  proof -
    have "length (takeWhile (\<lambda>x. x \<noteq> ucast c) ds) < length ds + 1"
      by (simp add: length_takeWhile_le le_imp_less_Suc)
    then have "unat (d + of_nat (length (takeWhile (\<lambda>x. x \<noteq> ucast c) ds))) =
        unat d + length (takeWhile (\<lambda>x. x \<noteq> ucast c) ds)"
      using assms(3) by (intro unat_offset [where n = "length ds + 1"]) simp_all
    then show ?thesis using assms(2) by (auto simp: unat_eq_zero)
  qed
  then show ?thesis by (simp add: strchr_cstr [OF assms(1)])
qed

lemma ucast_scast_u8 [simp]: "(ucast (scast (x :: u8) :: u32) :: u8) = x"
  by (rule bit_eqI) (simp add: bit_simps)

lemma strtok_skip_cstr:
  assumes "cstr m s xs" and "cstr m d ds" and "d \<noteq> 0" and "unat d + length ds < 2 ^ 64"
  shows "strtok_skip m d s = Some (s + of_nat (length (takeWhile (\<lambda>x. x \<in> set ds) xs)))"
  using assms(1)
proof (induction xs arbitrary: s)
  case Nil
  then show ?case by (subst strtok_skip.simps) simp
next
  case (Cons x xs)
  with strchr_in [OF assms(2-4), of "scast x"] show ?case
    by (subst strtok_skip.simps) (auto simp: add.assoc)
qed

lemma strtok_end_cstr:
  assumes "cstr m s xs" and "cstr m d ds" and "d \<noteq> 0" and "unat d + length ds < 2 ^ 64"
  shows "strtok_end m d s = Some (s + of_nat (length (takeWhile (\<lambda>x. x \<notin> set ds) xs)))"
  using assms(1)
proof (induction xs arbitrary: s)
  case Nil
  then show ?case by (subst strtok_end.simps) simp
next
  case (Cons x xs)
  with strchr_in [OF assms(2-4), of "scast x"] show ?case
    by (subst strtok_end.simps) (auto simp: add.assoc)
qed

lemma strtok_spec:
  assumes "cstr m s xs" and "cstr m d ds" and "d \<noteq> 0" and "unat d + length ds < 2 ^ 64"
    and "s \<noteq> 0" and "str = s \<or> str = 0 \<and> nxt = s"
  shows "strtok m nxt str d =
    (let pre = length (takeWhile (\<lambda>x. x \<in> set ds) xs);
         ys = dropWhile (\<lambda>x. x \<in> set ds) xs;
         tok = length (takeWhile (\<lambda>x. x \<notin> set ds) ys);
         start = s + of_nat pre
     in if ys = [] then Some (0, 0, m)
        else if tok < length ys
        then Some (start, start + of_nat tok + 1, m(start + of_nat tok := 0))
        else Some (start, 0, m))"
proof -
  let ?pre = "takeWhile (\<lambda>x. x \<in> set ds) xs" and ?ys = "dropWhile (\<lambda>x. x \<in> set ds) xs"
  let ?tok = "takeWhile (\<lambda>x. x \<notin> set ds) ?ys" and ?start = "s + of_nat (length ?pre)"
  have "?ys = drop (length ?pre) xs" by (rule dropWhile_eq_drop)
  then have y: "cstr m ?start ?ys"
    using cstr_drop [OF assms(1), of "length ?pre"] by (simp add: length_takeWhile_le)
  have sk: "strtok_skip m d s = Some ?start" using assms(1-4) by (rule strtok_skip_cstr)
  have en: "strtok_end m d ?start = Some (?start + of_nat (length ?tok))"
    using y assms(2-4) by (rule strtok_end_cstr)
  have z: "m ?start = 0 \<longleftrightarrow> ?ys = []" using y by (cases ?ys) auto
  have "m (?start + of_nat (length ?tok)) \<noteq> 0 \<longleftrightarrow> length ?tok < length ?ys"
    using cstr_nul [OF y] cstr_nth [OF y] cstr_nonzero [OF y]
    by (metis length_takeWhile_le nat_less_le nth_mem)
  with assms(5,6) sk en z show ?thesis
    by (auto simp: strtok_def Let_def)
qed


section \<open>Properties\<close>

text \<open>C39: \<^verbatim>\<open>memmove\<close> copies as if through a buffer: whether or not the blocks overlap, every
  byte of the destination is the source byte as it was before the call, and nothing else
  changes, provided the blocks do not wrap around the address space.\<close>

theorem memmove_overlap:
  assumes "unat dest + unat n \<le> 2 ^ 64" and "unat src + unat n \<le> 2 ^ 64"
  shows "memmove m dest src n a =
    (if a \<in> region dest (unat n) then m (src + (a - dest)) else m a)"
  by (simp add: memmove_copied [OF assms] copied_def)

theorem memmove_overlap_witness:
  "memmove (\<lambda>a. ucast a) 11 10 4 14 = 13 \<and> memmove (\<lambda>a. ucast a) 10 11 4 10 = 11"
  using memmove_overlap [of 11 4 10 "\<lambda>a. ucast a" 14] memmove_overlap [of 10 4 11 "\<lambda>a. ucast a" 10]
  by (simp add: region_def)

text \<open>\<^verbatim>\<open>memcmp\<close> is 0 exactly when the blocks agree, and otherwise has the sign of the
  comparison of the first bytes that differ.\<close>

theorem memcmp_first_difference:
  "(if \<forall>k < unat n. m (p + of_nat k) = m (q + of_nat k) then memcmp m p q n = 0
    else let k = (LEAST k. k < unat n \<and> m (p + of_nat k) \<noteq> m (q + of_nat k))
         in memcmp m p q n = (if m (p + of_nat k) < m (q + of_nat k) then -1 else 1))"
proof (cases "\<forall>k < unat n. m (p + of_nat k) = m (q + of_nat k)")
  case True
  with memcmp_loop_spec [of 0 n m p q] show ?thesis by (auto simp: memcmp_def)
next
  case False
  then obtain k where k: "k < unat n" "\<forall>j < k. m (p + of_nat j) = m (q + of_nat j)"
    "m (p + of_nat k) \<noteq> m (q + of_nat k)"
    "memcmp m p q n = (if m (p + of_nat k) < m (q + of_nat k) then -1 else 1)"
    using memcmp_loop_spec [of 0 n m p q] by (auto simp: memcmp_def)
  then have "(LEAST k. k < unat n \<and> m (p + of_nat k) \<noteq> m (q + of_nat k)) = k"
    by (intro Least_equality) (auto simp: not_less [symmetric])
  with False k(4) show ?thesis by (simp add: Let_def)
qed

theorem memcmp_first_difference_witness:
  "memcmp (\<lambda>a. ucast a) 16 16 8 = 0 \<and> memcmp (\<lambda>a. ucast a) 16 17 1 = -1"
proof -
  have l: "(LEAST k. k < unat (1 :: u64) \<and>
      ucast (16 + of_nat k :: u64) \<noteq> (ucast (17 + of_nat k :: u64) :: u8)) = 0"
    by (rule Least_equality) simp_all
  have n: "\<not> (\<forall>k < unat (1 :: u64). ucast (16 + of_nat k :: u64) = (ucast (17 + of_nat k :: u64) :: u8))"
    by (auto intro!: exI [of _ 0])
  show ?thesis
    using memcmp_first_difference [of 8 "\<lambda>a. ucast a" 16 16]
      memcmp_first_difference [of 1 "\<lambda>a. ucast a" 16 17, unfolded if_not_P [OF n] l]
    by (simp add: Let_def)
qed

text \<open>\<^verbatim>\<open>strcpy\<close> of a terminated string to a place that does not overlap it returns, leaves a
  copy of the string with its terminator there, and changes no other byte.\<close>

theorem strcpy_copies:
  assumes "cstr m src xs" and "length xs < 2 ^ 64 - 1"
    and "region dest (length xs + 1) \<inter> region src (length xs + 1) = {}"
  shows "\<exists>m'. strcpy m dest src = Some m' \<and> cstr m' dest xs \<and>
    (\<forall>a. a \<notin> region dest (length xs + 1) \<longrightarrow> m' a = m a)"
  using strcpy_loop_cstr [OF assms] cstr_copied [OF assms(1,2)] by (simp add: strcpy_def copied_def)

theorem strcpy_copies_witness:
  "\<exists>m'. strcpy (\<lambda>a. if a = 16 then 65 else 0) 32 16 = Some m' \<and> cstr m' 32 [65]"
proof -
  have "cstr (\<lambda>a. if a = 16 then 65 else 0) 16 [65]" by simp
  moreover have "region 32 (length [65 :: u8] + 1) \<inter> region 16 (length [65 :: u8] + 1) = {}"
    by (auto simp: region_Suc)
  ultimately show ?thesis using strcpy_copies [of "\<lambda>a. if a = 16 then 65 else 0" 16 "[65]" 32] by auto
qed

text \<open>\<^verbatim>\<open>strncpy\<close> writes exactly \<^verbatim>\<open>n\<close> bytes: the string, cut at \<^verbatim>\<open>n\<close>, padded with NULs;
  so the result is terminated exactly when the string is shorter than \<^verbatim>\<open>n\<close>.\<close>

theorem strncpy_contract:
  assumes "cstr m src xs" and "length xs < 2 ^ 64 - 1"
    and "region dest (unat n) \<inter> region src (length xs + 1) = {}"
  shows "strncpy m dest src n a =
      (if a \<in> region dest (unat n)
       then (if unat (a - dest) < length xs then xs ! unat (a - dest) else 0) else m a) \<and>
    ((\<exists>k < unat n. strncpy m dest src n (dest + of_nat k) = 0) \<longleftrightarrow> length xs < unat n)"
proof -
  have n: "unat n < 2 ^ 32" using unsigned_less [of n, where 'a = nat] by simp
  have at: "strncpy m dest src n (dest + of_nat k) = (if k < length xs then xs ! k else 0)"
    if "k < unat n" for k
    using that n by (simp add: strncpy_spec [OF assms] region_offset unat_of_nat_u64)
  have "(\<exists>k < unat n. strncpy m dest src n (dest + of_nat k) = 0) \<longleftrightarrow> length xs < unat n"
  proof
    assume "\<exists>k < unat n. strncpy m dest src n (dest + of_nat k) = 0"
    then obtain k where "k < unat n" "(if k < length xs then xs ! k else 0) = 0" using at by auto
    then show "length xs < unat n"
      using cstr_nonzero [OF assms(1)] by (cases "k < length xs") auto
  next
    assume "length xs < unat n"
    with at [of "length xs"] show "\<exists>k < unat n. strncpy m dest src n (dest + of_nat k) = 0" by auto
  qed
  then show ?thesis by (simp add: strncpy_spec [OF assms])
qed

theorem strncpy_contract_witness:
  "strncpy (\<lambda>a. if a = 16 then 65 else if a = 17 then 66 else 0) 32 16 1 32 = 65"
proof -
  let ?m = "\<lambda>a :: u64. if a = 16 then 65 else if a = 17 then 66 else (0 :: u8)"
  have "cstr ?m 16 [65, 66]" by simp
  moreover have "region 32 (unat (1 :: u32)) \<inter> region 16 (length [65 :: u8, 66] + 1) = {}"
    by (auto simp: region_Suc)
  ultimately show ?thesis using strncpy_contract [of ?m 16 "[65, 66]" 32 1 32] by simp
qed

text \<open>\<^verbatim>\<open>strcmp\<close> on terminated strings returns, with 0 exactly for equal strings and a
  negative number exactly when the first precedes the second in the lexicographic order of
  unsigned bytes.\<close>

theorem strcmp_orders:
  assumes "cstr m p xs" and "cstr m q ys"
  shows "\<exists>r. strcmp m p q = Some r \<and> (r = 0 \<longleftrightarrow> xs = ys) \<and>
    (r < 0 \<longleftrightarrow> (xs, ys) \<in> lexord {(a, b). a < b})"
proof -
  have "0 \<notin> set xs" "0 \<notin> set ys" using cstr_nonzero assms by blast+
  then show ?thesis using strcmp_byte_cmp [OF assms] byte_cmp_zero byte_cmp_less by simp
qed

theorem strcmp_orders_witness:
  "\<exists>r < 0. strcmp (\<lambda>a. if a = 16 then 65 else if a = 32 then 0x80 else 0) 16 32 = Some r"
proof -
  let ?m = "\<lambda>a :: u64. if a = 16 then 65 else if a = 32 then 0x80 else (0 :: u8)"
  have "cstr ?m 16 [65]" "cstr ?m 32 [0x80]" by simp_all
  from strcmp_orders [OF this] show ?thesis by auto
qed

text \<open>\<^verbatim>\<open>strstr\<close> with a non-empty needle returns the address of its first occurrence in the
  haystack, and the null pointer if there is none.\<close>

theorem strstr_first_occurrence:
  assumes "cstr m h hs" and "cstr m n ns" and "ns \<noteq> []"
  shows "(\<exists>i \<le> length hs. strstr m h n = Some (h + of_nat i) \<and> prefix ns (drop i hs) \<and>
      (\<forall>j < i. \<not> prefix ns (drop j hs))) \<or>
    strstr m h n = Some 0 \<and> \<not> sublist ns hs"
proof -
  have "m n \<noteq> 0" using assms(2,3) by (cases ns) auto
  then have r: "strstr m h n = Some (case occurrence ns hs of None \<Rightarrow> 0 | Some i \<Rightarrow> h + of_nat i)"
    using strstr_loop_cstr [OF assms(1,2)] by (simp add: strstr_def)
  show ?thesis
  proof (cases "occurrence ns hs")
    case (Some i)
    then have "strstr m h n = Some (h + of_nat i)" using r by simp
    moreover have "i < length hs \<and> prefix ns (drop i hs) \<and> (\<forall>j < i. \<not> prefix ns (drop j hs))"
      using Some by (rule occurrence_Some_iff [THEN iffD1])
    ultimately show ?thesis by (metis less_imp_le)
  next
    case None
    have "\<not> sublist ns hs"
    proof
      assume "sublist ns hs"
      then obtain us ws where hs: "hs = us @ ns @ ws" by (auto simp: sublist_def)
      then have "length us < length hs" "prefix ns (drop (length us) hs)" using assms(3) by auto
      with None show False by (auto simp: occurrence_None_iff)
    qed
    with None r show ?thesis by simp
  qed
qed

theorem strstr_first_occurrence_witness:
  "strstr (\<lambda>a. if a = 16 then 65 else if a = 17 \<or> a = 32 then 66 else 0) 16 32 = Some 17"
proof -
  let ?m = "\<lambda>a :: u64. if a = 16 then 65 else if a = 17 \<or> a = 32 then 66 else (0 :: u8)"
  have "cstr ?m 16 [65, 66]" "cstr ?m 32 [66]" by simp_all
  from strstr_first_occurrence [OF this] show ?thesis
    by (auto simp: le_Suc_eq numeral_2_eq_2 sublist_Cons_right)
qed

text \<open>A zero written inside a string cuts it in two.\<close>

lemma cstr_cut:
  assumes y: "cstr m p ys" and n: "n < length ys" and l: "length ys < 2 ^ 64"
  shows "cstr (m(p + of_nat n := 0)) p (take n ys)"
    and "cstr (m(p + of_nat n := 0)) (p + of_nat n + 1) (drop (Suc n) ys)"
proof -
  let ?m = "m(p + of_nat n := 0)"
  have off: "?m (p + of_nat k) = m (p + of_nat k)" if "k \<noteq> n" "k \<le> length ys" for k
  proof -
    have "k < 2 ^ 64" "n < 2 ^ 64" using that l n by linarith+
    with that have "(of_nat k :: u64) \<noteq> of_nat n" by (metis of_nat_u64_inject)
    then show ?thesis by simp
  qed
  show "cstr ?m p (take n ys)"
    using y n off by (auto simp: cstr_iff_nth)
  have "cstr m (p + of_nat (Suc n)) (drop (Suc n) ys)"
    using y n by (intro cstr_drop) simp_all
  moreover have "p + of_nat (Suc n) + of_nat k = p + of_nat (Suc n + k)" for k
    by simp
  ultimately have c: "cstr ?m (p + of_nat (Suc n)) (drop (Suc n) ys)"
    using n off unfolding cstr_iff_nth by (simp only:) (auto simp del: of_nat_Suc of_nat_add fun_upd_apply)
  have "p + of_nat (Suc n) = p + of_nat n + 1" by simp
  from c [unfolded this] show "cstr ?m (p + of_nat n + 1) (drop (Suc n) ys)" .
qed

text \<open>A call of \<^verbatim>\<open>strtok\<close> skips the leading delimiters; if nothing is left it returns the
  null pointer and ends, and otherwise it returns the longest following run of bytes that are
  not delimiters, now a terminated string, and remembers the rest of the input behind it.\<close>

theorem strtok_token:
  assumes "cstr m s xs" and "cstr m d ds" and "d \<noteq> 0" and "s \<noteq> 0"
    and "unat d + length ds < 2 ^ 64" and "unat s + length xs < 2 ^ 64"
    and "str = s \<or> str = 0 \<and> nxt = s"
    and "ys = dropWhile (\<lambda>x. x \<in> set ds) xs" and "tok = takeWhile (\<lambda>x. x \<notin> set ds) ys"
  shows "if ys = [] then strtok m nxt str d = Some (0, 0, m)
    else \<exists>p nxt' m'. strtok m nxt str d = Some (p, nxt', m') \<and> p \<noteq> 0 \<and> tok \<noteq> [] \<and> cstr m' p tok \<and>
      (if tok = ys then nxt' = 0 \<and> m' = m else cstr m' nxt' (drop (Suc (length tok)) ys))"
proof -
  let ?pre = "takeWhile (\<lambda>x. x \<in> set ds) xs" and ?ys = "dropWhile (\<lambda>x. x \<in> set ds) xs"
  let ?start = "s + of_nat (length ?pre)"
  have ys: "ys = drop (length ?pre) xs" unfolding assms(8) by (rule dropWhile_eq_drop)
  have lp: "length ?pre \<le> length xs" by (rule length_takeWhile_le)
  have y: "cstr m ?start ys"
    using cstr_drop [OF assms(1) lp] by (simp add: ys)
  have tl: "length tok \<le> length ys" unfolding assms(9) by (rule length_takeWhile_le)
  have t: "tok = take (length tok) ys" unfolding assms(9) by (rule takeWhile_eq_take)
  then have full: "length tok < length ys \<longleftrightarrow> tok \<noteq> ys"
    using tl by (metis le_neq_implies_less less_irrefl order_refl take_all)
  note spec = strtok_spec [OF assms(1,2,3,5,4,7), folded assms(8), folded assms(9)]
  show ?thesis
  proof (cases "ys = []")
    case True
    with spec show ?thesis by (simp add: Let_def)
  next
    case False
    have "unat ?start = unat s + length ?pre"
      using lp assms(6) by (intro unat_offset [where n = "length xs + 1"]) simp_all
    then have p: "?start \<noteq> 0" using assms(4) by (auto simp: unat_eq_zero)
    have "hd ys \<notin> set ds" using False hd_dropWhile [of "\<lambda>x. x \<in> set ds" xs] unfolding assms(8) by blast
    then have tn: "tok \<noteq> []" using False unfolding assms(9) by (cases ys) auto
    show ?thesis
    proof (cases "tok = ys")
      case True
      then have "takeWhile (\<lambda>x. x \<notin> set ds) ys = ys" using assms(9) by simp
      with spec False p tn y True show ?thesis by (simp add: Let_def)
    next
      case sep: False
      have l: "length tok < length ys" "length ys < 2 ^ 64"
        using full sep assms(6) lp by (simp_all add: ys)
      have "strtok m nxt str d = Some (?start, ?start + of_nat (length tok) + 1, m(?start + of_nat (length tok) := 0))"
        using spec False l(1) by (simp add: Let_def assms(9) [symmetric])
      with False sep p tn cstr_cut [OF y l] show ?thesis by (simp flip: t)
    qed
  qed
qed

theorem strtok_token_witness:
  "\<exists>m'. strtok (\<lambda>a. if a = 16 \<or> a = 18 then 65 else if a = 17 \<or> a = 32 then 44 else 0) 0 16 32 =
     Some (16, 18, m') \<and> cstr m' 16 [65] \<and> cstr m' 18 [65]"
proof -
  let ?m = "\<lambda>a :: u64. if a = 16 \<or> a = 18 then 65 else if a = 17 \<or> a = 32 then 44 else (0 :: u8)"
  have c: "cstr ?m 16 [65, 44, 65]" "cstr ?m 32 [44]" by simp_all
  have "\<exists>p nxt' m'. strtok ?m 0 16 32 = Some (p, nxt', m') \<and> cstr m' p [65] \<and> cstr m' nxt' [65]"
    using strtok_token [OF c, of 16 0 "[65, 44, 65]" "[65]"] by auto
  moreover have "\<exists>m'. strtok ?m 0 16 32 = Some (16, 18, m')"
    using strtok_spec [OF c, of 16 0] by (simp add: Let_def)
  ultimately show ?thesis by fastforce
qed

end
