(* ===== verification/Machine.thy ===== *)
theory Machine
  imports Prelude
begin

text \<open>
  The kernel's input and output, from \<^verbatim>\<open>src/ASNU/src/KiSimple.c\<close>: port I/O and the fixed
  offset between physical and kernel virtual addresses. The record also holds the static
  variables of \<^verbatim>\<open>src/ASNU/src/Serial/serial.c\<close>, since logging is part of almost every
  operation.

  A device is not under \<^verbatim>\<open>src/\<close>: what a port read returns is the parameter \<open>dev\<close>, a function of
  everything that has been sent to and read from the ports so far (newest first) and of the
  port. The terminal is the sequence of characters given to \<^verbatim>\<open>flanterm_write\<close>.
\<close>

datatype io =
    Out8 u16 u8
  | Out16 u16 u16
  | Out32 u16 u32
  | In8 u16
  | In16 u16
  | In32 u16

record machine =
  trace :: "io list"
  dev :: "io list \<Rightarrow> u16 \<Rightarrow> u32"
  console :: string
  log_id :: u32
  i2s_temp :: string
  i2s_last :: u32
  i2s_init :: bool

text \<open>The statics at boot, with all ports reading zero.\<close>

definition boot_machine :: machine where
  "boot_machine = \<lparr>trace = [], dev = \<lambda>_ _. 0, console = [], log_id = 0, i2s_temp = [],
     i2s_last = 0, i2s_init = False\<rparr>"

definition outb :: "u16 \<Rightarrow> u8 \<Rightarrow> machine \<Rightarrow> machine" where
  "outb port byte m = m\<lparr>trace := Out8 port byte # trace m\<rparr>"

definition inb :: "u16 \<Rightarrow> machine \<Rightarrow> u8 \<times> machine" where
  "inb port m = (ucast (dev m (trace m) port), m\<lparr>trace := In8 port # trace m\<rparr>)"

definition outw :: "u16 \<Rightarrow> u16 \<Rightarrow> machine \<Rightarrow> machine" where
  "outw port w m = m\<lparr>trace := Out16 port w # trace m\<rparr>"

definition inw :: "u16 \<Rightarrow> machine \<Rightarrow> u16 \<times> machine" where
  "inw port m = (ucast (dev m (trace m) port), m\<lparr>trace := In16 port # trace m\<rparr>)"

definition outl :: "u16 \<Rightarrow> u32 \<Rightarrow> machine \<Rightarrow> machine" where
  "outl port dword m = m\<lparr>trace := Out32 port dword # trace m\<rparr>"

definition inl :: "u16 \<Rightarrow> machine \<Rightarrow> u32 \<times> machine" where
  "inl port m = (dev m (trace m) port, m\<lparr>trace := In32 port # trace m\<rparr>)"

definition IOWait :: "machine \<Rightarrow> machine" where
  "IOWait m = outb 0x80 0x00 m"

definition HHDM :: u64 where
  "HHDM = 0xFFFF800000000000"

definition PA2VA :: "u64 \<Rightarrow> u64" where
  "PA2VA phys_addr = phys_addr + HHDM"

definition VA2PA :: "u64 \<Rightarrow> u64" where
  "VA2PA virt_addr = virt_addr - HHDM"

definition PA2VAu64 :: "u64 \<Rightarrow> u64" where
  "PA2VAu64 phys_addr = phys_addr + HHDM"

definition VA2PAu64 :: "u64 \<Rightarrow> u64" where
  "VA2PAu64 virt_addr = virt_addr - HHDM"

lemma VA2PA_PA2VA [simp]: "VA2PA (PA2VA p) = p" "PA2VA (VA2PA v) = v"
  by (simp_all add: VA2PA_def PA2VA_def)

lemma VA2PAu64_PA2VAu64 [simp]: "VA2PAu64 (PA2VAu64 p) = p" "PA2VAu64 (VA2PAu64 v) = v"
  by (simp_all add: VA2PAu64_def PA2VAu64_def)

lemmas port_io_defs = outb_def inb_def outw_def inw_def outl_def inl_def IOWait_def

end
