(* ===== verification/Printk.thy ===== *)
theory Printk
  imports Prelude
begin

text \<open>
  Model of \<^verbatim>\<open>src/ASNU/src/printk/printk.c\<close> as the build configures it: integers, characters,
  strings and pointers; \<^verbatim>\<open>PRINTF_SUPPORT_FLOAT\<close> is not defined, so \<^verbatim>\<open>_ftoa\<close> and \<^verbatim>\<open>_etoa\<close>
  are not compiled (theory \<open>Printk_Float\<close> models them). Output goes through a sink, the source's \<^verbatim>\<open>out_fct_type\<close>, here a function
  on a state \<open>'s\<close>: byte memory for \<^verbatim>\<open>snprintf\<close>, the characters given to the terminal for
  \<^verbatim>\<open>printk\<close>.

  A format is the list of its characters before the NUL. Variadic arguments are a list: an
  integer or pointer as its 8-byte slot, a \<^verbatim>\<open>char*\<close> as the characters it points to.
  \<open>None\<close> is undefined behaviour: a directive that reads past the end of the format, or a
  missing argument.
\<close>

section \<open>Sinks\<close>

type_synonym 's out_fct = "char \<Rightarrow> u64 \<Rightarrow> u64 \<Rightarrow> u64 \<Rightarrow> 's \<Rightarrow> 's"

definition NUL :: char where
  "NUL = CHR 0x00"

definition out_buffer :: "mem out_fct" where
  "out_buffer c buffer idx maxlen m = (if idx < maxlen then m(buffer + idx := of_char c) else m)"

definition out_null :: "'s out_fct" where
  "out_null c buffer idx maxlen s = s"

text \<open>\<^verbatim>\<open>flanterm_write(ctx, _s, 1)\<close> appends one character to what the terminal was sent.\<close>

definition out_char :: "string out_fct" where
  "out_char c buffer idx maxlen console = (if c \<noteq> NUL then console @ [c] else console)"

definition out_fct :: "(char \<Rightarrow> 's \<Rightarrow> 's) \<Rightarrow> 's out_fct" where
  "out_fct fct c buffer idx maxlen s = (if c \<noteq> NUL then fct c s else s)"

section \<open>Helpers\<close>

definition FLAGS_ZEROPAD :: u32 where "FLAGS_ZEROPAD = 1"
definition FLAGS_LEFT :: u32 where "FLAGS_LEFT = 2"
definition FLAGS_PLUS :: u32 where "FLAGS_PLUS = 4"
definition FLAGS_SPACE :: u32 where "FLAGS_SPACE = 8"
definition FLAGS_HASH :: u32 where "FLAGS_HASH = 16"
definition FLAGS_UPPERCASE :: u32 where "FLAGS_UPPERCASE = 32"
definition FLAGS_CHAR :: u32 where "FLAGS_CHAR = 64"
definition FLAGS_SHORT :: u32 where "FLAGS_SHORT = 128"
definition FLAGS_LONG :: u32 where "FLAGS_LONG = 256"
definition FLAGS_LONG_LONG :: u32 where "FLAGS_LONG_LONG = 512"
definition FLAGS_PRECISION :: u32 where "FLAGS_PRECISION = 1024"

lemmas FLAGS_defs = FLAGS_ZEROPAD_def FLAGS_LEFT_def FLAGS_PLUS_def FLAGS_SPACE_def FLAGS_HASH_def
  FLAGS_UPPERCASE_def FLAGS_CHAR_def FLAGS_SHORT_def FLAGS_LONG_def FLAGS_LONG_LONG_def
  FLAGS_PRECISION_def

definition has :: "u32 \<Rightarrow> u32 \<Rightarrow> bool" where
  "has flags f \<longleftrightarrow> flags AND f \<noteq> 0"

definition PRINTF_NTOA_BUFFER_SIZE :: nat where
  "PRINTF_NTOA_BUFFER_SIZE = 32"

fun strnlen_s :: "string \<Rightarrow> u64 \<Rightarrow> u32" where
  "strnlen_s [] maxsize = 0"
| "strnlen_s (c # cs) maxsize =
     (if c \<noteq> NUL \<and> maxsize \<noteq> 0 then 1 + strnlen_s cs (maxsize - 1) else 0)"

definition is_digit :: "char \<Rightarrow> bool" where
  "is_digit ch \<longleftrightarrow> 48 \<le> (of_char ch :: nat) \<and> (of_char ch :: nat) \<le> 57"

fun atoi :: "string \<Rightarrow> u32 \<Rightarrow> u32 \<times> string" where
  "atoi [] i = (i, [])"
| "atoi (c # cs) i =
     (if is_digit c then atoi cs (i * 10 + of_nat (of_char c - 48)) else (i, c # cs))"

text \<open>Emitting characters one after the other, each at the next index.\<close>

fun out_chars :: "'s out_fct \<Rightarrow> u64 \<Rightarrow> u64 \<Rightarrow> string \<Rightarrow> u64 \<times> 's \<Rightarrow> u64 \<times> 's" where
  "out_chars out buffer maxlen [] (idx, s) = (idx, s)"
| "out_chars out buffer maxlen (c # cs) (idx, s) =
     out_chars out buffer maxlen cs (idx + 1, out c buffer idx maxlen s)"

text \<open>\<^verbatim>\<open>for (i = ...; i < width; i++) out(' ', buffer, idx++, maxlen)\<close>.\<close>

function out_spaces :: "'s out_fct \<Rightarrow> u64 \<Rightarrow> u64 \<Rightarrow> u64 \<Rightarrow> u64 \<Rightarrow> u64 \<times> 's \<Rightarrow> u64 \<times> 's" where
  "out_spaces out buffer maxlen i width (idx, s) =
     (if i < width
      then out_spaces out buffer maxlen (i + 1) width (idx + 1, out CHR '' '' buffer idx maxlen s)
      else (idx, s))"
  by pat_completeness auto
termination
  by (relation "measure (\<lambda>(out, buffer, maxlen, i, width, _). unat width - unat i)")
    (auto simp: loop_decreases)

text \<open>\<^verbatim>\<open>while (idx - start_idx < width) out(' ', buffer, idx++, maxlen)\<close>.\<close>

function out_left_pad ::
  "'s out_fct \<Rightarrow> u64 \<Rightarrow> u64 \<Rightarrow> u64 \<Rightarrow> u64 \<Rightarrow> u64 \<times> 's \<Rightarrow> u64 \<times> 's" where
  "out_left_pad out buffer maxlen start_idx width (idx, s) =
     (if idx - start_idx < width
      then out_left_pad out buffer maxlen start_idx width (idx + 1, out CHR '' '' buffer idx maxlen s)
      else (idx, s))"
  by pat_completeness auto
termination
  by (relation "measure (\<lambda>(out, buffer, maxlen, start_idx, width, idx, s).
      unat width - unat (idx - start_idx))")
    (auto simp: loop_decreases diff_add_eq [symmetric])

declare out_spaces.simps [simp del] out_left_pad.simps [simp del]

section \<open>Integer conversion\<close>

text \<open>
  \<^verbatim>\<open>buf[0 .. len)\<close> is a list of characters, least significant digit first; \<^verbatim>\<open>len\<close> is its
  length, and \<^verbatim>\<open>len--\<close> drops its last element.
\<close>

definition out_rev :: "'s out_fct \<Rightarrow> u64 \<Rightarrow> u64 \<Rightarrow> u64 \<Rightarrow> string \<Rightarrow> u32 \<Rightarrow> u32 \<Rightarrow> 's \<Rightarrow> u64 \<times> 's" where
  "out_rev out buffer idx maxlen buf width flags s =
     (let start_idx = idx;
          st1 = (if \<not> has flags FLAGS_LEFT \<and> \<not> has flags FLAGS_ZEROPAD
                 then out_spaces out buffer maxlen (of_nat (length buf)) (ucast width) (idx, s)
                 else (idx, s));
          st2 = out_chars out buffer maxlen (rev buf) st1
      in if has flags FLAGS_LEFT
         then out_left_pad out buffer maxlen start_idx (ucast width) st2 else st2)"

text \<open>\<^verbatim>\<open>while ((len < n) && (len < PRINTF_NTOA_BUFFER_SIZE)) buf[len++] = '0'\<close>.\<close>

function zero_fill :: "u32 \<Rightarrow> string \<Rightarrow> string" where
  "zero_fill n buf =
     (if length buf < unat n \<and> length buf < PRINTF_NTOA_BUFFER_SIZE
      then zero_fill n (buf @ ''0'') else buf)"
  by pat_completeness auto
termination
  by (relation "measure (\<lambda>(n, buf). PRINTF_NTOA_BUFFER_SIZE - length buf)") auto

declare zero_fill.simps [simp del]

text \<open>A guarded append: \<^verbatim>\<open>if (len < PRINTF_NTOA_BUFFER_SIZE) buf[len++] = c\<close>.\<close>

definition buf_put :: "string \<Rightarrow> char \<Rightarrow> string" where
  "buf_put buf c = (if length buf < PRINTF_NTOA_BUFFER_SIZE then buf @ [c] else buf)"

definition ntoa_hash :: "u32 \<Rightarrow> u32 \<Rightarrow> u32 \<Rightarrow> u32 \<Rightarrow> string \<Rightarrow> string" where
  "ntoa_hash base prec width flags buf =
     (let buf1 = (if \<not> has flags FLAGS_PRECISION \<and> buf \<noteq> [] \<and>
                     (length buf = unat prec \<or> length buf = unat width)
                  then (let b = butlast buf in if b \<noteq> [] \<and> base = 16 then butlast b else b)
                  else buf);
          buf2 = (if base = 16 \<and> \<not> has flags FLAGS_UPPERCASE \<and> length buf1 < PRINTF_NTOA_BUFFER_SIZE
                  then buf1 @ ''x''
                  else if base = 16 \<and> has flags FLAGS_UPPERCASE \<and> length buf1 < PRINTF_NTOA_BUFFER_SIZE
                  then buf1 @ ''X''
                  else if base = 2 \<and> length buf1 < PRINTF_NTOA_BUFFER_SIZE then buf1 @ ''b''
                  else buf1)
      in buf_put buf2 CHR ''0'')"

text \<open>The parts of \<^verbatim>\<open>_ntoa_format\<close>: the width it works with, and the buffer it hands on.\<close>

definition ntoa_width :: "bool \<Rightarrow> u32 \<Rightarrow> u32 \<Rightarrow> u32" where
  "ntoa_width negative width flags =
     (if \<not> has flags FLAGS_LEFT \<and> width \<noteq> 0 \<and> has flags FLAGS_ZEROPAD \<and>
         (negative \<or> has flags (FLAGS_PLUS OR FLAGS_SPACE))
      then width - 1 else width)"

definition ntoa_buf :: "string \<Rightarrow> bool \<Rightarrow> u32 \<Rightarrow> u32 \<Rightarrow> u32 \<Rightarrow> u32 \<Rightarrow> string" where
  "ntoa_buf buf negative base prec width flags =
     (let buf1 = (if has flags FLAGS_LEFT then buf
                  else let b = zero_fill prec buf
                       in if has flags FLAGS_ZEROPAD then zero_fill width b else b);
          buf2 = (if has flags FLAGS_HASH then ntoa_hash base prec width flags buf1 else buf1)
      in if negative then buf_put buf2 CHR ''-''
         else if has flags FLAGS_PLUS then buf_put buf2 CHR ''+''
         else if has flags FLAGS_SPACE then buf_put buf2 CHR '' ''
         else buf2)"

definition ntoa_format ::
  "'s out_fct \<Rightarrow> u64 \<Rightarrow> u64 \<Rightarrow> u64 \<Rightarrow> string \<Rightarrow> bool \<Rightarrow> u32 \<Rightarrow> u32 \<Rightarrow> u32 \<Rightarrow> u32 \<Rightarrow> 's \<Rightarrow> u64 \<times> 's" where
  "ntoa_format out buffer idx maxlen buf negative base prec width0 flags s =
     (let width = ntoa_width negative width0 flags
      in out_rev out buffer idx maxlen (ntoa_buf buf negative base prec width flags) width flags s)"

definition digit_char :: "u32 \<Rightarrow> u64 \<Rightarrow> char" where
  "digit_char flags digit =
     (if digit < 10 then char_of (48 + unat digit)
      else char_of ((if has flags FLAGS_UPPERCASE then 65 else 97) + unat digit - 10))"

function ntoa_digits :: "u32 \<Rightarrow> u64 \<Rightarrow> u64 \<Rightarrow> string \<Rightarrow> string" where
  "ntoa_digits flags base v buf =
     (let buf1 = buf @ [digit_char flags (v mod base)]; v1 = v div base
      in if v1 \<noteq> 0 \<and> length buf1 < PRINTF_NTOA_BUFFER_SIZE
         then ntoa_digits flags base v1 buf1 else buf1)"
  by pat_completeness auto
termination
  by (relation "measure (\<lambda>(flags, base, v, buf). PRINTF_NTOA_BUFFER_SIZE - length buf)") auto

declare ntoa_digits.simps [simp del]

definition ntoa_long ::
  "'s out_fct \<Rightarrow> u64 \<Rightarrow> u64 \<Rightarrow> u64 \<Rightarrow> u64 \<Rightarrow> bool \<Rightarrow> u64 \<Rightarrow> u32 \<Rightarrow> u32 \<Rightarrow> u32 \<Rightarrow> 's \<Rightarrow> u64 \<times> 's" where
  "ntoa_long out buffer idx maxlen v negative base prec width flags0 s =
     (let flags = (if v = 0 then flags0 AND NOT FLAGS_HASH else flags0);
          buf = (if \<not> has flags FLAGS_PRECISION \<or> v \<noteq> 0 then ntoa_digits flags base v [] else [])
      in ntoa_format out buffer idx maxlen buf negative (ucast base) prec width flags s)"

text \<open>\<^verbatim>\<open>long\<close> and \<^verbatim>\<open>long long\<close> are both 64 bits wide; the source has the function twice.\<close>

definition ntoa_long_long ::
  "'s out_fct \<Rightarrow> u64 \<Rightarrow> u64 \<Rightarrow> u64 \<Rightarrow> u64 \<Rightarrow> bool \<Rightarrow> u64 \<Rightarrow> u32 \<Rightarrow> u32 \<Rightarrow> u32 \<Rightarrow> 's \<Rightarrow> u64 \<times> 's" where
  "ntoa_long_long out buffer idx maxlen v negative base prec width flags0 s =
     (let flags = (if v = 0 then flags0 AND NOT FLAGS_HASH else flags0);
          buf = (if \<not> has flags FLAGS_PRECISION \<or> v \<noteq> 0 then ntoa_digits flags base v [] else [])
      in ntoa_format out buffer idx maxlen buf negative (ucast base) prec width flags s)"

section \<open>Directives\<close>

datatype varg = VInt u64 | VStr string

fun va_int :: "varg list \<Rightarrow> (u64 \<times> varg list) option" where
  "va_int (VInt v # va) = Some (v, va)"
| "va_int va = None"

fun va_str :: "varg list \<Rightarrow> (string \<times> varg list) option" where
  "va_str (VStr p # va) = Some (p, va)"
| "va_str va = None"

text \<open>\<^verbatim>\<open>*format\<close>: the NUL at the end of the list.\<close>

definition peek :: "string \<Rightarrow> char" where
  "peek fmt = (case fmt of [] \<Rightarrow> NUL | c # _ \<Rightarrow> c)"

fun parse_flags :: "string \<Rightarrow> u32 \<Rightarrow> u32 \<times> string" where
  "parse_flags [] flags = (flags, [])"
| "parse_flags (c # cs) flags =
     (if c = CHR ''0'' then parse_flags cs (flags OR FLAGS_ZEROPAD)
      else if c = CHR ''-'' then parse_flags cs (flags OR FLAGS_LEFT)
      else if c = CHR ''+'' then parse_flags cs (flags OR FLAGS_PLUS)
      else if c = CHR '' '' then parse_flags cs (flags OR FLAGS_SPACE)
      else if c = CHR ''#'' then parse_flags cs (flags OR FLAGS_HASH)
      else (flags, c # cs))"

definition parse_width :: "string \<Rightarrow> u32 \<Rightarrow> varg list \<Rightarrow> (u32 \<times> u32 \<times> string \<times> varg list) option" where
  "parse_width fmt flags va =
     (if is_digit (peek fmt) then
        (case atoi fmt 0 of (width, fmt') \<Rightarrow> Some (width, flags, fmt', va))
      else if peek fmt = CHR ''*'' then
        (case va_int va of None \<Rightarrow> None
         | Some (v, va') \<Rightarrow>
             let w = (ucast v :: u32)
             in if sint w < 0 then Some (- w, flags OR FLAGS_LEFT, tl fmt, va')
                else Some (w, flags, tl fmt, va'))
      else Some (0, flags, fmt, va))"

definition parse_precision :: "string \<Rightarrow> u32 \<Rightarrow> varg list \<Rightarrow> (u32 \<times> u32 \<times> string \<times> varg list) option" where
  "parse_precision fmt flags va =
     (if peek fmt = CHR ''.'' then
        (let flags1 = flags OR FLAGS_PRECISION; fmt1 = tl fmt
         in if is_digit (peek fmt1) then
              (case atoi fmt1 0 of (prec, fmt') \<Rightarrow> Some (prec, flags1, fmt', va))
            else if peek fmt1 = CHR ''*'' then
              (case va_int va of None \<Rightarrow> None
               | Some (v, va') \<Rightarrow>
                   let prec = (ucast v :: u32)
                   in Some (if sint prec > 0 then prec else 0, flags1, tl fmt1, va'))
            else Some (0, flags1, fmt1, va))
      else Some (0, flags, fmt, va))"

definition parse_length :: "string \<Rightarrow> u32 \<Rightarrow> u32 \<times> string" where
  "parse_length fmt flags =
     (if peek fmt = CHR ''l'' then
        (if peek (tl fmt) = CHR ''l''
         then (flags OR FLAGS_LONG OR FLAGS_LONG_LONG, tl (tl fmt))
         else (flags OR FLAGS_LONG, tl fmt))
      else if peek fmt = CHR ''h'' then
        (if peek (tl fmt) = CHR ''h''
         then (flags OR FLAGS_SHORT OR FLAGS_CHAR, tl (tl fmt))
         else (flags OR FLAGS_SHORT, tl fmt))
      else if peek fmt = CHR ''t'' \<or> peek fmt = CHR ''j'' \<or> peek fmt = CHR ''z''
      then (flags OR FLAGS_LONG, tl fmt)
      else (flags, fmt))"

section \<open>Specifiers\<close>

text \<open>The base of an integer specifier and the flags it keeps.\<close>

definition int_base :: "char \<Rightarrow> u64" where
  "int_base c =
     (if c = CHR ''x'' \<or> c = CHR ''X'' then 16
      else if c = CHR ''o'' then 8
      else if c = CHR ''b'' then 2
      else 10)"

definition int_flags :: "char \<Rightarrow> u32 \<Rightarrow> u32" where
  "int_flags c flags =
     (let f1 = (if c = CHR ''x'' \<or> c = CHR ''X'' \<or> c = CHR ''o'' \<or> c = CHR ''b''
                then flags else flags AND NOT FLAGS_HASH);
          f2 = (if c = CHR ''X'' then f1 OR FLAGS_UPPERCASE else f1);
          f3 = (if c \<noteq> CHR ''i'' \<and> c \<noteq> CHR ''d''
                then f2 AND NOT (FLAGS_PLUS OR FLAGS_SPACE) else f2)
      in if has f3 FLAGS_PRECISION then f3 AND NOT FLAGS_ZEROPAD else f3)"

text \<open>\<^verbatim>\<open>(unsigned)(value > 0 ? value : 0 - value)\<close> at 64 and at 32 bits.\<close>

definition abs64 :: "u64 \<Rightarrow> u64" where
  "abs64 v = (if sint v > 0 then v else 0 - v)"

definition abs32 :: "u32 \<Rightarrow> u32" where
  "abs32 v = (if sint v > 0 then v else 0 - v)"

definition int_arg :: "u32 \<Rightarrow> u64 \<Rightarrow> u32" where
  "int_arg flags v =
     (if has flags FLAGS_CHAR then scast (ucast v :: u8)
      else if has flags FLAGS_SHORT then scast (ucast v :: u16)
      else ucast v)"

definition uint_arg :: "u32 \<Rightarrow> u64 \<Rightarrow> u32" where
  "uint_arg flags v =
     (if has flags FLAGS_CHAR then ucast (ucast v :: u8)
      else if has flags FLAGS_SHORT then ucast (ucast v :: u16)
      else ucast v)"

definition conv_int ::
  "'s out_fct \<Rightarrow> u64 \<Rightarrow> u64 \<Rightarrow> char \<Rightarrow> u32 \<Rightarrow> u32 \<Rightarrow> u32 \<Rightarrow> u64 \<Rightarrow> u64 \<times> 's \<Rightarrow> u64 \<times> 's" where
  "conv_int out buffer maxlen c flags0 width precision v st =
     (case st of (idx, s) \<Rightarrow>
        let flags = int_flags c flags0; base = int_base c
        in if c = CHR ''i'' \<or> c = CHR ''d'' then
             (if has flags FLAGS_LONG_LONG then
                ntoa_long_long out buffer idx maxlen (abs64 v) (sint v < 0) base precision width flags s
              else if has flags FLAGS_LONG then
                ntoa_long out buffer idx maxlen (abs64 v) (sint v < 0) base precision width flags s
              else (let w = int_arg flags v
                    in ntoa_long out buffer idx maxlen (ucast (abs32 w)) (sint w < 0) base precision
                         width flags s))
           else
             (if has flags FLAGS_LONG_LONG then
                ntoa_long_long out buffer idx maxlen v False base precision width flags s
              else if has flags FLAGS_LONG then
                ntoa_long out buffer idx maxlen v False base precision width flags s
              else ntoa_long out buffer idx maxlen (ucast (uint_arg flags v)) False base precision
                     width flags s))"

definition conv_char ::
  "'s out_fct \<Rightarrow> u64 \<Rightarrow> u64 \<Rightarrow> u32 \<Rightarrow> u32 \<Rightarrow> u64 \<Rightarrow> u64 \<times> 's \<Rightarrow> u64 \<times> 's" where
  "conv_char out buffer maxlen flags width v st =
     (let st1 = (if \<not> has flags FLAGS_LEFT
                 then out_spaces out buffer maxlen 1 (ucast width) st else st);
          st2 = out_chars out buffer maxlen [char_of (unat (ucast v :: u8))] st1
      in if has flags FLAGS_LEFT then out_spaces out buffer maxlen 1 (ucast width) st2 else st2)"

text \<open>\<^verbatim>\<open>while ((*p != 0) && (!(flags & FLAGS_PRECISION) || precision--)) out(*(p++), ...)\<close>.\<close>

fun out_str ::
  "'s out_fct \<Rightarrow> u64 \<Rightarrow> u64 \<Rightarrow> u32 \<Rightarrow> string \<Rightarrow> u32 \<Rightarrow> u64 \<times> 's \<Rightarrow> u64 \<times> 's" where
  "out_str out buffer maxlen flags [] precision st = st"
| "out_str out buffer maxlen flags (c # cs) precision (idx, s) =
     (if c \<noteq> NUL \<and> (\<not> has flags FLAGS_PRECISION \<or> precision \<noteq> 0)
      then out_str out buffer maxlen flags cs
             (if has flags FLAGS_PRECISION then precision - 1 else precision)
             (idx + 1, out c buffer idx maxlen s)
      else (idx, s))"

definition conv_str ::
  "'s out_fct \<Rightarrow> u64 \<Rightarrow> u64 \<Rightarrow> u32 \<Rightarrow> u32 \<Rightarrow> u32 \<Rightarrow> string \<Rightarrow> u64 \<times> 's \<Rightarrow> u64 \<times> 's" where
  "conv_str out buffer maxlen flags width precision p st =
     (let l0 = strnlen_s p (if precision \<noteq> 0 then ucast precision else - 1);
          l = (if has flags FLAGS_PRECISION then (if l0 < precision then l0 else precision) else l0);
          st1 = (if \<not> has flags FLAGS_LEFT
                 then out_spaces out buffer maxlen (ucast l) (ucast width) st else st);
          st2 = out_str out buffer maxlen flags p precision st1
      in if has flags FLAGS_LEFT
         then out_spaces out buffer maxlen (ucast l) (ucast width) st2 else st2)"

definition conv_ptr ::
  "'s out_fct \<Rightarrow> u64 \<Rightarrow> u64 \<Rightarrow> u32 \<Rightarrow> u32 \<Rightarrow> u64 \<Rightarrow> u64 \<times> 's \<Rightarrow> u64 \<times> 's" where
  "conv_ptr out buffer maxlen flags precision v st =
     (case st of (idx, s) \<Rightarrow>
        ntoa_long_long out buffer idx maxlen v False 16 precision 16
          (flags OR FLAGS_ZEROPAD OR FLAGS_UPPERCASE) s)"

definition int_specifier :: "char \<Rightarrow> bool" where
  "int_specifier c \<longleftrightarrow> c \<in> set ''diuxXob''"

text \<open>
  One specifier character, already past flags, width, precision and length: the arguments
  left and the new output state. The NUL at the end of the format also ends up in the
  source's \<^verbatim>\<open>default\<close> branch, whose \<^verbatim>\<open>format++\<close> then steps over it: \<open>None\<close>.
\<close>

definition specifier ::
  "'s out_fct \<Rightarrow> u64 \<Rightarrow> u64 \<Rightarrow> u32 \<Rightarrow> u32 \<Rightarrow> u32 \<Rightarrow> string \<Rightarrow> varg list \<Rightarrow> u64 \<times> 's \<Rightarrow>
     (string \<times> varg list \<times> u64 \<times> 's) option" where
  "specifier out buffer maxlen flags width precision fmt va st =
     (let c = peek fmt
      in if int_specifier c then
           (case va_int va of None \<Rightarrow> None
            | Some (v, va') \<Rightarrow>
                Some (tl fmt, va', conv_int out buffer maxlen c flags width precision v st))
         else if c = CHR ''c'' then
           (case va_int va of None \<Rightarrow> None
            | Some (v, va') \<Rightarrow> Some (tl fmt, va', conv_char out buffer maxlen flags width v st))
         else if c = CHR ''s'' then
           (case va_str va of None \<Rightarrow> None
            | Some (p, va') \<Rightarrow>
                Some (tl fmt, va', conv_str out buffer maxlen flags width precision p st))
         else if c = CHR ''p'' then
           (case va_int va of None \<Rightarrow> None
            | Some (v, va') \<Rightarrow> Some (tl fmt, va', conv_ptr out buffer maxlen flags precision v st))
         else if c = CHR ''%'' then Some (tl fmt, va, out_chars out buffer maxlen ''%'' st)
         else if c = NUL then None
         else Some (tl fmt, va, out_chars out buffer maxlen [c] st))"

definition directive ::
  "'s out_fct \<Rightarrow> u64 \<Rightarrow> u64 \<Rightarrow> string \<Rightarrow> varg list \<Rightarrow> u64 \<times> 's \<Rightarrow>
     (string \<times> varg list \<times> u64 \<times> 's) option" where
  "directive out buffer maxlen fmt va st =
     (case parse_flags fmt 0 of (flags1, fmt1) \<Rightarrow>
      (case parse_width fmt1 flags1 va of None \<Rightarrow> None
      | Some (width, flags2, fmt2, va2) \<Rightarrow>
      (case parse_precision fmt2 flags2 va2 of None \<Rightarrow> None
       | Some (precision, flags3, fmt3, va3) \<Rightarrow>
       (case parse_length fmt3 flags3 of (flags4, fmt4) \<Rightarrow>
          specifier out buffer maxlen flags4 width precision fmt4 va3 st))))"

lemma parse_flags_length: "parse_flags fmt flags = (f, fmt') \<Longrightarrow> length fmt' \<le> length fmt"
  by (induction fmt flags rule: parse_flags.induct) (auto split: if_splits)

lemma atoi_length: "atoi fmt i = (n, fmt') \<Longrightarrow> length fmt' \<le> length fmt"
  by (induction fmt i rule: atoi.induct) (auto split: if_splits)

lemma parse_width_length: "parse_width fmt flags va = Some (w, f, fmt', va') \<Longrightarrow> length fmt' \<le> length fmt"
  by (auto simp: parse_width_def Let_def dest: atoi_length split: if_splits prod.splits option.splits)

lemma parse_precision_length:
  "parse_precision fmt flags va = Some (w, f, fmt', va') \<Longrightarrow> length fmt' \<le> length fmt"
  by (auto simp: parse_precision_def Let_def dest!: atoi_length
      split: if_splits prod.splits option.splits)

lemma parse_length_length: "parse_length fmt flags = (f, fmt') \<Longrightarrow> length fmt' \<le> length fmt"
  by (auto simp: parse_length_def split: if_splits)

lemma peek_not_NUL: "peek fmt \<noteq> NUL \<Longrightarrow> fmt \<noteq> []"
  by (auto simp: peek_def)

lemma specifier_length:
  assumes "specifier out buffer maxlen flags width precision fmt va st = Some (fmt', va', st')"
  shows "length fmt' < length fmt"
proof -
  have "fmt' = tl fmt" "fmt \<noteq> []"
    using assms
    by (auto simp: specifier_def Let_def peek_def int_specifier_def NUL_def
        split: if_splits option.splits list.splits)
  then show ?thesis by (cases fmt) auto
qed

lemma directive_length:
  "directive out buffer maxlen fmt va st = Some (fmt', va', st') \<Longrightarrow> length fmt' < length fmt"
  by (auto simp: directive_def split: prod.splits option.splits
      dest!: parse_flags_length parse_width_length parse_precision_length parse_length_length
        specifier_length)

section \<open>The formatting loop and its callers\<close>

function vsnprintf_loop ::
  "'s out_fct \<Rightarrow> u64 \<Rightarrow> u64 \<Rightarrow> string \<Rightarrow> varg list \<Rightarrow> u64 \<times> 's \<Rightarrow> (u64 \<times> 's) option" where
  "vsnprintf_loop out buffer maxlen [] va st = Some st"
| "vsnprintf_loop out buffer maxlen (c # cs) va st =
     (if c = NUL then Some st
      else if c \<noteq> CHR ''%''
      then vsnprintf_loop out buffer maxlen cs va (out_chars out buffer maxlen [c] st)
      else (case directive out buffer maxlen cs va st of None \<Rightarrow> None
            | Some (fmt', va', st') \<Rightarrow> vsnprintf_loop out buffer maxlen fmt' va' st'))"
  by pat_completeness auto
termination
  by (relation "measure (\<lambda>(out, buffer, maxlen, fmt, va, st). length fmt)")
    (auto dest!: directive_length)

definition vsnprintf ::
  "'s out_fct \<Rightarrow> u64 \<Rightarrow> u64 \<Rightarrow> string \<Rightarrow> varg list \<Rightarrow> 's \<Rightarrow> (u32 \<times> 's) option" where
  "vsnprintf out0 buffer maxlen fmt va s =
     (let out = (if buffer = 0 then out_null else out0)
      in case vsnprintf_loop out buffer maxlen fmt va (0, s) of None \<Rightarrow> None
         | Some (idx, s') \<Rightarrow>
             Some (ucast idx, out NUL buffer (if idx < maxlen then idx else maxlen - 1) maxlen s'))"

text \<open>
  \<open>vsnprintf\<close> is the static \<^verbatim>\<open>_vsnprintf\<close>, \<open>kvsnprintf\<close> the public \<^verbatim>\<open>vsnprintf_\<close>.
  \<^verbatim>\<open>printk\<close> and \<^verbatim>\<open>vprintf\<close> pass a one-byte local as the buffer, which \<^verbatim>\<open>_out_char\<close>
  ignores; all that matters of its address is that it is not null.
\<close>

definition local_buffer :: u64 where
  "local_buffer = 1"

definition printk :: "string \<Rightarrow> varg list \<Rightarrow> string \<Rightarrow> (u32 \<times> string) option" where
  "printk fmt va console = vsnprintf out_char local_buffer (- 1) fmt va console"

definition sprintf :: "u64 \<Rightarrow> string \<Rightarrow> varg list \<Rightarrow> mem \<Rightarrow> (u32 \<times> mem) option" where
  "sprintf buffer fmt va m = vsnprintf out_buffer buffer (- 1) fmt va m"

definition snprintf :: "u64 \<Rightarrow> u64 \<Rightarrow> string \<Rightarrow> varg list \<Rightarrow> mem \<Rightarrow> (u32 \<times> mem) option" where
  "snprintf buffer count fmt va m = vsnprintf out_buffer buffer count fmt va m"

definition vprintf :: "string \<Rightarrow> varg list \<Rightarrow> string \<Rightarrow> (u32 \<times> string) option" where
  "vprintf fmt va console = vsnprintf out_char local_buffer (- 1) fmt va console"

definition kvsnprintf :: "u64 \<Rightarrow> u64 \<Rightarrow> string \<Rightarrow> varg list \<Rightarrow> mem \<Rightarrow> (u32 \<times> mem) option" where
  "kvsnprintf buffer count fmt va m = vsnprintf out_buffer buffer count fmt va m"

definition fctprintf :: "(char \<Rightarrow> 's \<Rightarrow> 's) \<Rightarrow> string \<Rightarrow> varg list \<Rightarrow> 's \<Rightarrow> (u32 \<times> 's) option" where
  "fctprintf fct fmt va s = vsnprintf (out_fct fct) local_buffer (- 1) fmt va s"

end
