(* ===== verification/Printk_Spec.thy ===== *)
theory Printk_Spec
  imports Printk
begin

text \<open>
  What \<^verbatim>\<open>printk.c\<close> promises: the text of a format and its arguments is a function of them
  alone, whatever the sink; each sink receives that text character by character. On top of
  it, the contract of \<^verbatim>\<open>snprintf\<close> (bounds, truncation, termination, return value), the
  console output of \<^verbatim>\<open>printk\<close>, and the digits of integers.
\<close>

section \<open>The text of a format\<close>

definition justify :: "u32 \<Rightarrow> u32 \<Rightarrow> string \<Rightarrow> string" where
  "justify flags width t =
     (if has flags FLAGS_LEFT then t @ replicate (unat width - length t) CHR '' ''
      else if has flags FLAGS_ZEROPAD then t
      else replicate (unat width - length t) CHR '' '' @ t)"

definition ntoa_text :: "u64 \<Rightarrow> bool \<Rightarrow> u64 \<Rightarrow> u32 \<Rightarrow> u32 \<Rightarrow> u32 \<Rightarrow> string" where
  "ntoa_text v negative base prec width0 flags0 =
     (let flags = (if v = 0 then flags0 AND NOT FLAGS_HASH else flags0);
          buf = (if \<not> has flags FLAGS_PRECISION \<or> v \<noteq> 0 then ntoa_digits flags base v [] else []);
          width = ntoa_width negative width0 flags
      in justify flags width (rev (ntoa_buf buf negative (ucast base) prec width flags)))"

definition int_text :: "char \<Rightarrow> u32 \<Rightarrow> u32 \<Rightarrow> u32 \<Rightarrow> u64 \<Rightarrow> string" where
  "int_text c flags0 width precision v =
     (let flags = int_flags c flags0; base = int_base c
      in if c = CHR ''i'' \<or> c = CHR ''d'' then
           (if has flags FLAGS_LONG_LONG \<or> has flags FLAGS_LONG
            then ntoa_text (abs64 v) (sint v < 0) base precision width flags
            else let w = int_arg flags v
                 in ntoa_text (ucast (abs32 w)) (sint w < 0) base precision width flags)
         else
           (if has flags FLAGS_LONG_LONG \<or> has flags FLAGS_LONG
            then ntoa_text v False base precision width flags
            else ntoa_text (ucast (uint_arg flags v)) False base precision width flags))"

text \<open>Padding to a width for characters and strings ignores the \<open>0\<close> flag.\<close>

definition pad_text :: "u32 \<Rightarrow> u32 \<Rightarrow> nat \<Rightarrow> string \<Rightarrow> string" where
  "pad_text flags width l t =
     (let sp = replicate (unat width - l) CHR '' ''
      in if has flags FLAGS_LEFT then t @ sp else sp @ t)"

fun str_text :: "u32 \<Rightarrow> string \<Rightarrow> u32 \<Rightarrow> string" where
  "str_text flags [] precision = []"
| "str_text flags (c # cs) precision =
     (if c \<noteq> NUL \<and> (\<not> has flags FLAGS_PRECISION \<or> precision \<noteq> 0)
      then c # str_text flags cs (if has flags FLAGS_PRECISION then precision - 1 else precision)
      else [])"

definition str_len :: "u32 \<Rightarrow> u32 \<Rightarrow> string \<Rightarrow> u32" where
  "str_len flags precision p =
     (let l0 = strnlen_s p (if precision \<noteq> 0 then ucast precision else - 1)
      in if has flags FLAGS_PRECISION then (if l0 < precision then l0 else precision) else l0)"

definition specifier_text ::
  "u32 \<Rightarrow> u32 \<Rightarrow> u32 \<Rightarrow> string \<Rightarrow> varg list \<Rightarrow> (string \<times> varg list \<times> string) option" where
  "specifier_text flags width precision fmt va =
     (let c = peek fmt
      in if int_specifier c then
           map_option (\<lambda>(v, va'). (tl fmt, va', int_text c flags width precision v)) (va_int va)
         else if c = CHR ''c'' then
           map_option (\<lambda>(v, va'). (tl fmt, va',
             pad_text flags width 1 [char_of (unat (ucast v :: u8))])) (va_int va)
         else if c = CHR ''s'' then
           map_option (\<lambda>(p, va'). (tl fmt, va',
             pad_text flags width (unat (str_len flags precision p)) (str_text flags p precision)))
             (va_str va)
         else if c = CHR ''p'' then
           map_option (\<lambda>(v, va'). (tl fmt, va',
             ntoa_text v False 16 precision 16 (flags OR FLAGS_ZEROPAD OR FLAGS_UPPERCASE))) (va_int va)
         else if c = CHR ''%'' then Some (tl fmt, va, ''%'')
         else if c = NUL then None
         else Some (tl fmt, va, [c]))"

definition directive_text :: "string \<Rightarrow> varg list \<Rightarrow> (string \<times> varg list \<times> string) option" where
  "directive_text fmt va =
     (case parse_flags fmt 0 of (flags1, fmt1) \<Rightarrow>
      (case parse_width fmt1 flags1 va of None \<Rightarrow> None
      | Some (width, flags2, fmt2, va2) \<Rightarrow>
      (case parse_precision fmt2 flags2 va2 of None \<Rightarrow> None
       | Some (precision, flags3, fmt3, va3) \<Rightarrow>
       (case parse_length fmt3 flags3 of (flags4, fmt4) \<Rightarrow>
          specifier_text flags4 width precision fmt4 va3))))"

section \<open>Every sink receives that text\<close>

lemma out_chars_append:
  "out_chars out buffer maxlen (xs @ ys) st =
    out_chars out buffer maxlen ys (out_chars out buffer maxlen xs st)"
  by (induction out buffer maxlen xs st rule: out_chars.induct) auto

lemma out_chars_idx:
  "fst (out_chars out buffer maxlen xs st) = fst st + of_nat (length xs)"
  by (induction out buffer maxlen xs st rule: out_chars.induct) auto

lemma out_spaces_chars:
  "out_spaces out buffer maxlen i width st =
    out_chars out buffer maxlen (replicate (unat width - unat i) CHR '' '') st"
proof (induction out buffer maxlen i width st rule: out_spaces.induct)
  case (1 out buffer maxlen i width idx s)
  show ?case
  proof (cases "i < width")
    case True
    then have "unat width - unat i = Suc (unat width - unat (i + 1))"
      using unat_less_of_less [OF True] by (simp add: unat_succ)
    with True 1 show ?thesis by (subst out_spaces.simps) simp
  next
    case False
    then show ?thesis by (subst out_spaces.simps) (simp add: word_less_nat_alt)
  qed
qed

lemma out_left_pad_chars:
  "out_left_pad out buffer maxlen start_idx width st =
    out_chars out buffer maxlen (replicate (unat width - unat (fst st - start_idx)) CHR '' '') st"
proof (induction out buffer maxlen start_idx width st rule: out_left_pad.induct)
  case (1 out buffer maxlen start_idx width idx s)
  have step: "idx + 1 - start_idx = idx - start_idx + 1" by simp
  show ?case
  proof (cases "idx - start_idx < width")
    case True
    then have "unat width - unat (idx - start_idx) = Suc (unat width - unat (idx + 1 - start_idx))"
      using unat_less_of_less [OF True] unat_succ [OF True] by (simp add: step)
    with True 1 show ?thesis by (subst out_left_pad.simps) simp
  next
    case False
    then show ?thesis by (subst out_left_pad.simps) (simp add: word_less_nat_alt)
  qed
qed

lemma out_rev_text:
  assumes "length buf < 2 ^ 64"
  shows "out_rev out buffer idx maxlen buf width flags s =
    out_chars out buffer maxlen (justify flags width (rev buf)) (idx, s)"
  using assms
  by (auto simp: out_rev_def justify_def Let_def out_spaces_chars out_left_pad_chars out_chars_append
      out_chars_idx unat_of_nat_u64)

text \<open>The conversion buffer never holds more than 32 characters.\<close>

lemma length_zero_fill: "length (zero_fill n buf) = max (length buf) (min (unat n) 32)"
proof (induction n buf rule: zero_fill.induct)
  case (1 n buf)
  then show ?case by (subst zero_fill.simps) (auto simp: PRINTF_NTOA_BUFFER_SIZE_def)
qed

lemma length_buf_put: "length buf \<le> 32 \<Longrightarrow> length (buf_put buf c) \<le> 32"
  by (simp add: buf_put_def PRINTF_NTOA_BUFFER_SIZE_def)

lemma length_ntoa_hash: "length buf \<le> 32 \<Longrightarrow> length (ntoa_hash base prec width flags buf) \<le> 32"
  unfolding ntoa_hash_def Let_def
  by (rule length_buf_put) (auto simp: PRINTF_NTOA_BUFFER_SIZE_def)

lemma length_ntoa_digits:
  "length buf < 32 \<Longrightarrow> length (ntoa_digits flags base v buf) \<le> 32"
proof (induction flags base v buf rule: ntoa_digits.induct)
  case (1 flags base v buf)
  then show ?case by (subst ntoa_digits.simps) (auto simp: Let_def PRINTF_NTOA_BUFFER_SIZE_def)
qed

lemma length_ntoa_buf: "length buf \<le> 32 \<Longrightarrow> length (ntoa_buf buf negative base prec width flags) \<le> 32"
  by (auto simp: ntoa_buf_def Let_def length_zero_fill intro!: length_buf_put length_ntoa_hash)

lemma ntoa_long_text:
  "ntoa_long out buffer idx maxlen v negative base prec width flags s =
    out_chars out buffer maxlen (ntoa_text v negative base prec width flags) (idx, s)"
proof -
  have "length (ntoa_buf (if p then ntoa_digits f base v [] else []) negative b prec w f) < 2 ^ 64"
    for p f b w
  proof -
    have "length (if p then ntoa_digits f base v [] else []) \<le> 32"
      using length_ntoa_digits [of "[]" f base v] by simp
    from length_ntoa_buf [OF this, of negative b prec w f] show ?thesis
      by (rule order_le_less_trans) simp
  qed
  then show ?thesis
    by (simp add: ntoa_long_def ntoa_text_def ntoa_format_def Let_def out_rev_text)
qed

lemma ntoa_long_long_eq: "ntoa_long_long = ntoa_long"
  by (intro ext) (simp add: ntoa_long_long_def ntoa_long_def)

lemma conv_int_text:
  "conv_int out buffer maxlen c flags width precision v st =
    out_chars out buffer maxlen (int_text c flags width precision v) st"
  by (cases st) (auto simp: conv_int_def int_text_def Let_def ntoa_long_long_eq ntoa_long_text)

lemma conv_char_text:
  "conv_char out buffer maxlen flags width v st =
    out_chars out buffer maxlen (pad_text flags width 1 [char_of (unat (ucast v :: u8))]) st"
  by (simp add: conv_char_def pad_text_def Let_def out_spaces_chars out_chars_append
      flip: out_chars_append)

lemma out_str_text:
  "out_str out buffer maxlen flags p precision st =
    out_chars out buffer maxlen (str_text flags p precision) st"
  by (induction out buffer maxlen flags p precision st rule: out_str.induct) auto

lemma conv_str_text:
  "conv_str out buffer maxlen flags width precision p st =
    out_chars out buffer maxlen
      (pad_text flags width (unat (str_len flags precision p)) (str_text flags p precision)) st"
  by (simp add: conv_str_def pad_text_def str_len_def Let_def out_spaces_chars out_chars_append
      out_str_text)

lemma conv_ptr_text:
  "conv_ptr out buffer maxlen flags precision v st =
    out_chars out buffer maxlen
      (ntoa_text v False 16 precision 16 (flags OR FLAGS_ZEROPAD OR FLAGS_UPPERCASE)) st"
  by (cases st) (simp add: conv_ptr_def ntoa_long_long_eq ntoa_long_text)

lemmas conv_texts = conv_int_text conv_char_text conv_str_text conv_ptr_text

definition emit ::
  "'s out_fct \<Rightarrow> u64 \<Rightarrow> u64 \<Rightarrow> u64 \<times> 's \<Rightarrow> string \<times> varg list \<times> string \<Rightarrow>
     string \<times> varg list \<times> u64 \<times> 's" where
  "emit out buffer maxlen st r =
     (case r of (fmt, va, t) \<Rightarrow> (fmt, va, out_chars out buffer maxlen t st))"

lemma specifier_text:
  "specifier out buffer maxlen flags width precision fmt va st =
    map_option (emit out buffer maxlen st) (specifier_text flags width precision fmt va)"
  by (simp add: specifier_def specifier_text_def Let_def conv_texts emit_def
      split: option.split prod.split)

lemma directive_text:
  "directive out buffer maxlen fmt va st =
    map_option (emit out buffer maxlen st) (directive_text fmt va)"
  by (simp add: directive_def directive_text_def specifier_text split: option.split prod.split)

lemma directive_text_length:
  "directive_text fmt va = Some (fmt', va', t) \<Longrightarrow> length fmt' < length fmt"
  using directive_length [of out_null 0 0 fmt va "(0, ())"]
  by (auto simp: directive_text emit_def)

function format_text :: "string \<Rightarrow> varg list \<Rightarrow> string option" where
  "format_text [] va = Some []"
| "format_text (c # cs) va =
     (if c = NUL then Some []
      else if c \<noteq> CHR ''%'' then map_option ((#) c) (format_text cs va)
      else (case directive_text cs va of None \<Rightarrow> None
            | Some (fmt', va', t) \<Rightarrow> map_option ((@) t) (format_text fmt' va')))"
  by pat_completeness auto
termination
  by (relation "measure (\<lambda>(fmt, va). length fmt)") (auto dest!: directive_text_length)

lemma vsnprintf_loop_text:
  "vsnprintf_loop out buffer maxlen fmt va st =
    map_option (\<lambda>t. out_chars out buffer maxlen t st) (format_text fmt va)"
proof (induction out buffer maxlen fmt va st rule: vsnprintf_loop.induct)
  case (1 out buffer maxlen va st)
  then show ?case by (cases st) simp
next
  case (2 out buffer maxlen c cs va st)
  consider "c = NUL" | "c \<noteq> NUL" "c \<noteq> CHR ''%''" | "c = CHR ''%''" "c \<noteq> NUL"
    by blast
  then show ?case
  proof cases
    case 1
    then show ?thesis by (cases st) simp
  next
    case 2
    with "2.IH"(1) show ?thesis by (cases st) (simp add: option.map_comp comp_def)
  next
    case 3
    show ?thesis
    proof (cases "directive_text cs va")
      case None
      with 3 show ?thesis by (simp add: directive_text)
    next
      case (Some r)
      obtain fmt' va' t where r: "r = (fmt', va', t)" by (cases r)
      with Some have "directive out buffer maxlen cs va st =
          Some (fmt', va', out_chars out buffer maxlen t st)"
        by (simp add: directive_text emit_def)
      with 3 "2.IH"(2) [of "(fmt', va', out_chars out buffer maxlen t st)"] Some r show ?thesis
        by (simp add: option.map_comp comp_def out_chars_append)
    qed
  qed
qed

section \<open>Console sinks\<close>

text \<open>
  A sink that shows what it has been sent: every character but NUL is added at the end. The
  terminal is one, and any \<^verbatim>\<open>fctprintf\<close> callback that appends is another.
\<close>

locale console_sink =
  fixes out :: "'s out_fct"
    and shown :: "'s \<Rightarrow> string"
  assumes shows_char: "c \<noteq> NUL \<Longrightarrow> shown (out c buffer idx maxlen s) = shown s @ [c]"
    and skips_NUL: "shown (out NUL buffer idx maxlen s) = shown s"
begin

lemma shown_chars:
  "shown (snd (out_chars out buffer maxlen t st)) = shown (snd st) @ filter (\<lambda>c. c \<noteq> NUL) t"
proof (induction t arbitrary: st)
  case Nil
  then show ?case by (cases st) simp
next
  case (Cons c t)
  then show ?case by (cases st; cases "c = NUL") (simp_all add: shows_char skips_NUL)
qed

lemma shown_vsnprintf:
  assumes "buffer \<noteq> 0" and "vsnprintf out buffer maxlen fmt va s = Some (n, s')"
  obtains t where "format_text fmt va = Some t" and "n = of_nat (length t)"
    and "shown s' = shown s @ filter (\<lambda>c. c \<noteq> NUL) t"
proof -
  obtain t where t: "format_text fmt va = Some t"
    using assms by (auto simp: vsnprintf_def vsnprintf_loop_text split: option.splits)
  obtain idx s1 where st: "out_chars out buffer maxlen t (0, s) = (idx, s1)" by fastforce
  have "idx = of_nat (length t)" using out_chars_idx [of out buffer maxlen t "(0, s)"] st by simp
  moreover have "shown s1 = shown s @ filter (\<lambda>c. c \<noteq> NUL) t"
    using shown_chars [of buffer maxlen t "(0, s)"] st by simp
  ultimately show ?thesis
    using assms t st that [OF t] by (auto simp: vsnprintf_def vsnprintf_loop_text skips_NUL)
qed

end

interpretation terminal: console_sink out_char "\<lambda>console. console"
  by unfold_locales (simp_all add: out_char_def)

interpretation callback: console_sink "out_fct (\<lambda>c s. s @ [c])" "\<lambda>s. s"
  by unfold_locales (simp_all add: out_fct_def)

lemma printk_text:
  "printk fmt va console =
    map_option (\<lambda>t. (of_nat (length t), console @ filter (\<lambda>c. c \<noteq> NUL) t)) (format_text fmt va)"
proof (cases "format_text fmt va")
  case None
  then show ?thesis by (simp add: printk_def vsnprintf_def vsnprintf_loop_text local_buffer_def)
next
  case (Some t)
  then obtain n s' where r: "printk fmt va console = Some (n, s')"
    by (cases "out_chars out_char local_buffer (- 1) t (0, console)")
      (auto simp: printk_def vsnprintf_def vsnprintf_loop_text local_buffer_def)
  have "local_buffer \<noteq> 0" by (simp add: local_buffer_def)
  from terminal.shown_vsnprintf [OF this r [unfolded printk_def]] Some r show ?thesis by fastforce
qed

section \<open>The memory sink\<close>

lemma out_buffer_chars:
  "i + length t < 2 ^ 64 \<Longrightarrow>
    snd (out_chars out_buffer buffer maxlen t (of_nat i, m)) =
    (\<lambda>a. if i \<le> unat (a - buffer) \<and> unat (a - buffer) < i + length t \<and> unat (a - buffer) < unat maxlen
         then of_char (t ! (unat (a - buffer) - i)) else m a)"
proof (induction t arbitrary: i m)
  case Nil
  then show ?case by (auto simp: fun_eq_iff)
next
  case (Cons c t)
  have i: "unat (of_nat i :: u64) = i" using Cons.prems by (intro unat_of_nat_u64) simp
  have at: "a = buffer + of_nat i \<longleftrightarrow> unat (a - buffer) = i" for a :: u64
    using i by (metis add_diff_cancel_left' diff_add_cancel word_unat_eq_iff)
  have "snd (out_chars out_buffer buffer maxlen (c # t) (of_nat i, m)) =
      snd (out_chars out_buffer buffer maxlen t
        (of_nat (Suc i), out_buffer c buffer (of_nat i) maxlen m))"
    by (simp add: add.commute)
  also have "\<dots> = (\<lambda>a. if Suc i \<le> unat (a - buffer) \<and> unat (a - buffer) < Suc i + length t \<and>
        unat (a - buffer) < unat maxlen
      then of_char (t ! (unat (a - buffer) - Suc i)) else out_buffer c buffer (of_nat i) maxlen m a)"
    using Cons.prems by (intro Cons.IH) simp
  finally have run: "snd (out_chars out_buffer buffer maxlen (c # t) (of_nat i, m)) = \<dots>" .
  have put: "out_buffer c buffer (of_nat i) maxlen m a =
      (if unat (a - buffer) = i \<and> i < unat maxlen then of_char c else m a)" for a
    using i by (simp add: out_buffer_def at word_less_nat_alt)
  show ?case unfolding run put by (auto simp: fun_eq_iff nth_Cons')
qed

lemma snprintf_text:
  assumes "buffer \<noteq> 0" and "format_text fmt va = Some t" and "length t < 2 ^ 64" and "0 < count"
  defines "k \<equiv> min (length t) (unat count - 1)"
  shows "snprintf buffer count fmt va m = Some (of_nat (length t),
    (\<lambda>a. if unat (a - buffer) < k then of_char (t ! unat (a - buffer))
         else if unat (a - buffer) = k then 0 else m a))"
proof -
  obtain idx m1 where o: "out_chars out_buffer buffer count t (0, m) = (idx, m1)" by fastforce
  have idx: "idx = of_nat (length t)" using out_chars_idx [of out_buffer buffer count t "(0, m)"] o by simp
  have m1: "m1 = (\<lambda>a. if unat (a - buffer) < length t \<and> unat (a - buffer) < unat count
      then of_char (t ! unat (a - buffer)) else m a)"
    using out_buffer_chars [of 0 t buffer count m] assms(3) o by (simp add: fun_eq_iff)
  let ?e = "if idx < count then idx else count - 1"
  have c: "0 < unat count" using assms(4) by (simp add: word_less_nat_alt)
  have cm: "unat (count - 1) = unat count - 1" using assms(4) by (intro unat_minus_one) auto
  have e: "unat ?e = k" "?e < count"
    using assms(3) c cm by (auto simp: idx k_def word_less_nat_alt unat_of_nat_u64 unat_minus_one)
  have "snprintf buffer count fmt va m = Some (of_nat (length t), out_buffer NUL buffer ?e count m1)"
    using assms(1,2) o idx by (simp add: snprintf_def vsnprintf_def vsnprintf_loop_text)
  moreover have "out_buffer NUL buffer ?e count m1 = (\<lambda>a. if unat (a - buffer) = k then 0 else m1 a)"
  proof (rule ext)
    fix a
    have "a = buffer + ?e \<longleftrightarrow> unat (a - buffer) = k"
      using e(1) by (metis add_diff_cancel_left' diff_add_cancel word_unat_eq_iff)
    with e(2) show "out_buffer NUL buffer ?e count m1 a = (if unat (a - buffer) = k then 0 else m1 a)"
      by (simp add: out_buffer_def NUL_def split del: if_split)
  qed
  moreover have "unat x < length t \<and> unat x < unat count \<longleftrightarrow> unat x < k \<or> unat x = k \<and> unat x < length t \<and> unat x < unat count"
    for x :: u64
    using c by (auto simp: k_def)
  ultimately show ?thesis by (auto simp: m1 fun_eq_iff)
qed

section \<open>Digits\<close>

text \<open>Positional notation, most significant digit first.\<close>

fun nat_text :: "(nat \<Rightarrow> char) \<Rightarrow> nat \<Rightarrow> nat \<Rightarrow> string" where
  "nat_text d base n =
     (if n < base \<or> base < 2 then [d n] else nat_text d base (n div base) @ [d (n mod base)])"

declare nat_text.simps [simp del]

definition digit :: "u32 \<Rightarrow> nat \<Rightarrow> char" where
  "digit flags n = digit_char flags (of_nat n)"

lemma digit_char_unat: "digit_char flags v = digit flags (unat v)"
  by (simp add: digit_def)

lemma ntoa_digits_nat_text:
  assumes "1 < unat base" and "length buf < 32" and "unat v < unat base ^ (32 - length buf)"
  shows "ntoa_digits flags base v buf = buf @ rev (nat_text (digit flags) (unat base) (unat v))"
  using assms
proof (induction flags base v buf rule: ntoa_digits.induct)
  case (1 flags base v buf)
  let ?d = "digit flags" and ?b = "unat base"
  have v1: "unat (v div base) = unat v div ?b" "unat (v mod base) = unat v mod ?b"
    by (simp_all add: unat_div unat_mod)
  have nz: "v div base \<noteq> 0 \<longleftrightarrow> ?b \<le> unat v"
  proof -
    have "v div base = 0 \<longleftrightarrow> unat v div ?b = 0" by (simp only: v1(1) [symmetric] unat_eq_zero)
    then show ?thesis using 1(2) by (auto simp: div_eq_0_iff not_less)
  qed
  show ?case
  proof (cases "?b \<le> unat v")
    case False
    with 1(2) nz show ?thesis
      by (subst ntoa_digits.simps, subst nat_text.simps) (simp add: Let_def digit_char_unat v1)
  next
    case True
    have "length buf + 1 < 32"
    proof (rule ccontr)
      assume "\<not> ?thesis"
      with 1(3) have "32 - length buf = 1" by simp
      with 1(4) True show False by simp
    qed
    moreover from this have "32 - length buf = Suc (32 - (length buf + 1))" by simp
    with 1(4) have "unat v < ?b * ?b ^ (32 - (length buf + 1))" by (simp only: power_Suc)
    then have "unat (v div base) < ?b ^ (32 - length (buf @ [digit_char flags (v mod base)]))"
      by (simp add: v1 less_mult_imp_div_less mult.commute)
    ultimately have "ntoa_digits flags base (v div base) (buf @ [digit_char flags (v mod base)]) =
        (buf @ [digit_char flags (v mod base)]) @ rev (nat_text ?d ?b (unat v div ?b))"
      using 1(1) [OF refl refl] True nz 1(2) by (simp add: v1 PRINTF_NTOA_BUFFER_SIZE_def)
    with True nz 1(2) \<open>length buf + 1 < 32\<close> show ?thesis
      by (subst ntoa_digits.simps, subst nat_text.simps)
        (simp add: Let_def digit_char_unat v1 PRINTF_NTOA_BUFFER_SIZE_def)
  qed
qed

lemma length_nat_text: "0 < k \<Longrightarrow> n < base ^ k \<Longrightarrow> length (nat_text d base n) \<le> k"
proof (induction d base n arbitrary: k rule: nat_text.induct)
  case (1 d base n)
  show ?case
  proof (cases "n < base \<or> base < 2")
    case True
    with "1.prems" show ?thesis by (subst nat_text.simps) simp
  next
    case False
    obtain j where j: "k = Suc j" using "1.prems"(1) by (cases k) auto
    have "j \<noteq> 0" using False "1.prems"(2) j by (intro notI) simp
    with j have k: "k = Suc j" "0 < j" by simp_all
    with "1.prems"(2) have "n div base < base ^ j"
      by (simp add: less_mult_imp_div_less mult.commute)
    with "1.IH" [OF False k(2)] False k show ?thesis by (subst nat_text.simps) simp
  qed
qed

lemma has_0 [simp]: "\<not> has 0 f"
  by (simp add: has_def)

lemma zero_fill_0 [simp]: "zero_fill 0 buf = buf"
  by (subst zero_fill.simps) simp

text \<open>Without flags, width and precision an integer is its digits after an optional sign.\<close>

lemma ntoa_text_plain:
  assumes "1 < unat base" and "unat v < unat base ^ 31"
  shows "ntoa_text v negative base 0 0 0 =
    (if negative then ''-'' else []) @ nat_text (digit 0) (unat base) (unat v)"
proof -
  have "unat base ^ 31 < unat base ^ 32" using assms(1) by simp
  with assms(2) have "unat v < unat base ^ 32" by (rule less_trans)
  then have "ntoa_digits 0 base v [] = rev (nat_text (digit 0) (unat base) (unat v))"
    using assms(1) ntoa_digits_nat_text [of base "[]" v 0] by simp
  moreover have "length (nat_text (digit 0) (unat base) (unat v)) \<le> 31"
    by (rule length_nat_text) (use assms in simp_all)
  moreover have "(if v = 0 then 0 AND NOT FLAGS_HASH else 0) = 0" by simp
  ultimately show ?thesis
    unfolding ntoa_text_def
    by (simp only: Let_def) (simp add: ntoa_width_def ntoa_buf_def justify_def buf_put_def
        PRINTF_NTOA_BUFFER_SIZE_def)
qed

text \<open>The printed number read back: the source's own \<^verbatim>\<open>_atoi\<close> inverts decimal printing.\<close>

lemma digit_less_10: "k < 10 \<Longrightarrow> of_char (digit flags k) = 48 + k \<and> is_digit (digit flags k)"
proof -
  assume k: "k < 10"
  then have "unat (of_nat k :: u64) = k" by (intro unat_of_nat_u64) simp
  with k have "digit flags k = char_of (48 + k)"
    by (simp add: digit_def digit_char_def word_less_nat_alt)
  with k show ?thesis by (simp add: is_digit_def take_bit_nat_eq_self)
qed

lemma atoi_nat_text:
  "atoi (nat_text (digit flags) 10 n @ rest) i =
    atoi rest (i * 10 ^ length (nat_text (digit flags) 10 n) + of_nat n)"
proof (induction n arbitrary: rest rule: less_induct)
  case (less n)
  show ?case
  proof (cases "n < 10")
    case True
    with digit_less_10 [OF True, of flags] show ?thesis
      by (subst (1 2) nat_text.simps) simp
  next
    case False
    have d: "of_char (digit flags (n mod 10)) - 48 = n mod 10" "is_digit (digit flags (n mod 10))"
      using digit_less_10 [of "n mod 10" flags] by simp_all
    have split: "nat_text (digit flags) 10 n =
        nat_text (digit flags) 10 (n div 10) @ [digit flags (n mod 10)]"
      using False by (subst nat_text.simps) simp
    have "(of_nat n :: u32) = of_nat (n div 10 * 10 + n mod 10)" by (simp only: div_mult_mod_eq)
    then have "(of_nat n :: u32) = of_nat (n div 10) * 10 + of_nat (n mod 10)"
      by (simp only: of_nat_add of_nat_mult of_nat_numeral)
    moreover have "n div 10 < n" using False by simp
    ultimately show ?thesis
      using less.IH [of "n div 10" "[digit flags (n mod 10)] @ rest"] d
      by (simp add: split algebra_simps)
  qed
qed

text \<open>\<^verbatim>\<open>abs32\<close> is the absolute value, at \<^verbatim>\<open>INT_MIN\<close> too.\<close>

lemma sint_u32: "sint (v :: u32) = (if uint v < 2 ^ 31 then uint v else uint v - 2 ^ 32)"
proof -
  have b: "0 \<le> uint v" "uint v < 2 ^ 32" using unsigned_less [of v, where 'a = int] by simp_all
  have "sint v = take_bit 32 (uint v + 2 ^ 31) - 2 ^ 31"
    by (simp add: sint_uint signed_take_bit_eq_take_bit_shift)
  moreover have "take_bit 32 (uint v + 2 ^ 31) =
      (if uint v < 2 ^ 31 then uint v + 2 ^ 31 else uint v - 2 ^ 31)"
  proof (cases "uint v < 2 ^ 31")
    case True
    with b show ?thesis by (simp add: take_bit_eq_mod)
  next
    case False
    have "(uint v + 2 ^ 31) mod 2 ^ 32 = ((uint v - 2 ^ 31) + 2 ^ 32) mod 2 ^ 32"
      by (rule arg_cong [where f = "\<lambda>x. x mod 2 ^ 32"]) simp
    also have "\<dots> = (uint v - 2 ^ 31) mod 2 ^ 32" by (rule mod_add_self2)
    also have "\<dots> = uint v - 2 ^ 31" using False b by simp
    finally show ?thesis using False by (simp add: take_bit_eq_mod)
  qed
  ultimately show ?thesis by simp
qed

lemma unat_abs32: "unat (abs32 v) = nat \<bar>sint v\<bar>"
proof -
  have b: "0 \<le> uint v" "uint v < 2 ^ 32" using unsigned_less [of v, where 'a = int] by simp_all
  have "uint (- v) = (- uint v) mod 2 ^ 32" by (simp add: uint_word_ariths)
  moreover have "(- uint v) mod 2 ^ 32 = (if uint v = 0 then 0 else 2 ^ 32 - uint v)"
    using b by (auto simp: zmod_zminus1_eq_if)
  ultimately show ?thesis
    using b by (auto simp: abs32_def sint_u32 nat_eq_iff simp flip: nat_uint_eq)
qed

lemma format_text_append_literal:
  "NUL \<notin> set xs \<Longrightarrow> CHR ''%'' \<notin> set xs \<Longrightarrow>
    format_text (xs @ fmt) va = map_option ((@) xs) (format_text fmt va)"
  by (induction xs) (cases "format_text fmt va"; auto)+

lemma format_text_int:
  assumes "c = CHR ''d'' \<or> c = CHR ''u'' \<or> c = CHR ''x''"
  shows "format_text [CHR ''%'', c] (VInt v # va) = Some (int_text c 0 0 0 v)"
  using assms
  by (auto simp: directive_text_def specifier_text_def parse_width_def parse_precision_def
      parse_length_def peek_def is_digit_def int_specifier_def NUL_def)

lemma int_text_d:
  "int_text CHR ''d'' 0 0 0 v =
    (let w = sint (ucast v :: u32)
     in (if w < 0 then ''-'' else []) @ nat_text (digit 0) 10 (nat \<bar>w\<bar>))"
proof -
  have "unat (abs32 w) < 10 ^ 31" for w :: u32
    using unsigned_less [of "abs32 w", where 'a = nat] by simp
  then show ?thesis
    by (simp add: int_text_def int_flags_def int_base_def int_arg_def Let_def ntoa_text_plain unat_abs32)
qed

lemma int_text_u:
  assumes "c = CHR ''u'' \<and> base = 10 \<or> c = CHR ''x'' \<and> base = 16"
  shows "int_text c 0 0 0 v = nat_text (digit 0) base (unat (ucast v :: u32))"
proof -
  have "unat (ucast v :: u32) < 10 ^ 31" "unat (ucast v :: u32) < 16 ^ 31"
    using unsigned_less [of "ucast v :: u32", where 'a = nat] by simp_all
  with assms show ?thesis
    by (auto simp: int_text_def int_flags_def int_base_def uint_arg_def Let_def ntoa_text_plain)
qed

lemma out_buffer_region:
  "a \<notin> region buffer (unat maxlen) \<Longrightarrow> out_buffer c buffer idx maxlen m a = m a"
  by (auto simp: out_buffer_def region_def word_less_nat_alt)

lemma out_buffer_chars_region:
  assumes "a \<notin> region buffer (unat maxlen)"
  shows "snd (out_chars out_buffer buffer maxlen t st) a = snd st a"
proof (induction t arbitrary: st)
  case Nil
  then show ?case by (cases st) simp
next
  case (Cons c t)
  then show ?case by (cases st) (simp add: out_buffer_region [OF assms])
qed

section \<open>Properties\<close>

text \<open>C11: \<^verbatim>\<open>snprintf\<close> with a buffer of \<^verbatim>\<open>count > 0\<close> bytes writes the first
  \<^verbatim>\<open>count - 1\<close> characters of the formatted text, or all of them if they fit, then a NUL, and
  nothing else; it returns the full length of the text.\<close>

theorem snprintf_contract:
  assumes "buffer \<noteq> 0" and "format_text fmt va = Some t" and "length t < 2 ^ 64" and "0 < count"
  shows "case snprintf buffer count fmt va m of None \<Rightarrow> False
    | Some (n, m') \<Rightarrow> n = of_nat (length t) \<and>
        (let k = min (length t) (unat count - 1)
         in (\<forall>i < k. m' (buffer + of_nat i) = of_char (t ! i)) \<and> m' (buffer + of_nat k) = 0 \<and>
            (\<forall>a. a \<notin> region buffer (k + 1) \<longrightarrow> m' a = m a))"
proof -
  define k where "k = min (length t) (unat count - 1)"
  have k: "k < 2 ^ 64" "k \<le> length t" using assms(3) by (simp_all add: k_def)
  have "snprintf buffer count fmt va m = Some (of_nat (length t),
      (\<lambda>a. if unat (a - buffer) < k then of_char (t ! unat (a - buffer))
           else if unat (a - buffer) = k then 0 else m a))"
    unfolding k_def by (rule snprintf_text [OF assms])
  then show ?thesis
    unfolding k_def [symmetric] using assms(3) k by (simp add: unat_of_nat_u64 Let_def region_def)
qed

theorem snprintf_contract_witness:
  "\<exists>m'. snprintf 0x1000 3 ''hello'' [] (\<lambda>_. 7) = Some (5, m') \<and> m' 0x1001 = 101 \<and> m' 0x1002 = 0"
proof -
  have "format_text ''hello'' [] = Some ''hello''" by (simp add: NUL_def)
  note c = snprintf_contract [of 4096, OF _ this, of 3 "\<lambda>_. 7"]
  obtain n m' where r: "snprintf 0x1000 3 ''hello'' [] (\<lambda>_. 7) = Some (n, m')"
    using c by (auto split: option.splits)
  with c have "n = 5" "m' 0x1002 = 0" "\<forall>i < 2. m' (0x1000 + of_nat i) = of_char (''hello'' ! i)"
    by (simp_all add: Let_def)
  then have "m' 0x1001 = 101" by (auto dest: spec [of _ 1])
  with r \<open>n = 5\<close> \<open>m' 0x1002 = 0\<close> show ?thesis by simp
qed

text \<open>C26: Whatever the format and the arguments, \<^verbatim>\<open>snprintf\<close> writes no byte outside the
  \<^verbatim>\<open>count\<close> bytes of its buffer, also when \<^verbatim>\<open>count\<close> is 0.\<close>

theorem snprintf_in_bounds:
  assumes "snprintf buffer count fmt va m = Some (n, m')" and "a \<notin> region buffer (unat count)"
  shows "m' a = m a"
proof (cases "buffer = 0")
  case True
  then obtain t idx where o: "out_chars out_null 0 count t (0, m) = (idx, m')"
    using assms(1)
    by (auto simp: snprintf_def vsnprintf_def vsnprintf_loop_text out_null_def split: option.splits prod.splits)
  have "snd (out_chars out_null 0 count t st) = snd st" for st :: "u64 \<times> mem"
    by (induction t arbitrary: st) (auto simp: out_null_def split_paired_all)
  then show ?thesis using o by (metis snd_conv)
next
  case False
  then obtain t idx m1 where "out_chars out_buffer buffer count t (0, m) = (idx, m1)"
    and "m' = out_buffer NUL buffer (if idx < count then idx else count - 1) count m1"
    using assms(1) by (auto simp: snprintf_def vsnprintf_def vsnprintf_loop_text split: option.splits prod.splits)
  then show ?thesis
    using out_buffer_chars_region [OF assms(2), of t "(0, m)"] out_buffer_region [OF assms(2)] by simp
qed

theorem snprintf_in_bounds_witness:
  "\<exists>n m'. snprintf 0x1000 3 ''hello'' [] (\<lambda>_. 7) = Some (n, m') \<and> m' 0x1003 = 7"
proof -
  have "format_text ''hello'' [] = Some ''hello''" by (simp add: NUL_def)
  then obtain n m' where r: "snprintf 4096 3 ''hello'' [] (\<lambda>_. 7) = Some (n, m')"
    by (auto simp: snprintf_text)
  then have "m' 4099 = 7" by (rule snprintf_in_bounds) (simp add: region_def)
  with r show ?thesis by simp
qed

text \<open>C27: \<^verbatim>\<open>printk\<close> returns the length of the formatted text and shows it on the terminal after
  what was there, NUL characters left out; it fails only where the text is undefined.\<close>

theorem printk_console:
  "printk fmt va console = (case format_text fmt va of None \<Rightarrow> None
     | Some t \<Rightarrow> Some (of_nat (length t), console @ filter (\<lambda>c. c \<noteq> NUL) t))"
  by (simp add: printk_text split: option.split)


text \<open>C33: Round trip: \<^verbatim>\<open>_atoi\<close>, which parses widths and precisions, reads the decimal text that
  \<^verbatim>\<open>%u\<close> prints back to the number, and stops at the first character after it.\<close>

theorem print_parse_roundtrip:
  assumes "rest = [] \<or> \<not> is_digit (hd rest)"
  shows "\<exists>t. format_text ''%u'' [VInt v] = Some t \<and> atoi (t @ rest) 0 = (ucast v, rest)"
proof -
  have "atoi rest i = (i, rest)" for i using assms by (cases rest) auto
  then show ?thesis
    using format_text_int [of "CHR ''u''" v "[]"] by (simp add: int_text_u atoi_nat_text)
qed

theorem print_parse_roundtrip_witness:
  "\<exists>t. format_text ''%u'' [VInt 1234567890123] = Some t \<and> atoi (t @ ''x'') 0 = (1912276171, ''x'')"
proof -
  have u: "ucast (1234567890123 :: u64) = (1912276171 :: u32)" by simp
  show ?thesis
    using print_parse_roundtrip [of "''x''" 1234567890123] unfolding u
    by (simp add: is_digit_def del: format_text.simps)
qed

text \<open>A format that ends in a lone percent sign has no defined text: the parser steps over the
  terminating NUL and reads on.\<close>

theorem trailing_percent:
  assumes "NUL \<notin> set xs" and "CHR ''%'' \<notin> set xs"
  shows "printk (xs @ ''%'') va console = None"
proof -
  have "format_text ''%'' va = None"
    by (auto simp: directive_text_def parse_width_def parse_precision_def parse_length_def peek_def
        is_digit_def specifier_text_def int_specifier_def NUL_def)
  with assms show ?thesis by (simp add: printk_text format_text_append_literal)
qed

theorem trailing_percent_witness: "printk ''100%'' [] [] = None"
  using trailing_percent [of "''100''" "[]" "[]"] by (simp add: NUL_def)

end
