(* ===== verification/Serial.thy ===== *)
theory Serial
  imports Machine Printk_Spec "HOL-Library.Monad_Syntax"
begin

text \<open>
  Model of \<^verbatim>\<open>src/ASNU/src/Serial/serial.c\<close>: the number writers, the caching
  \<^verbatim>\<open>serial_i2s\<close> and the kernel log \<^verbatim>\<open>serial_fwrite\<close>. Every character goes to the port
  \<^verbatim>\<open>COM1\<close> and, through \<^verbatim>\<open>printk("%c", c)\<close>, to the terminal. \<open>None\<close> is undefined
  behaviour, as in the model of \<^verbatim>\<open>printk\<close>: a directive that runs past the end of the
  format, or a missing argument.

  A local \<^verbatim>\<open>char buf[N]\<close> filled up to index \<^verbatim>\<open>i\<close> is the list of its first \<^verbatim>\<open>i\<close>
  characters; the index at which the closing NUL is stored is the length of the list, which
  the lemmas on the lengths compare with \<^verbatim>\<open>N\<close>.
\<close>

section \<open>Number writers\<close>

definition COM1 :: u16 where
  "COM1 = 0x3F8"

definition serial_write_char :: "char \<Rightarrow> machine \<Rightarrow> machine option" where
  "serial_write_char c m =
     do {
       (n, con) \<leftarrow> printk ''%c'' [VInt (scast (of_char c :: u8))] (console (outb COM1 (of_char c) m));
       Some ((outb COM1 (of_char c) m)\<lparr>console := con\<rparr>)
     }"

text \<open>\<^verbatim>\<open>for (int j = 0; buf[j]; j++) serial_write_char(buf[j])\<close>, also with a pointer.\<close>

fun serial_puts :: "string \<Rightarrow> machine \<Rightarrow> machine option" where
  "serial_puts [] m = Some m"
| "serial_puts (c # cs) m =
     (if c = NUL then Some m else do { m1 \<leftarrow> serial_write_char c m; serial_puts cs m1 })"

text \<open>\<^verbatim>\<open>while (value > 0) { buf[i++] = '0' + (value % 10); value /= 10; }\<close> at 32 and 64 bits.\<close>

function digits_loop :: "nat \<Rightarrow> nat \<Rightarrow> string \<Rightarrow> string" where
  "digits_loop base v buf =
     (if v > 0 \<and> base > 1 then digits_loop base (v div base) (buf @ [char_of (48 + v mod base)])
      else buf)"
  by pat_completeness auto
termination
  by (relation "measure (\<lambda>(base, v, buf). v)") auto

declare digits_loop.simps [simp del]

text \<open>\<^verbatim>\<open>while (i < 4) buf[i++] = '0';\<close>\<close>

definition pad4 :: "string \<Rightarrow> string" where
  "pad4 buf = buf @ replicate (4 - length buf) CHR ''0''"

text \<open>
  The text \<^verbatim>\<open>serial_i2s\<close> leaves in \<^verbatim>\<open>temp\<close>: digits, then the sign, then the padding, all
  reversed. \<^verbatim>\<open>value = -value\<close> wraps at \<^verbatim>\<open>INT_MIN\<close>, and the loop then runs no iteration.
\<close>

definition i2s_text :: "u32 \<Rightarrow> string" where
  "i2s_text value =
     (if value = 0 then ''0000''
      else let is_negative = (sint value < 0);
               v = (if is_negative then - value else value);
               b1 = (if sint v > 0 then digits_loop 10 (unat v) [] else []);
               b2 = (if is_negative then b1 @ ''-'' else b1)
           in rev (pad4 b2))"

definition serial_i2s :: "u32 \<Rightarrow> machine \<Rightarrow> string \<times> machine" where
  "serial_i2s value m =
     (if i2s_init m \<and> value = i2s_last m then (i2s_temp m, m)
      else (i2s_text value, m\<lparr>i2s_last := value, i2s_init := True, i2s_temp := i2s_text value\<rparr>))"

definition uint_buf :: "u32 \<Rightarrow> string" where
  "uint_buf value = (if value = 0 then ''0000'' else pad4 (digits_loop 10 (unat value) []))"

definition serial_write_uint :: "u32 \<Rightarrow> machine \<Rightarrow> machine option" where
  "serial_write_uint value m = serial_puts (rev (uint_buf value)) m"

definition hex_digit :: "bool \<Rightarrow> nat \<Rightarrow> char" where
  "hex_digit uppercase d = (if uppercase then ''0123456789ABCDEF'' else ''0123456789abcdef'') ! d"

text \<open>\<^verbatim>\<open>while (value > 0) { buf[i++] = hex[value & 0xF]; value >>= 4; }\<close>\<close>

function hex_loop :: "bool \<Rightarrow> u64 \<Rightarrow> string \<Rightarrow> string" where
  "hex_loop uppercase v buf =
     (if v > 0 then hex_loop uppercase (drop_bit 4 v) (buf @ [hex_digit uppercase (unat (v AND 0xF))])
      else buf)"
  by pat_completeness auto
termination
  by (relation "measure (\<lambda>(uppercase, v, buf). unat v)")
    (auto simp: drop_bit_eq_div unat_div word_less_nat_alt)

declare hex_loop.simps [simp del]

definition hex_buf :: "u64 \<Rightarrow> bool \<Rightarrow> string" where
  "hex_buf value uppercase = (if value = 0 then ''0'' else hex_loop uppercase value [])"

definition serial_write_hex :: "u64 \<Rightarrow> bool \<Rightarrow> machine \<Rightarrow> machine option" where
  "serial_write_hex value uppercase m = serial_puts (rev (hex_buf value uppercase)) m"

definition octal_buf :: "u32 \<Rightarrow> string" where
  "octal_buf value = (if value = 0 then ''0'' else digits_loop 8 (unat value) [])"

definition serial_write_octal :: "u32 \<Rightarrow> machine \<Rightarrow> machine option" where
  "serial_write_octal value m = serial_puts (rev (octal_buf value)) m"

text \<open>The two inlined 64-bit writers of \<^verbatim>\<open>%llu\<close> and \<^verbatim>\<open>%lld\<close>.\<close>

definition llu_buf :: "u64 \<Rightarrow> string" where
  "llu_buf v = (if v = 0 then ''0'' else digits_loop 10 (unat v) [])"

definition lld_buf :: "u64 \<Rightarrow> string" where
  "lld_buf v0 =
     (let neg = (sint v0 < 0); v = (if neg then - v0 else v0);
          b = (if v = 0 then ''0'' else if sint v > 0 then digits_loop 10 (unat v) [] else [])
      in if neg then b @ ''-'' else b)"

section \<open>The log\<close>

text \<open>
  One directive: \<open>cs\<close> is the format after the percent sign. The result is the rest of the
  format after the loop's own \<^verbatim>\<open>p++\<close>; \<open>None\<close> where that step would pass the closing NUL.
\<close>

definition step_over :: "string \<Rightarrow> varg list \<Rightarrow> machine \<Rightarrow> (string \<times> varg list \<times> machine) option" where
  "step_over cs va m = (case cs of [] \<Rightarrow> None | c # cs' \<Rightarrow> Some (cs', va, m))"

definition serial_long :: "string \<Rightarrow> varg list \<Rightarrow> machine \<Rightarrow> (string \<times> varg list \<times> machine) option" where
  "serial_long cs va m =
     (if peek cs = CHR ''l'' then
        (let cs1 = tl cs
         in if peek cs1 = CHR ''u'' then
              do { (v, va1) \<leftarrow> va_int va; m1 \<leftarrow> serial_puts (rev (llu_buf v)) m; step_over cs1 va1 m1 }
            else if peek cs1 = CHR ''d'' then
              do { (v, va1) \<leftarrow> va_int va; m1 \<leftarrow> serial_puts (rev (lld_buf v)) m; step_over cs1 va1 m1 }
            else step_over cs1 va m)
      else step_over cs va m)"

definition serial_directive ::
  "string \<Rightarrow> varg list \<Rightarrow> machine \<Rightarrow> (string \<times> varg list \<times> machine) option" where
  "serial_directive cs va m =
     (let c = peek cs
      in if c = CHR ''d'' \<or> c = CHR ''i'' then
           do { (v, va1) \<leftarrow> va_int va;
                let (t, m1) = serial_i2s (ucast v) m;
                m2 \<leftarrow> serial_puts t m1;
                step_over cs va1 m2 }
         else if c = CHR ''u'' then
           do { (v, va1) \<leftarrow> va_int va; m1 \<leftarrow> serial_write_uint (ucast v) m; step_over cs va1 m1 }
         else if c = CHR ''o'' then
           do { (v, va1) \<leftarrow> va_int va; m1 \<leftarrow> serial_write_octal (ucast v) m; step_over cs va1 m1 }
         else if c = CHR ''x'' then
           do { (v, va1) \<leftarrow> va_int va; m1 \<leftarrow> serial_write_hex (ucast (ucast v :: u32)) False m;
                step_over cs va1 m1 }
         else if c = CHR ''X'' then
           do { (v, va1) \<leftarrow> va_int va; m1 \<leftarrow> serial_write_hex (ucast (ucast v :: u32)) True m;
                step_over cs va1 m1 }
         else if c = CHR ''c'' then
           do { (v, va1) \<leftarrow> va_int va;
                m1 \<leftarrow> serial_write_char (char_of (unat (ucast v :: u8))) m;
                step_over cs va1 m1 }
         else if c = CHR ''s'' then
           do { (p, va1) \<leftarrow> va_str va; m1 \<leftarrow> serial_puts p m; step_over cs va1 m1 }
         else if c = CHR ''p'' then
           do { (v, va1) \<leftarrow> va_int va; m1 \<leftarrow> serial_write_hex v False m; step_over cs va1 m1 }
         else if c = CHR ''l'' then serial_long (tl cs) va m
         else if c = CHR ''%'' then do { m1 \<leftarrow> serial_write_char CHR ''%'' m; step_over cs va m1 }
         else do { m1 \<leftarrow> serial_write_char CHR ''%'' m;
                   m2 \<leftarrow> serial_write_char c m1;
                   step_over cs va m2 })"

lemma serial_directive_length:
  "serial_directive cs va m = Some (cs', va', m') \<Longrightarrow> length cs' < length cs"
  by (auto simp: serial_directive_def serial_long_def step_over_def Let_def peek_def bind_eq_Some_conv
      split: if_splits list.splits prod.splits)

function serial_loop :: "string \<Rightarrow> varg list \<Rightarrow> machine \<Rightarrow> machine option" where
  "serial_loop [] va m = Some m"
| "serial_loop (c # cs) va m =
     (if c = NUL then Some m
      else if c = CHR ''%'' then
        (case serial_directive cs va m of None \<Rightarrow> None
         | Some (cs', va', m') \<Rightarrow> serial_loop cs' va' m')
      else (case serial_write_char c m of None \<Rightarrow> None | Some m' \<Rightarrow> serial_loop cs va m'))"
  by pat_completeness auto
termination
  by (relation "measure (\<lambda>(fmt, va, m). length fmt)") (auto dest: serial_directive_length)

definition serial_fwrite :: "string \<Rightarrow> varg list \<Rightarrow> machine \<Rightarrow> machine option" where
  "serial_fwrite fmt va m =
     do {
       m1 \<leftarrow> serial_write_char CHR ''['' m;
       let (t, m2) = serial_i2s (log_id m1) (m1\<lparr>log_id := log_id m1 + 1\<rparr>);
       m3 \<leftarrow> serial_puts t m2;
       m4 \<leftarrow> serial_write_char CHR '']'' m3;
       m5 \<leftarrow> serial_write_char CHR '' '' m4;
       m6 \<leftarrow> serial_loop fmt va m5;
       serial_write_char CHR 0x0A m6
     }"

section \<open>What is written\<close>

text \<open>Sending a text: each character to \<^verbatim>\<open>COM1\<close>, and each but NUL to the terminal.\<close>

definition send :: "string \<Rightarrow> machine \<Rightarrow> machine" where
  "send t m = m\<lparr>trace := rev (map (\<lambda>c. Out8 COM1 (of_char c)) t) @ trace m,
     console := console m @ filter (\<lambda>c. c \<noteq> NUL) t\<rparr>"

lemma send_Nil [simp]: "send [] m = m"
  by (simp add: send_def)

lemma send_send [simp]: "send u (send t m) = send (t @ u) m"
  by (simp add: send_def)

lemma send_fields [simp]:
  "log_id (send t m) = log_id m" "i2s_temp (send t m) = i2s_temp m"
  "i2s_last (send t m) = i2s_last m" "i2s_init (send t m) = i2s_init m" "dev (send t m) = dev m"
  by (simp_all add: send_def)

lemma format_text_c: "format_text ''%c'' [VInt v] = Some [char_of (unat (ucast v :: u8))]"
  by (auto simp: directive_text_def specifier_text_def parse_width_def parse_precision_def
      parse_length_def peek_def is_digit_def int_specifier_def NUL_def pad_text_def Let_def
      split: option.splits)

lemma char_of_byte: "char_of (unat (of_char c :: u8)) = c"
proof -
  have "(of_char c :: u8) = of_nat (of_char c)" by (rule of_nat_of_char [symmetric])
  then have "unat (of_char c :: u8) = of_char c mod 2 ^ 8" by (simp only: unat_of_nat) simp
  then have "unat (of_char c :: u8) = of_char c" by simp
  then show ?thesis by simp
qed

lemma printk_char:
  "printk ''%c'' [VInt (scast (of_char c :: u8))] con =
    Some (1, con @ (if c = NUL then [] else [c]))"
proof -
  have "(ucast (scast (of_char c :: u8) :: u64) :: u8) = of_char c"
    by (rule bit_eqI) (simp add: bit_simps)
  then show ?thesis by (simp only: printk_text format_text_c char_of_byte) simp
qed

lemma serial_write_char_send: "serial_write_char c m = Some (send [c] m)"
  by (simp add: serial_write_char_def send_def outb_def printk_char)

definition upto_nul :: "string \<Rightarrow> string" where
  "upto_nul t = takeWhile (\<lambda>c. c \<noteq> NUL) t"

lemma serial_puts_send: "serial_puts t m = Some (send (upto_nul t) m)"
  by (induction t arbitrary: m) (auto simp: serial_write_char_send upto_nul_def)

lemmas serial_sends = serial_puts_send serial_write_char_send serial_write_uint_def
  serial_write_hex_def serial_write_octal_def

text \<open>The cache of \<^verbatim>\<open>serial_i2s\<close> never lies.\<close>

definition i2s_ok :: "machine \<Rightarrow> bool" where
  "i2s_ok m \<longleftrightarrow> (i2s_init m \<longrightarrow> i2s_temp m = i2s_text (i2s_last m))"

lemma serial_i2s_text:
  assumes "i2s_ok m"
  shows "fst (serial_i2s value m) = i2s_text value" "i2s_ok (snd (serial_i2s value m))"
    "trace (snd (serial_i2s value m)) = trace m" "console (snd (serial_i2s value m)) = console m"
    "dev (snd (serial_i2s value m)) = dev m" "log_id (snd (serial_i2s value m)) = log_id m"
  using assms by (auto simp: serial_i2s_def i2s_ok_def)

text \<open>\<open>wrote t m m'\<close>: from \<open>m\<close> to \<open>m'\<close> the text \<open>t\<close> was written and nothing else happened.\<close>

definition wrote :: "string \<Rightarrow> machine \<Rightarrow> machine \<Rightarrow> bool" where
  "wrote t m m' \<longleftrightarrow> i2s_ok m' \<and> trace m' = trace (send t m) \<and> console m' = console (send t m) \<and>
     dev m' = dev m \<and> log_id m' = log_id m"

lemma wrote_trans [trans]: "wrote t m m1 \<Longrightarrow> wrote u m1 m2 \<Longrightarrow> wrote (t @ u) m m2"
  by (simp add: wrote_def send_def)

lemma i2s_ok_send [simp]: "i2s_ok (send t m) = i2s_ok m"
  by (simp add: i2s_ok_def)

lemma wrote_send: "i2s_ok m \<Longrightarrow> wrote t m (send t m)"
  by (simp add: wrote_def)

lemma wrote_i2s: "i2s_ok m \<Longrightarrow> wrote [] m (snd (serial_i2s value m))"
  by (simp add: wrote_def serial_i2s_text)

lemma wrote_i2s_send:
  assumes "i2s_ok m" and "serial_i2s v m = (t, m1)"
  shows "wrote (upto_nul (i2s_text v)) m (send (upto_nul t) m1)"
  using serial_i2s_text [OF assms(1), of v] assms(2)
  by (simp add: wrote_def send_def i2s_ok_def)

text \<open>The text of a directive and of a format, as functions of the format and the arguments.\<close>

definition skip1 :: "string \<Rightarrow> varg list \<Rightarrow> string \<Rightarrow> (string \<times> varg list \<times> string) option" where
  "skip1 cs va t = (case cs of [] \<Rightarrow> None | c # cs' \<Rightarrow> Some (cs', va, t))"

definition serial_long_text :: "string \<Rightarrow> varg list \<Rightarrow> (string \<times> varg list \<times> string) option" where
  "serial_long_text cs va =
     (if peek cs = CHR ''l'' then
        (let cs1 = tl cs
         in if peek cs1 = CHR ''u'' then
              do { (v, va1) \<leftarrow> va_int va; skip1 cs1 va1 (upto_nul (rev (llu_buf v))) }
            else if peek cs1 = CHR ''d'' then
              do { (v, va1) \<leftarrow> va_int va; skip1 cs1 va1 (upto_nul (rev (lld_buf v))) }
            else skip1 cs1 va [])
      else skip1 cs va [])"

definition serial_directive_text :: "string \<Rightarrow> varg list \<Rightarrow> (string \<times> varg list \<times> string) option" where
  "serial_directive_text cs va =
     (let c = peek cs
      in if c = CHR ''d'' \<or> c = CHR ''i'' then
           do { (v, va1) \<leftarrow> va_int va; skip1 cs va1 (upto_nul (i2s_text (ucast v))) }
         else if c = CHR ''u'' then
           do { (v, va1) \<leftarrow> va_int va; skip1 cs va1 (upto_nul (rev (uint_buf (ucast v)))) }
         else if c = CHR ''o'' then
           do { (v, va1) \<leftarrow> va_int va; skip1 cs va1 (upto_nul (rev (octal_buf (ucast v)))) }
         else if c = CHR ''x'' then
           do { (v, va1) \<leftarrow> va_int va;
                skip1 cs va1 (upto_nul (rev (hex_buf (ucast (ucast v :: u32)) False))) }
         else if c = CHR ''X'' then
           do { (v, va1) \<leftarrow> va_int va;
                skip1 cs va1 (upto_nul (rev (hex_buf (ucast (ucast v :: u32)) True))) }
         else if c = CHR ''c'' then
           do { (v, va1) \<leftarrow> va_int va; skip1 cs va1 [char_of (unat (ucast v :: u8))] }
         else if c = CHR ''s'' then
           do { (p, va1) \<leftarrow> va_str va; skip1 cs va1 (upto_nul p) }
         else if c = CHR ''p'' then
           do { (v, va1) \<leftarrow> va_int va; skip1 cs va1 (upto_nul (rev (hex_buf v False))) }
         else if c = CHR ''l'' then serial_long_text (tl cs) va
         else if c = CHR ''%'' then skip1 cs va ''%''
         else skip1 cs va [CHR ''%'', c])"

definition logs :: "machine \<Rightarrow> (string \<times> varg list \<times> string) option \<Rightarrow>
    (string \<times> varg list \<times> machine) option \<Rightarrow> bool" where
  "logs m rt rm \<longleftrightarrow> (case rt of None \<Rightarrow> rm = None
     | Some (cs, va, t) \<Rightarrow> \<exists>m'. rm = Some (cs, va, m') \<and> wrote t m m')"

lemma logs_None [simp]: "logs m None None"
  by (simp add: logs_def)

lemma logs_step_over: "wrote t m m1 \<Longrightarrow> logs m (skip1 cs va t) (step_over cs va m1)"
  by (auto simp: logs_def skip1_def step_over_def split: list.splits)

lemma logs_bind: "(\<And>v va1. logs m (f v va1) (g v va1)) \<Longrightarrow>
    logs m (do { (v, va1) \<leftarrow> r; f v va1 }) (do { (v, va1) \<leftarrow> r; g v va1 })"
  by (cases r) auto

lemma serial_long_logs: "i2s_ok m \<Longrightarrow> logs m (serial_long_text cs va) (serial_long cs va m)"
  by (auto simp: serial_long_text_def serial_long_def Let_def serial_sends
      intro!: logs_bind logs_step_over wrote_send)
    (metis send_Nil wrote_send)+

lemma serial_directive_logs:
  "i2s_ok m \<Longrightarrow> logs m (serial_directive_text cs va) (serial_directive cs va m)"
  unfolding serial_directive_text_def serial_directive_def Let_def
  by (auto simp: serial_sends serial_i2s_text
      intro!: logs_bind logs_step_over wrote_send serial_long_logs
        wrote_i2s_send split: prod.splits)

lemma skip1_length: "skip1 cs va t = Some (cs', va', u) \<Longrightarrow> length cs' < length cs"
  by (auto simp: skip1_def split: list.splits)

lemma serial_directive_text_length:
  "serial_directive_text cs va = Some (cs', va', t) \<Longrightarrow> length cs' < length cs"
  by (auto simp: serial_directive_text_def serial_long_text_def Let_def peek_def bind_eq_Some_conv
      dest!: skip1_length split: if_splits list.splits prod.splits)

function serial_text :: "string \<Rightarrow> varg list \<Rightarrow> string option" where
  "serial_text [] va = Some []"
| "serial_text (c # cs) va =
     (if c = NUL then Some []
      else if c = CHR ''%'' then
        (case serial_directive_text cs va of None \<Rightarrow> None
         | Some (cs', va', t) \<Rightarrow> map_option ((@) t) (serial_text cs' va'))
      else map_option ((#) c) (serial_text cs va))"
  by pat_completeness auto
termination
  by (relation "measure (\<lambda>(fmt, va). length fmt)") (auto dest: serial_directive_text_length)

lemma wrote_ok: "wrote t m m' \<Longrightarrow> i2s_ok m'"
  by (simp add: wrote_def)

lemma serial_loop_text:
  "i2s_ok m \<Longrightarrow>
    (case serial_text fmt va of None \<Rightarrow> serial_loop fmt va m = None
     | Some t \<Rightarrow> \<exists>m'. serial_loop fmt va m = Some m' \<and> wrote t m m')"
proof (induction fmt va arbitrary: m rule: serial_text.induct)
  case (1 va)
  then show ?case using wrote_send [of m "[]"] by simp
next
  case (2 c cs va)
  consider "c = NUL" | "c \<noteq> NUL" "c = CHR ''%''" | "c \<noteq> NUL" "c \<noteq> CHR ''%''" by blast
  then show ?case
  proof cases
    case 1
    then show ?thesis using wrote_send [of m "[]"] 2(3) by simp
  next
    case 2
    note L = serial_directive_logs [OF "2.prems", of cs va]
    show ?thesis
    proof (cases "serial_directive_text cs va")
      case None
      with 2 L show ?thesis by (simp add: logs_def)
    next
      case (Some r)
      obtain cs' va' t where r: "r = (cs', va', t)" by (cases r)
      with L Some obtain m1 where m1: "serial_directive cs va m = Some (cs', va', m1)" "wrote t m m1"
        by (auto simp: logs_def)
      have "case serial_text cs' va' of None \<Rightarrow> serial_loop cs' va' m1 = None
          | Some t \<Rightarrow> \<exists>m'. serial_loop cs' va' m1 = Some m' \<and> wrote t m1 m'"
        using 2 Some r wrote_ok [OF m1(2)] by (intro "2.IH"(1)) auto
      then show ?thesis using 2 Some r m1 wrote_trans [OF m1(2)] by (auto split: option.splits)
    qed
  next
    case 3
    have w: "wrote [c] m (send [c] m)" using "2.prems" by (rule wrote_send)
    from "2.IH"(2) [OF 3(1,2) wrote_ok [OF w]] 3 show ?thesis
      using wrote_trans [OF w] by (auto simp: serial_write_char_send split: option.splits)
  qed
qed

definition log_line :: "machine \<Rightarrow> string \<Rightarrow> string" where
  "log_line m t = ''['' @ upto_nul (i2s_text (log_id m)) @ ''] '' @ t @ [CHR 0x0A]"

lemma serial_fwrite_text:
  assumes "i2s_ok m"
  shows "(case serial_text fmt va of None \<Rightarrow> serial_fwrite fmt va m = None
     | Some t \<Rightarrow> \<exists>m'. serial_fwrite fmt va m = Some m' \<and>
         wrote (log_line m t) (m\<lparr>log_id := log_id m + 1\<rparr>) m')"
proof -
  let ?m1 = "send ''['' m\<lparr>log_id := log_id m + 1\<rparr>"
  have ok: "i2s_ok ?m1" using assms by (simp add: i2s_ok_def)
  obtain t m2 where i: "serial_i2s (log_id m) ?m1 = (t, m2)" by fastforce
  let ?m5 = "send (upto_nul t @ ''] '') m2"
  have w: "wrote (upto_nul (i2s_text (log_id m)) @ ''] '') ?m1 ?m5"
    using wrote_trans [OF wrote_i2s_send [OF ok i] wrote_send, of "''] ''"]
      wrote_ok [OF wrote_i2s_send [OF ok i]] by simp
  have pre: "serial_fwrite fmt va m =
      do { m6 \<leftarrow> serial_loop fmt va ?m5; serial_write_char CHR 0x0A m6 }"
    using i by (simp add: serial_fwrite_def serial_sends)
  have "wrote (''['' @ u) (m\<lparr>log_id := log_id m + 1\<rparr>) m'" if "wrote u ?m1 m'" for u m'
    using that by (simp add: wrote_def send_def)
  note head = this
  show ?thesis
  proof (cases "serial_text fmt va")
    case None
    with serial_loop_text [OF wrote_ok [OF w], of fmt va] show ?thesis by (simp add: pre)
  next
    case (Some t)
    with serial_loop_text [OF wrote_ok [OF w], of fmt va] obtain m6
      where l: "serial_loop fmt va ?m5 = Some m6" "wrote t ?m5 m6" by auto
    have "wrote ((upto_nul (i2s_text (log_id m)) @ ''] '') @ t @ [CHR 0x0A]) ?m1 (send [CHR 0x0A] m6)"
      using wrote_trans [OF w wrote_trans [OF l(2) wrote_send [OF wrote_ok [OF l(2)]]]] .
    with Some l(1) show ?thesis
      using head by (simp add: pre serial_write_char_send log_line_def)
  qed
qed

text \<open>A log call whose format and arguments fit always succeeds and leaves the cache sound.\<close>

lemma serial_fwrite_Some:
  assumes "i2s_ok k" and "serial_text fmt va = Some t"
  obtains k' where "serial_fwrite fmt va k = Some k'" and "i2s_ok k'"
    and "wrote (log_line k t) (k\<lparr>log_id := log_id k + 1\<rparr>) k'"
  using serial_fwrite_text [OF assms(1), of fmt va] assms(2) by (auto dest: wrote_ok)

definition fits :: "string \<Rightarrow> varg list \<Rightarrow> bool" where
  "fits fmt va \<longleftrightarrow> serial_text fmt va \<noteq> None"

lemma serial_fwrite_fits:
  "i2s_ok k \<Longrightarrow> fits fmt va \<Longrightarrow> \<exists>k'. serial_fwrite fmt va k = Some k' \<and> i2s_ok k'"
  by (auto simp: fits_def elim: serial_fwrite_Some)

lemmas fits_simps =
  fits_def NUL_def serial_directive_text_def serial_long_text_def skip1_def peek_def

text \<open>Sequencing after a log call: it can never be the call that fails.\<close>

lemma log_bind:
  assumes "i2s_ok k" and "fits fmt va" and "\<And>k'. i2s_ok k' \<Longrightarrow> \<exists>r. f k' = Some r \<and> Q r"
  shows "\<exists>r. serial_fwrite fmt va k \<bind> f = Some r \<and> Q r"
proof -
  obtain k' where "serial_fwrite fmt va k = Some k'" and "i2s_ok k'"
    using serial_fwrite_fits [OF assms(1,2)] by blast
  with assms(3) show ?thesis by simp
qed

text \<open>A log call leaves the device side of the machine as it is.\<close>

lemma log_dev:
  assumes "serial_fwrite fmt va k = Some k'" and "i2s_ok k"
  shows "i2s_ok k' \<and> dev k' = dev k"
  using serial_fwrite_text [OF assms(2), of fmt va] assms(1)
  by (auto simp: wrote_def split: option.splits)

section \<open>Number texts\<close>

lemma digits_loop_nat_text:
  assumes "1 < base" and "0 < v" and "base \<le> 10"
  shows "digits_loop base v buf = buf @ rev (nat_text (\<lambda>k. char_of (48 + k)) base v)"
  using assms
proof (induction base v buf rule: digits_loop.induct)
  case (1 base v buf)
  show ?case
  proof (cases "v < base")
    case True
    then show ?thesis using 1(2,3)
      by (subst digits_loop.simps, subst nat_text.simps, subst digits_loop.simps) simp
  next
    case False
    then have "0 < v div base" using 1(2) by (simp add: div_greater_zero_iff)
    then show ?thesis using 1 False
      by (subst digits_loop.simps, subst nat_text.simps) simp
  qed
qed

lemma hex_loop_nat_text:
  "0 < v \<Longrightarrow> hex_loop u v buf = buf @ rev (nat_text (hex_digit u) 16 (unat v))"
proof (induction u v buf rule: hex_loop.induct)
  case (1 u v buf)
  have a: "unat (v AND 0xF) = unat v mod 16"
  proof -
    have "v AND 0xF = take_bit 4 v" by (simp add: take_bit_eq_mask mask_eq_exp_minus_1)
    then show ?thesis by (simp add: unsigned_take_bit_eq) (simp add: take_bit_eq_mod)
  qed
  have d: "unat (drop_bit 4 v) = unat v div 16" by (simp add: drop_bit_eq_div unat_div)
  have v: "0 < unat v" using 1(2) by (simp add: word_less_nat_alt)
  show ?case
  proof (cases "unat v < 16")
    case True
    then have z: "drop_bit 4 v = 0" using d by (simp add: unat_eq_zero [symmetric])
    show ?thesis using 1(2) True z a
      by (subst hex_loop.simps, subst nat_text.simps, subst hex_loop.simps) simp
  next
    case False
    then have "0 < drop_bit 4 v" using d by (simp add: word_less_nat_alt)
    then show ?thesis using 1 False a d
      by (subst hex_loop.simps, subst nat_text.simps) simp
  qed
qed
lemma nat_text_length_ge: "2 \<le> base \<Longrightarrow> base ^ k \<le> n \<Longrightarrow> k < length (nat_text d base n)"
proof (induction d base n arbitrary: k rule: nat_text.induct)
  case (1 d base n)
  show ?case
  proof (cases k)
    case 0
    then show ?thesis by (subst nat_text.simps) simp
  next
    case (Suc j)
    have "base \<le> base ^ k" using "1.prems"(1) Suc by simp
    then have b: "\<not> (n < base \<or> base < 2)" using "1.prems" by simp
    have "base ^ j \<le> n div base" using "1.prems" Suc by (simp add: less_eq_div_iff_mult_less_eq mult.commute)
    from "1.IH" [OF b "1.prems"(1) this] b Suc show ?thesis by (subst nat_text.simps) simp
  qed
qed

lemma nat_text_0 [simp]: "nat_text d base 0 = [d 0]"
proof -
  have "0 < base \<or> base < 2" by auto
  then show ?thesis by (subst nat_text.simps) (simp only: if_True)
qed

lemma hex_buf_text: "rev (hex_buf v u) = nat_text (hex_digit u) 16 (unat v)"
proof (cases "v = 0")
  case True
  then show ?thesis by (simp add: hex_buf_def hex_digit_def)
next
  case False
  then show ?thesis using hex_loop_nat_text [of v u "[]"] by (simp add: hex_buf_def word_neq_0_conv [symmetric])
qed

abbreviation dec :: "nat \<Rightarrow> string" where
  "dec n \<equiv> nat_text (\<lambda>k. char_of (48 + k)) 10 n"


lemma digits_loop_length:
  "1 < base \<Longrightarrow> base \<le> 10 \<Longrightarrow> v < base ^ k \<Longrightarrow> 0 < k \<Longrightarrow> length (digits_loop base v []) \<le> k"
  by (cases "v = 0") (simp_all add: digits_loop_nat_text length_nat_text digits_loop.simps [of _ 0])

lemma replicate_digits: "replicate 2 c = [c, c]" "replicate 3 c = [c, c, c]" "replicate 4 c = [c, c, c, c]"
  by (simp_all add: numeral_eq_Suc)

lemma char_48: "char_of (48 :: nat) = CHR ''0''"
  using char_of_char [of "CHR ''0''", where 'a = nat] by simp

lemma uint_less_iff: "uint (v :: u32) < 2 ^ 31 \<longleftrightarrow> unat v < 2 ^ 31"
  using of_nat_less_iff [of "unat v" "2 ^ 31", where 'a = int]
  by (simp only: uint_nat of_nat_power of_nat_numeral)

lemma sint_nonneg:
  fixes v :: u32
  shows "0 \<le> sint v \<longleftrightarrow> unat v < 2 ^ 31" and "unat v < 2 ^ 31 \<Longrightarrow> sint v = int (unat v)"
proof -
  have "uint v < 2 ^ 32" using unsigned_less [of v, where 'a = int] by simp
  then show "0 \<le> sint v \<longleftrightarrow> unat v < 2 ^ 31"
    by (simp only: sint_u32 uint_less_iff [symmetric] split: if_split) auto
  show "unat v < 2 ^ 31 \<Longrightarrow> sint v = int (unat v)"
    by (simp only: sint_u32 uint_less_iff if_True) (simp only: uint_nat)
qed

lemma i2s_text_nonneg:
  assumes "unat v < 2 ^ 31"
  shows "i2s_text v = replicate (4 - length (dec (unat v))) CHR ''0'' @ dec (unat v)"
proof (cases "v = 0")
  case True
  then show ?thesis by (simp add: i2s_text_def replicate_digits char_48)
next
  case False
  have "sint v = int (unat v)" using assms by (rule sint_nonneg)
  moreover have v: "0 < unat v" using False by (simp add: unat_gt_0)
  moreover have "0 < sint v" using v calculation(1) by linarith
  ultimately show ?thesis
    using False by (simp add: i2s_text_def Let_def digits_loop_nat_text pad4_def)
qed

lemma i2s_text_neg:
  assumes "sint v < 0" and "sint v \<noteq> - (2 ^ 31)"
  shows "i2s_text v = replicate (4 - Suc (length (dec (nat (- sint v))))) CHR ''0'' @ ''-'' @ dec (nat (- sint v))"
proof -
  have a: "uint v \<ge> 2 ^ 31" "sint v = uint v - 2 ^ 32" using assms(1) by (auto simp: sint_u32 split: if_splits)
  have b: "uint v < 2 ^ 32" using unsigned_less [of v, where 'a = int] by simp
  have "uint (- v) = 2 ^ 32 - uint v" using a b by (simp add: uint_word_ariths zmod_zminus1_eq_if)
  moreover from this have "sint (- v) = - sint v" using a assms(2) by (simp add: sint_u32)
  moreover have "unat (- v) = nat (- sint v)" using calculation a by (simp add: unat_eq_nat_uint)
  moreover have "v \<noteq> 0" using assms(1) by auto
  ultimately show ?thesis
    using assms(1) by (simp add: i2s_text_def Let_def digits_loop_nat_text pad4_def)
qed

lemma i2s_text_min: "i2s_text 0x80000000 = ''000-''"
  by (simp add: i2s_text_def Let_def pad4_def replicate_digits)

section \<open>Properties\<close>



text \<open>\<^verbatim>\<open>serial_i2s\<close> writes numbers in decimal, zero-padded to four characters; for a negative
  number the padding comes before the sign, so -5 reads \<^verbatim>\<open>00-5\<close>, and \<^verbatim>\<open>INT_MIN\<close>
  reads \<^verbatim>\<open>000-\<close>.\<close>

theorem serial_i2s_decimal:
  "if 0 \<le> sint v then i2s_text v = replicate (4 - length (dec (unat v))) CHR ''0'' @ dec (unat v)
   else if v = 0x80000000 then i2s_text v = ''000-''
   else i2s_text v = replicate (3 - length (dec (nat (- sint v)))) CHR ''0'' @ ''-'' @ dec (nat (- sint v))"
proof -
  consider "0 \<le> sint v" | "sint v < 0" "v = 0x80000000" | "sint v < 0" "v \<noteq> 0x80000000" by (meson not_le)
  then show ?thesis
  proof cases
    case 1
    then have "unat v < 2 ^ 31" by (simp only: sint_nonneg)
    from i2s_text_nonneg [OF this] 1 show ?thesis by (simp only: if_True)
  next
    case 2
    have n: "\<not> 0 \<le> sint v" using 2(1) by simp
    have "i2s_text v = ''000-''" using i2s_text_min 2(2) by (simp only:)
    then show ?thesis by (simp only: if_not_P [OF n] if_P [OF 2(2)])
  next
    case 3
    have "sint v \<noteq> - (2 ^ 31)"
    proof
      assume "sint v = - (2 ^ 31)"
      moreover have "0 \<le> uint v" by simp
      ultimately have "uint v = 2 ^ 31" by (simp only: sint_u32 split: if_splits) simp_all
      then have "v = word_of_int (2 ^ 31)" by (metis word_of_int_uint)
      with 3(2) show False by simp
    qed
    note t = i2s_text_neg [OF 3(1) this]
    have n: "\<not> 0 \<le> sint v" using 3(1) by simp
    have "4 - Suc l = 3 - l" for l by simp
    then show ?thesis by (simp only: if_not_P [OF n] if_not_P [OF 3(2)] t)
  qed
qed

text \<open>\<^verbatim>\<open>serial_write_hex\<close> produces the hexadecimal digits of its value; the closing NUL lies
  inside its \<^verbatim>\<open>char buf[16]\<close> exactly for values below 2^60, and for larger ones (every pointer
  of the higher half) it is written one byte past the end.\<close>

theorem serial_hex_overflow:
  "rev (hex_buf v u) = nat_text (hex_digit u) 16 (unat v) \<and>
   (length (hex_buf v u) < 16 \<longleftrightarrow> unat v < 2 ^ 60) \<and> length (hex_buf v u) \<le> 16"
proof -
  have l: "length (hex_buf v u) = length (nat_text (hex_digit u) 16 (unat v))"
    by (metis hex_buf_text length_rev)
  have "unat v < 16 ^ 16" using unat_less_2_64 [of v] by simp
  then have "length (hex_buf v u) \<le> 16" unfolding l by (intro length_nat_text) simp_all
  moreover have "length (hex_buf v u) < 16" if "unat v < 2 ^ 60"
  proof -
    have "unat v < 16 ^ 15" using that by simp
    then have "length (hex_buf v u) \<le> 15" unfolding l by (intro length_nat_text) simp_all
    then show ?thesis by simp
  qed
  moreover have "15 < length (hex_buf v u)" if "\<not> unat v < 2 ^ 60"
    unfolding l by (rule nat_text_length_ge) (use that in simp_all)
  then have "\<not> unat v < 2 ^ 60 \<Longrightarrow> \<not> length (hex_buf v u) < 16" by fastforce
  ultimately show ?thesis using hex_buf_text by metis
qed

text \<open>The other number writers of \<^verbatim>\<open>serial.c\<close> never fill their buffers (\<^verbatim>\<open>temp[16]\<close>,
  \<^verbatim>\<open>buf[16]\<close> and \<^verbatim>\<open>buf[32]\<close>): the closing NUL is always in bounds.\<close>

theorem serial_buffers_fit:
  "length (i2s_text w) < 16 \<and> length (uint_buf w) < 16 \<and> length (octal_buf w) < 16 \<and>
   length (llu_buf v) < 32 \<and> length (lld_buf v) < 32"
proof -
  have w: "unat x < 2 ^ 32" for x :: u32 using unsigned_less [of x, where 'a = nat] by simp
  have d10: "length (digits_loop 10 (unat x) []) \<le> 10" for x :: u32
    by (rule digits_loop_length) (use w [of x] in simp_all)
  have d20: "length (digits_loop 10 (unat x) []) \<le> 20" for x :: u64
    by (rule digits_loop_length) (use unat_less_2_64 [of x] in simp_all)
  have d8: "length (digits_loop 8 (unat x) []) \<le> 11" for x :: u32
    by (rule digits_loop_length) (use w [of x] in simp_all)
  show ?thesis
    using d10 [of w] d10 [of "- w"] d20 [of v] d20 [of "- v"] d8 [of w]
    by (auto simp: i2s_text_def uint_buf_def octal_buf_def llu_buf_def lld_buf_def pad4_def Let_def)
qed

text \<open>\<^verbatim>\<open>serial_fwrite\<close> knows no widths: the directive \<^verbatim>\<open>%016X\<close> that the exception handler
  uses for \<^verbatim>\<open>CR2\<close> is logged literally, whatever the argument.\<close>

theorem serial_width_unsupported:
  "serial_text ''%016X'' [VInt v] = Some ''%016X''"
  by (simp add: fits_simps)
end
