(* ===== verification/Allocator.thy ===== *)
theory Allocator
  imports Prelude
begin

text \<open>
  The contract between the page allocator and the code that calls it (the virtual memory
  manager, the scheduler, \<^verbatim>\<open>test_sched\<close>). A client sees an operation that returns a page
  or the null pointer, an operation that gives a page back, and memory. The allocator keeps
  its bookkeeping in memory, in the region \<open>meta\<close>; \<open>pages\<close> are the addresses it hands
  out, \<open>live\<close> those currently handed out, \<open>owned\<close> those it takes back.
\<close>

locale page_allocator =
  fixes alloc :: "'c \<Rightarrow> mem \<Rightarrow> u64 \<times> mem"
    and release :: "'c \<Rightarrow> u64 \<Rightarrow> mem \<Rightarrow> mem"
    and ok :: "'c \<Rightarrow> bool"
    and pages :: "'c \<Rightarrow> u64 set"
    and owned :: "'c \<Rightarrow> u64 set"
    and live :: "'c \<Rightarrow> mem \<Rightarrow> u64 set"
    and meta :: "'c \<Rightarrow> u64 set"
  assumes alloc_page: "ok c \<Longrightarrow> alloc c m = (p, m') \<Longrightarrow> p \<noteq> 0 \<Longrightarrow>
      p \<in> pages c \<and> p \<notin> live c m \<and> live c m' = insert p (live c m)"
    and alloc_full: "ok c \<Longrightarrow> alloc c m = (0, m') \<Longrightarrow> live c m = pages c \<and> m' = m"
    and alloc_frame: "ok c \<Longrightarrow> alloc c m = (p, m') \<Longrightarrow> a \<notin> meta c \<Longrightarrow> m' a = m a"
    and release_live: "ok c \<Longrightarrow> p \<in> owned c \<Longrightarrow> live c (release c p m) = live c m - {p}"
    and release_zero: "ok c \<Longrightarrow> p \<in> owned c \<Longrightarrow> a \<in> region p 4096 \<Longrightarrow> release c p m a = 0"
    and release_frame: "ok c \<Longrightarrow> p \<in> owned c \<Longrightarrow> a \<notin> meta c \<Longrightarrow> a \<notin> region p 4096 \<Longrightarrow>
      release c p m a = m a"
    and live_pages: "ok c \<Longrightarrow> live c m \<subseteq> pages c"
    and live_cong: "ok c \<Longrightarrow> (\<And>a. a \<in> meta c \<Longrightarrow> m' a = m a) \<Longrightarrow> live c m' = live c m"
    and pages_finite: "ok c \<Longrightarrow> finite (pages c)"
    and pages_nonzero: "ok c \<Longrightarrow> 0 \<notin> pages c"
    and owned_pages: "ok c \<Longrightarrow> owned c \<subseteq> pages c"
    and page_meta: "ok c \<Longrightarrow> p \<in> pages c \<Longrightarrow> region p 4096 \<inter> meta c = {}"
    and page_page: "ok c \<Longrightarrow> p \<in> pages c \<Longrightarrow> q \<in> pages c \<Longrightarrow> p \<noteq> q \<Longrightarrow>
      region p 4096 \<inter> region q 4096 = {}"

text \<open>A client that allocates several pages in a row.\<close>

fun alloc_many :: "('c \<Rightarrow> mem \<Rightarrow> u64 \<times> mem) \<Rightarrow> 'c \<Rightarrow> nat \<Rightarrow> mem \<Rightarrow> u64 list \<times> mem" where
  "alloc_many alloc c 0 m = ([], m)"
| "alloc_many alloc c (Suc n) m =
     (case alloc c m of (p, m1) \<Rightarrow> case alloc_many alloc c n m1 of (ps, m2) \<Rightarrow> (p # ps, m2))"

context page_allocator
begin

lemma alloc_cases:
  assumes "ok c" and "alloc c m = (p, m')"
  obtains (full) "p = 0" "m' = m" "live c m = pages c"
  | (page) "p \<noteq> 0" "p \<in> pages c" "p \<notin> live c m" "live c m' = insert p (live c m)"
  using alloc_full [OF assms(1), of m m'] alloc_page [OF assms] assms(2) by (cases "p = 0") auto

lemma alloc_live_mono: "ok c \<Longrightarrow> alloc c m = (p, m') \<Longrightarrow> live c m \<subseteq> live c m'"
  by (erule (1) alloc_cases) auto

text \<open>Writing inside a page does not disturb the allocator.\<close>

lemma live_write_page:
  assumes "ok c" and "p \<in> pages c" and "\<And>a. a \<notin> region p 4096 \<Longrightarrow> m' a = m a"
  shows "live c m' = live c m"
  using page_meta [OF assms(1,2)] assms by (intro live_cong) auto

lemma alloc_fails_iff: "ok c \<Longrightarrow> fst (alloc c m) = 0 \<longleftrightarrow> live c m = pages c"
  by (cases "alloc c m", erule (1) alloc_cases) auto

text \<open>An allocator with a released page can serve again, and a full one serves exactly that page.\<close>

lemma alloc_after_release:
  assumes "ok c" and "p \<in> owned c" and "live c m = pages c"
  shows "fst (alloc c (release c p m)) = p"
proof (cases "alloc c (release c p m)")
  case (Pair q m')
  have l: "live c (release c p m) = pages c - {p}" using release_live [OF assms(1,2)] assms(3) by simp
  have "p \<in> pages c" using owned_pages assms(1,2) by blast
  from assms(1) Pair show ?thesis
  proof (cases rule: alloc_cases)
    case full
    with l \<open>p \<in> pages c\<close> have False by blast
    then show ?thesis ..
  next
    case page
    with l Pair show ?thesis by simp
  qed
qed

lemma alloc_many_spec:
  assumes "ok c" and "alloc_many alloc c n m = (ps, m')"
  shows "length ps = n \<and> distinct (filter (\<lambda>p. p \<noteq> 0) ps) \<and>
    set ps \<subseteq> insert 0 (pages c - live c m) \<and> live c m' = live c m \<union> (set ps - {0}) \<and>
    (0 \<in> set ps \<longrightarrow> live c m' = pages c)"
  using assms(2)
proof (induction n arbitrary: m ps)
  case 0
  then show ?case by simp
next
  case (Suc n)
  then obtain p m1 qs where a: "alloc c m = (p, m1)" and r: "alloc_many alloc c n m1 = (qs, m')"
    and ps: "ps = p # qs"
    by (auto split: prod.splits)
  note IH = Suc.IH [OF r]
  from assms(1) a show ?case
  proof (cases rule: alloc_cases)
    case full
    with IH ps live_pages [OF assms(1), of m'] show ?thesis by auto
  next
    case page
    with IH ps show ?thesis by auto
  qed
qed

text \<open>Requests succeed as long as there are pages: the count of granted pages is exact.\<close>

lemma alloc_many_count:
  assumes "ok c" and "alloc_many alloc c n m = (ps, m')" and "n \<le> card (pages c - live c m)"
  shows "0 \<notin> set ps" and "distinct ps"
proof -
  note s = alloc_many_spec [OF assms(1,2)]
  have fin: "finite (pages c)" by (rule pages_finite [OF assms(1)])
  show z: "0 \<notin> set ps"
  proof
    assume "0 \<in> set ps"
    with s have "pages c - live c m \<subseteq> set (filter (\<lambda>p. p \<noteq> 0) ps)" by auto
    then have "card (pages c - live c m) \<le> length (filter (\<lambda>p. p \<noteq> 0) ps)"
      by (meson List.finite_set card_length card_mono le_trans)
    also have "\<dots> < length ps" using \<open>0 \<in> set ps\<close> by (auto intro: length_filter_less)
    finally show False using s assms(3) by simp
  qed
  then have "filter (\<lambda>p. p \<noteq> 0) ps = ps" by (auto simp: filter_id_conv)
  with s show "distinct ps" by simp
qed

end

end
