(* ===== verification/PMM.thy ===== *)
theory PMM
  imports CString Serial Allocator
begin

text \<open>
  Model of the physical memory manager, \<^verbatim>\<open>src/ASNU/src/PMM/pmm.c\<close>: a bitmap of 4096-byte
  pages in byte memory, the first-fit searches of \<^verbatim>\<open>kalloc\<close> and \<^verbatim>\<open>palloc\<close>, and
  \<^verbatim>\<open>kfree\<close>. The manager's globals \<^verbatim>\<open>pmm_file_ins\<close> and \<^verbatim>\<open>bitmap_file_ins\<close> are records;
  after \<^verbatim>\<open>pmm_init\<close> they do not change, and the bitmap itself lives in memory.
\<close>

section \<open>State\<close>

record BitmapFile =
  bf_base :: u64
  bf_length :: u64
  bf_type :: u32

record PmmFile =
  pf_base :: u64
  pf_length :: u64
  pf_type :: u32
  pf_flags :: u32
  pf_reserved :: u32
  pf_bitmap_base :: u64
  pf_bitmap_length :: u64
  pf_bitmap_file :: BitmapFile

section \<open>Operations\<close>

text \<open>\<^verbatim>\<open>(uint8_t)(1u << bit_index)\<close> with \<^verbatim>\<open>uint8_t bit_index = index % 8\<close>.\<close>

definition page_bit :: "u64 \<Rightarrow> u8" where
  "page_bit index = ucast (push_bit (unat (ucast (index mod 8) :: u8)) 1 :: u32)"

definition BitmapSetBit :: "PmmFile \<Rightarrow> u64 \<Rightarrow> mem \<Rightarrow> mem" where
  "BitmapSetBit pm index m =
     (if index \<ge> pf_bitmap_length pm * 8 then m
      else let byte_index = index div 8
           in m(pf_bitmap_base pm + byte_index :=
                m (pf_bitmap_base pm + byte_index) OR page_bit index))"

definition BitmapClearBit :: "PmmFile \<Rightarrow> u64 \<Rightarrow> mem \<Rightarrow> mem" where
  "BitmapClearBit pm index m =
     (if index \<ge> pf_bitmap_length pm * 8 then m
      else let byte_index = index div 8; bit_index = (ucast (index mod 8) :: u8)
           in m(pf_bitmap_base pm + byte_index :=
                m (pf_bitmap_base pm + byte_index) AND
                ucast (NOT (push_bit (unat bit_index) 1 :: u32))))"

text \<open>
  The searches of \<^verbatim>\<open>kalloc\<close> and \<^verbatim>\<open>palloc\<close> are two copies of one loop in the source;
  \<^verbatim>\<open>kalloc\<close> returns from inside it, \<^verbatim>\<open>palloc\<close> leaves it with the index found.
\<close>

function kalloc_loop :: "PmmFile \<Rightarrow> mem \<Rightarrow> u64 \<Rightarrow> u64 \<times> mem" where
  "kalloc_loop pm m i =
     (if i < pf_bitmap_length pm * 8 then
        (let a = pf_bitmap_base pm + i div 8
         in if m a AND page_bit i = 0
            then (pf_base pm + i * 4096, m(a := m a OR page_bit i))
            else kalloc_loop pm m (i + 1))
      else (0, m))"
  by pat_completeness auto
termination
  by (relation "measure (\<lambda>(pm, m, i). unat (pf_bitmap_length pm * 8) - unat i)")
    (auto simp: loop_decreases)

definition kalloc :: "PmmFile \<Rightarrow> u64 \<Rightarrow> mem \<Rightarrow> u64 \<times> mem" where
  "kalloc pm sz m =
     (if sz = 0 then (0, m)
      else let pages_needed = (sz + 4095) div 4096 in kalloc_loop pm m 0)"

definition UINT64_MAX :: u64 where
  "UINT64_MAX = 0xFFFFFFFFFFFFFFFF"

function palloc_loop :: "PmmFile \<Rightarrow> mem \<Rightarrow> u64 \<Rightarrow> u64 \<times> mem" where
  "palloc_loop pm m i =
     (if i < pf_bitmap_length pm * 8 then
        (let a = pf_bitmap_base pm + i div 8
         in if m a AND page_bit i = 0
            then (i, m(a := m a OR page_bit i))
            else palloc_loop pm m (i + 1))
      else (UINT64_MAX, m))"
  by pat_completeness auto
termination
  by (relation "measure (\<lambda>(pm, m, i). unat (pf_bitmap_length pm * 8) - unat i)")
    (auto simp: loop_decreases)

declare kalloc_loop.simps [simp del] palloc_loop.simps [simp del]

definition palloc :: "PmmFile \<Rightarrow> mem \<Rightarrow> u64 \<times> mem" where
  "palloc pm m =
     (case palloc_loop pm m 0 of (index, m') \<Rightarrow>
        if index = UINT64_MAX then (0, m') else (pf_base pm + index * 4096, m'))"

definition kfree :: "PmmFile \<Rightarrow> u64 \<Rightarrow> mem \<Rightarrow> mem" where
  "kfree pm p m =
     (if p = 0 then m
      else if p < pf_base pm \<or> p \<ge> pf_base pm + pf_length pm then m
      else memset (BitmapClearBit pm ((p - pf_base pm) div 4096) m) p 0 4096)"

section \<open>The bitmap as a set of pages\<close>

definition page_count :: "PmmFile \<Rightarrow> nat" where
  "page_count pm = unat (pf_bitmap_length pm) * 8"

definition page_addr :: "PmmFile \<Rightarrow> nat \<Rightarrow> u64" where
  "page_addr pm i = pf_base pm + of_nat i * 4096"

definition page_used :: "PmmFile \<Rightarrow> mem \<Rightarrow> nat \<Rightarrow> bool" where
  "page_used pm m i \<longleftrightarrow> bit (m (pf_bitmap_base pm + of_nat (i div 8))) (i mod 8)"

definition bitmap_region :: "PmmFile \<Rightarrow> u64 set" where
  "bitmap_region pm = region (pf_bitmap_base pm) (unat (pf_bitmap_length pm))"

definition page :: "PmmFile \<Rightarrow> nat \<Rightarrow> u64 set" where
  "page pm i = region (page_addr pm i) 4096"

text \<open>
  What the manager relies on: the pages of the bitmap fit below the end of the address
  space and do not start at the null page, and the bitmap does not lie inside them.
\<close>

definition pmm_ok :: "PmmFile \<Rightarrow> bool" where
  "pmm_ok pm \<longleftrightarrow> pf_base pm \<noteq> 0 \<and>
     unat (pf_base pm) + page_count pm * 4096 \<le> 2 ^ 64 \<and>
     bitmap_region pm \<inter> region (pf_base pm) (page_count pm * 4096) = {}"

text \<open>The index a first-fit search takes.\<close>

definition first_free :: "PmmFile \<Rightarrow> mem \<Rightarrow> nat \<Rightarrow> nat option" where
  "first_free pm m i = find (\<lambda>j. \<not> page_used pm m j) [i..<page_count pm]"

definition mark :: "PmmFile \<Rightarrow> nat \<Rightarrow> mem \<Rightarrow> mem" where
  "mark pm i m = m(pf_bitmap_base pm + of_nat (i div 8) :=
     m (pf_bitmap_base pm + of_nat (i div 8)) OR 2 ^ (i mod 8))"

definition unmark :: "PmmFile \<Rightarrow> nat \<Rightarrow> mem \<Rightarrow> mem" where
  "unmark pm i m = m(pf_bitmap_base pm + of_nat (i div 8) :=
     m (pf_bitmap_base pm + of_nat (i div 8)) AND NOT (2 ^ (i mod 8)))"

lemma of_nat_div_u64: "i < 2 ^ 64 \<Longrightarrow> (of_nat i :: u64) div 8 = of_nat (i div 8)"
  by (simp add: word_unat_eq_iff unat_div unat_of_nat)

lemma of_nat_mod_u64: "i < 2 ^ 64 \<Longrightarrow> (of_nat i :: u64) mod 8 = of_nat (i mod 8)"
  by (simp add: word_unat_eq_iff unat_mod unat_of_nat)

lemma bit_index_of_nat: "i < 2 ^ 64 \<Longrightarrow> unat (ucast ((of_nat i :: u64) mod 8) :: u8) = i mod 8"
proof -
  assume "i < 2 ^ 64"
  moreover have "i mod 8 < 8" by simp
  ultimately show ?thesis by (simp add: of_nat_mod_u64 unsigned_of_nat take_bit_nat_eq_self)
qed

lemma page_bit_of_nat: "i < 2 ^ 64 \<Longrightarrow> page_bit (of_nat i) = 2 ^ (i mod 8)"
  by (rule bit_eqI) (auto simp: page_bit_def bit_index_of_nat bit_simps)

lemma page_count_u64:
  assumes "pmm_ok pm"
  shows "page_count pm * 4096 < 2 ^ 64" "unat (pf_bitmap_length pm * 8) = page_count pm"
proof -
  have "0 < unat (pf_base pm)" using assms by (simp add: pmm_ok_def unat_gt_0)
  with assms show b: "page_count pm * 4096 < 2 ^ 64" by (simp add: pmm_ok_def)
  then show "unat (pf_bitmap_length pm * 8) = page_count pm"
    by (simp add: page_count_def unat_word_ariths)
qed

lemma less_page_count:
  "pmm_ok pm \<Longrightarrow> i < 2 ^ 64 \<Longrightarrow> (of_nat i :: u64) < pf_bitmap_length pm * 8 \<longleftrightarrow> i < page_count pm"
  by (simp add: word_less_nat_alt page_count_u64 unat_of_nat)

lemma first_free_step:
  "i < page_count pm \<Longrightarrow>
    first_free pm m i = (if page_used pm m i then first_free pm m (Suc i) else Some i)"
  by (simp add: first_free_def upt_conv_Cons)

lemma first_free_end: "page_count pm \<le> i \<Longrightarrow> first_free pm m i = None"
  by (simp add: first_free_def)

lemma test_page_bit:
  "m (pf_bitmap_base pm + of_nat (i div 8)) AND 2 ^ (i mod 8) = 0 \<longleftrightarrow> \<not> page_used pm m i"
  by (simp add: page_used_def and_exp_eq_0_iff_not_bit)

text \<open>Both loops take the first free page at or after their start index, and mark it.\<close>

lemma palloc_loop_first_free:
  assumes "pmm_ok pm" and "i \<le> page_count pm"
  shows "palloc_loop pm m (of_nat i) =
    (case first_free pm m i of None \<Rightarrow> (UINT64_MAX, m) | Some j \<Rightarrow> (of_nat j, mark pm j m))"
  using assms(2)
proof (induction "page_count pm - i" arbitrary: i)
  case 0
  then have "i = page_count pm" by simp
  with page_count_u64 [OF assms(1)] show ?case
    by (subst palloc_loop.simps) (simp add: less_page_count assms(1) first_free_end)
next
  case (Suc k)
  then have i: "i < page_count pm" by simp
  with page_count_u64 [OF assms(1)] have "i < 2 ^ 64" by simp
  moreover have "of_nat i + (1 :: u64) = of_nat (Suc i)" by simp
  ultimately show ?case
    using Suc.hyps(1) [of "Suc i"] Suc.hyps(2) i
    by (subst palloc_loop.simps)
      (simp add: less_page_count assms(1) first_free_step test_page_bit Let_def mark_def
        of_nat_div_u64 page_bit_of_nat del: of_nat_Suc)
qed

lemma UINT64_MAX_not_less [simp]: "\<not> UINT64_MAX < n"
proof -
  have "UINT64_MAX = - 1" by (simp add: UINT64_MAX_def)
  then show ?thesis by (metis not_less word_n1_ge)
qed

lemma less_not_UINT64_MAX: "(i :: u64) < n \<Longrightarrow> i \<noteq> UINT64_MAX"
  by auto

lemma kalloc_loop_palloc_loop:
  "kalloc_loop pm m i =
    (case palloc_loop pm m i of (j, m') \<Rightarrow>
      if j = UINT64_MAX then (0, m') else (pf_base pm + j * 4096, m'))"
proof (induction pm m i rule: palloc_loop.induct)
  case (1 pm m i)
  then show ?case
    by (subst palloc_loop.simps, subst kalloc_loop.simps) (auto simp: Let_def less_not_UINT64_MAX)
qed

lemma palloc_first_free:
  assumes "pmm_ok pm"
  shows "palloc pm m =
    (case first_free pm m 0 of None \<Rightarrow> (0, m) | Some j \<Rightarrow> (page_addr pm j, mark pm j m))"
proof -
  have "of_nat j \<noteq> UINT64_MAX" if "first_free pm m 0 = Some j" for j
    using that assms page_count_u64 [OF assms] less_page_count [OF assms, of j]
    by (auto simp: first_free_def find_Some_iff)
  with palloc_loop_first_free [OF assms, of 0] show ?thesis
    by (auto simp: palloc_def page_addr_def split: option.split)
qed

lemma kalloc_palloc: "sz \<noteq> 0 \<Longrightarrow> kalloc pm sz m = palloc pm m"
  by (simp add: kalloc_def palloc_def kalloc_loop_palloc_loop)


lemma first_free_SomeD:
  assumes "first_free pm m 0 = Some j"
  shows "j < page_count pm" "\<not> page_used pm m j" "\<And>k. k < j \<Longrightarrow> page_used pm m k"
  using assms by (auto simp: first_free_def find_Some_iff)

lemma first_free_None_iff: "first_free pm m 0 = None \<longleftrightarrow> (\<forall>i < page_count pm. page_used pm m i)"
  by (auto simp: first_free_def find_None_iff)

text \<open>Setting and clearing a bit changes exactly one page's bit.\<close>

lemma byte_index_inject:
  assumes "pmm_ok pm" and "i < page_count pm" and "j < page_count pm"
  shows "pf_bitmap_base pm + of_nat (i div 8) = pf_bitmap_base pm + of_nat (j div 8) \<longleftrightarrow>
    i div 8 = j div 8"
proof -
  have "i div 8 < 2 ^ 64" "j div 8 < 2 ^ 64" using assms page_count_u64 [OF assms(1)] by simp_all
  then show ?thesis by (auto dest!: of_nat_u64_inject [THEN iffD1, rotated 2])
qed

lemma div_mod_8_inject: "(i :: nat) div 8 = j div 8 \<Longrightarrow> i mod 8 = j mod 8 \<Longrightarrow> i = j"
  by (metis div_mult_mod_eq)

lemma bit_index_iff:
  assumes "i div 8 = j div 8"
  shows "bit (2 ^ (i mod 8) :: u8) (j mod 8) \<longleftrightarrow> j = i"
proof -
  have "j mod 8 < 8" by simp
  then have "bit (2 ^ (i mod 8) :: u8) (j mod 8) \<longleftrightarrow> i mod 8 = j mod 8"
    by (auto simp add: bit_exp_iff)
  with assms show ?thesis by (auto dest: div_mod_8_inject)
qed

lemma page_used_mark [mem_simps]:
  assumes "pmm_ok pm" and "i < page_count pm" and "j < page_count pm"
  shows "page_used pm (mark pm i m) j \<longleftrightarrow> j = i \<or> page_used pm m j"
proof (cases "i div 8 = j div 8")
  case True
  then show ?thesis by (auto simp: page_used_def mark_def bit_or_iff bit_index_iff)
next
  case False
  with byte_index_inject [OF assms] show ?thesis by (auto simp: page_used_def mark_def)
qed

lemma page_used_unmark [mem_simps]:
  assumes "pmm_ok pm" and "i < page_count pm" and "j < page_count pm"
  shows "page_used pm (unmark pm i m) j \<longleftrightarrow> j \<noteq> i \<and> page_used pm m j"
proof (cases "i div 8 = j div 8")
  case True
  then show ?thesis
    by (auto simp: page_used_def unmark_def bit_and_iff bit_not_iff bit_index_iff)
next
  case False
  with byte_index_inject [OF assms] show ?thesis by (auto simp: page_used_def unmark_def)
qed

lemma mark_outside [mem_simps]:
  assumes "pmm_ok pm" and "i < page_count pm" and "a \<notin> bitmap_region pm"
  shows "mark pm i m a = m a" "unmark pm i m a = m a"
proof -
  have "i div 8 < unat (pf_bitmap_length pm)" "i div 8 < 2 ^ 64"
    using assms(2) page_count_u64 [OF assms(1)] by (simp_all add: page_count_def div_less_iff_less_mult)
  then have "pf_bitmap_base pm + of_nat (i div 8) \<in> bitmap_region pm"
    by (simp add: bitmap_region_def region_offset)
  with assms(3) show "mark pm i m a = m a" "unmark pm i m a = m a"
    by (auto simp: mark_def unmark_def)
qed

lemma page_used_cong:
  assumes "i < page_count pm" and "\<And>a. a \<in> bitmap_region pm \<Longrightarrow> m' a = m a"
  shows "page_used pm m' i \<longleftrightarrow> page_used pm m i"
proof -
  have "i div 8 < unat (pf_bitmap_length pm)"
    using assms(1) by (simp add: page_count_def div_less_iff_less_mult)
  moreover have "i div 8 < 2 ^ 64" using calculation unat_less_2_64 [of "pf_bitmap_length pm"] by simp
  ultimately have "pf_bitmap_base pm + of_nat (i div 8) \<in> bitmap_region pm"
    by (simp add: bitmap_region_def region_offset)
  with assms(2) show ?thesis by (simp add: page_used_def)
qed

text \<open>Pages are disjoint from each other and from the bitmap, and none is the null page.\<close>

lemma unat_page_addr:
  assumes "pmm_ok pm" and "i < page_count pm"
  shows "unat (page_addr pm i) = unat (pf_base pm) + i * 4096"
proof -
  have "page_addr pm i = pf_base pm + of_nat (i * 4096)" by (simp add: page_addr_def)
  moreover have "unat (pf_base pm) + page_count pm * 4096 \<le> 2 ^ 64" "i * 4096 < page_count pm * 4096"
    using assms by (simp_all add: pmm_ok_def)
  ultimately show ?thesis by (simp only: unat_offset)
qed

lemma page_addr_inject:
  assumes "pmm_ok pm" and "i < page_count pm" and "j < page_count pm"
  shows "page_addr pm i = page_addr pm j \<longleftrightarrow> i = j"
proof
  assume "page_addr pm i = page_addr pm j"
  then have "unat (pf_base pm) + i * 4096 = unat (pf_base pm) + j * 4096"
    by (simp only: unat_page_addr [OF assms(1,2), symmetric] unat_page_addr [OF assms(1,3), symmetric])
  then show "i = j" by simp
qed simp

lemma page_addr_nonzero:
  assumes "pmm_ok pm" and "i < page_count pm"
  shows "page_addr pm i \<noteq> 0"
proof -
  have "0 < unat (pf_base pm)" using assms(1) by (simp add: pmm_ok_def unat_gt_0)
  then have "0 < unat (page_addr pm i)" using unat_page_addr [OF assms] by simp
  then show ?thesis by auto
qed

lemma unat_in_page:
  assumes "pmm_ok pm" and "i < page_count pm" and "a \<in> page pm i"
  shows "unat a = unat (pf_base pm) + i * 4096 + unat (a - page_addr pm i)"
    and "unat (a - page_addr pm i) < 4096"
proof -
  obtain k where k: "k < 4096" "a = page_addr pm i + of_nat k"
    using assms(3) by (auto simp: page_def elim: region_obtain)
  have "unat (pf_base pm) + page_count pm * 4096 \<le> 2 ^ 64" using assms(1) by (simp add: pmm_ok_def)
  with assms(2) have "unat (page_addr pm i) + 4096 \<le> 2 ^ 64"
    using unat_page_addr [OF assms(1,2)] by simp
  then have "unat a = unat (page_addr pm i) + k" using k(2) unat_offset [OF _ k(1)] by blast
  moreover have "unat (a - page_addr pm i) = k" using k by (simp add: unat_of_nat)
  ultimately show "unat a = unat (pf_base pm) + i * 4096 + unat (a - page_addr pm i)"
    and "unat (a - page_addr pm i) < 4096"
    using unat_page_addr [OF assms(1,2)] k(1) by simp_all
qed

lemma page_disjoint:
  assumes "pmm_ok pm" and "i < page_count pm" and "j < page_count pm" and "i \<noteq> j"
  shows "page pm i \<inter> page pm j = {}"
proof -
  have False if "a \<in> page pm i" "a \<in> page pm j" for a
    using unat_in_page [OF assms(1,2) that(1)] unat_in_page [OF assms(1,3) that(2)] assms(4)
    by (cases "i < j") (auto simp: neq_iff)
  then show ?thesis by blast
qed

lemma page_subset_pool:
  assumes "pmm_ok pm" and "i < page_count pm"
  shows "page pm i \<subseteq> region (pf_base pm) (page_count pm * 4096)"
proof
  fix a assume a: "a \<in> page pm i"
  have "unat a = unat (pf_base pm) + (i * 4096 + unat (a - page_addr pm i))"
    using unat_in_page [OF assms a] by simp
  moreover from this have "pf_base pm \<le> a" by (simp add: word_le_nat_alt)
  ultimately have "unat (a - pf_base pm) = i * 4096 + unat (a - page_addr pm i)"
    by (simp add: unat_sub)
  also have "\<dots> < page_count pm * 4096" using unat_in_page [OF assms a] assms(2) by simp
  finally show "a \<in> region (pf_base pm) (page_count pm * 4096)" by (simp add: region_def)
qed

lemma page_bitmap_disjoint:
  assumes "pmm_ok pm" and "i < page_count pm"
  shows "page pm i \<inter> bitmap_region pm = {}"
proof -
  have "bitmap_region pm \<inter> region (pf_base pm) (page_count pm * 4096) = {}"
    using assms(1) by (simp only: pmm_ok_def)
  with page_subset_pool [OF assms] show ?thesis by blast
qed

section \<open>What the operations do\<close>

text \<open>Allocation, on every branch.\<close>

lemma palloc_cases:
  assumes "pmm_ok pm"
  obtains (full) "\<And>i. i < page_count pm \<Longrightarrow> page_used pm m i" and "palloc pm m = (0, m)"
  | (page) j where "j < page_count pm" and "\<not> page_used pm m j"
      and "\<And>k. k < j \<Longrightarrow> page_used pm m k" and "palloc pm m = (page_addr pm j, mark pm j m)"
proof (cases "first_free pm m 0")
  case None
  then have "palloc pm m = (0, m)" by (simp add: palloc_first_free [OF assms])
  with None show ?thesis using full by (simp add: first_free_None_iff)
next
  case (Some j)
  then have "palloc pm m = (page_addr pm j, mark pm j m)" by (simp add: palloc_first_free [OF assms])
  then show ?thesis using page [of j] first_free_SomeD [OF Some] by blast
qed

lemma BitmapClearBit_unmark:
  assumes "pmm_ok pm" and "i < page_count pm"
  shows "BitmapClearBit pm (of_nat i) m = unmark pm i m"
proof -
  have i: "i < 2 ^ 64" using assms page_count_u64 [OF assms(1)] by simp
  have "ucast (NOT (push_bit (i mod 8) 1 :: u32)) = (NOT (2 ^ (i mod 8)) :: u8)"
    by (rule bit_eqI) (auto simp: bit_simps)
  moreover have "\<not> pf_bitmap_length pm * 8 \<le> of_nat i"
    using less_page_count [OF assms(1) i] assms(2) by (simp add: not_le)
  ultimately show ?thesis
    by (simp add: BitmapClearBit_def unmark_def Let_def of_nat_div_u64 [OF i] bit_index_of_nat [OF i])
qed

lemma BitmapSetBit_mark:
  assumes "pmm_ok pm" and "i < page_count pm"
  shows "BitmapSetBit pm (of_nat i) m = mark pm i m"
proof -
  have i: "i < 2 ^ 64" using assms page_count_u64 [OF assms(1)] by simp
  have "\<not> pf_bitmap_length pm * 8 \<le> of_nat i"
    using less_page_count [OF assms(1) i] assms(2) by (simp add: not_le)
  then show ?thesis
    by (simp add: BitmapSetBit_def mark_def Let_def of_nat_div_u64 [OF i] page_bit_of_nat [OF i])
qed

lemma page_index_div:
  assumes "pmm_ok pm" and "i < page_count pm" and "a \<in> page pm i"
  shows "(a - pf_base pm) div 4096 = of_nat i"
proof -
  have i: "i < 2 ^ 64" using assms page_count_u64 [OF assms(1)] by simp
  have "pf_base pm \<le> a"
    using unat_in_page(1) [OF assms] by (simp add: word_le_nat_alt)
  then have "unat (a - pf_base pm) = i * 4096 + unat (a - page_addr pm i)"
    using unat_in_page(1) [OF assms] by (simp add: unat_sub)
  then have "unat ((a - pf_base pm) div 4096) = i"
    using unat_in_page(2) [OF assms] by (simp add: unat_div)
  then show ?thesis using i by (simp add: word_unat_eq_iff unat_of_nat)
qed

text \<open>The pages that lie wholly inside the managed region \<^verbatim>\<open>[base, base + length)\<close>.\<close>

definition page_inside :: "PmmFile \<Rightarrow> nat \<Rightarrow> bool" where
  "page_inside pm i \<longleftrightarrow> i * 4096 + 4096 \<le> unat (pf_length pm)"

lemma kfree_page:
  assumes "pmm_ok pm" and "i < page_count pm" and "page_inside pm i"
    and "unat (pf_base pm) + unat (pf_length pm) < 2 ^ 64"
  shows "kfree pm (page_addr pm i) m = memset (unmark pm i m) (page_addr pm i) 0 4096"
proof -
  have u: "unat (page_addr pm i) = unat (pf_base pm) + i * 4096" by (rule unat_page_addr [OF assms(1,2)])
  have e: "unat (pf_base pm + pf_length pm) = unat (pf_base pm) + unat (pf_length pm)"
    using assms(4) by (simp add: unat_word_ariths)
  have "\<not> page_addr pm i < pf_base pm" "\<not> pf_base pm + pf_length pm \<le> page_addr pm i"
    using u e assms(3) by (simp_all add: word_less_nat_alt word_le_nat_alt page_inside_def)
  moreover have "(page_addr pm i - pf_base pm) div 4096 = of_nat i"
    by (rule page_index_div [OF assms(1,2)]) (simp add: page_def)
  ultimately show ?thesis
    using page_addr_nonzero [OF assms(1,2)] BitmapClearBit_unmark [OF assms(1,2)]
    by (simp add: kfree_def)
qed

section \<open>The manager implements the page allocator contract\<close>

definition pmm_pages :: "PmmFile \<Rightarrow> u64 set" where
  "pmm_pages pm = page_addr pm ` {i. i < page_count pm}"

definition pmm_owned :: "PmmFile \<Rightarrow> u64 set" where
  "pmm_owned pm = page_addr pm ` {i. i < page_count pm \<and> page_inside pm i}"

definition pmm_live :: "PmmFile \<Rightarrow> mem \<Rightarrow> u64 set" where
  "pmm_live pm m = page_addr pm ` {i. i < page_count pm \<and> page_used pm m i}"

text \<open>The end of the managed region is inside the address space as well.\<close>

definition pmm_fits :: "PmmFile \<Rightarrow> bool" where
  "pmm_fits pm \<longleftrightarrow> pmm_ok pm \<and> unat (pf_base pm) + unat (pf_length pm) < 2 ^ 64"

lemma pmm_live_mark:
  assumes "pmm_ok pm" and "j < page_count pm"
  shows "pmm_live pm (mark pm j m) = insert (page_addr pm j) (pmm_live pm m)"
  using assms by (auto simp: pmm_live_def page_used_mark)

lemma pmm_live_unmark:
  assumes "pmm_ok pm" and "j < page_count pm"
  shows "pmm_live pm (unmark pm j m) = pmm_live pm m - {page_addr pm j}"
  using assms by (auto simp: pmm_live_def page_used_unmark page_addr_inject)

lemma page_addr_live_iff:
  "pmm_ok pm \<Longrightarrow> j < page_count pm \<Longrightarrow> page_addr pm j \<in> pmm_live pm m \<longleftrightarrow> page_used pm m j"
  by (auto simp: pmm_live_def page_addr_inject)

lemma pmm_live_cong:
  "(\<And>a. a \<in> bitmap_region pm \<Longrightarrow> m' a = m a) \<Longrightarrow> pmm_live pm m' = pmm_live pm m"
  using page_used_cong [of _ pm m' m] by (auto simp: pmm_live_def)

lemma kfree_owned:
  assumes "pmm_fits pm" and "p \<in> pmm_owned pm"
  obtains i where "i < page_count pm" "p = page_addr pm i"
    "kfree pm p m = memset (unmark pm i m) p 0 4096"
  using assms kfree_page by (auto simp: pmm_owned_def pmm_fits_def)

interpretation pmm: page_allocator palloc kfree pmm_fits pmm_pages pmm_owned pmm_live bitmap_region
proof (unfold_locales, goal_cases)
  case (1 pm m p m')
  then have ok: "pmm_ok pm" by (simp add: pmm_fits_def)
  show ?case
    using 1 ok by (cases rule: palloc_cases [OF ok, of m])
      (auto simp: pmm_live_mark page_addr_live_iff pmm_pages_def)
next
  case (2 pm m m')
  then have ok: "pmm_ok pm" by (simp add: pmm_fits_def)
  show ?case
    using 2 page_addr_nonzero [OF ok]
    by (cases rule: palloc_cases [OF ok, of m]) (auto simp: pmm_live_def pmm_pages_def)
next
  case (3 pm m p m' a)
  then have ok: "pmm_ok pm" by (simp add: pmm_fits_def)
  show ?case
    using 3 ok by (cases rule: palloc_cases [OF ok, of m]) (auto simp: mark_outside)
next
  case (4 pm p m)
  then have ok: "pmm_ok pm" by (simp add: pmm_fits_def)
  from 4 obtain i where i: "i < page_count pm" "p = page_addr pm i"
    "kfree pm p m = memset (unmark pm i m) p 0 4096" by (rule kfree_owned)
  with page_bitmap_disjoint [OF ok i(1)]
  have "pmm_live pm (kfree pm p m) = pmm_live pm (unmark pm i m)"
    by (intro pmm_live_cong) (auto simp: memset_apply page_def)
  with i ok show ?case by (simp add: pmm_live_unmark)
next
  case (5 pm p a m)
  then show ?case by (auto simp: memset_apply elim!: kfree_owned [where m = m])
next
  case (6 pm p a m)
  then have ok: "pmm_ok pm" by (simp add: pmm_fits_def)
  with 6 show ?case by (auto simp: memset_apply mark_outside elim!: kfree_owned [where m = m])
next
  case (7 pm m)
  then show ?case by (auto simp: pmm_live_def pmm_pages_def)
next
  case (8 pm m' m)
  then show ?case by (intro pmm_live_cong) auto
next
  case (9 pm)
  then show ?case by (simp add: pmm_pages_def)
next
  case (10 pm)
  then show ?case by (auto simp: pmm_pages_def pmm_fits_def dest!: page_addr_nonzero)
next
  case (11 pm)
  then show ?case by (auto simp: pmm_owned_def pmm_pages_def)
next
  case (12 pm p)
  then show ?case using page_bitmap_disjoint by (auto simp: pmm_pages_def pmm_fits_def page_def)
next
  case (13 pm p q)
  then show ?case using page_disjoint by (force simp: pmm_pages_def pmm_fits_def page_def)
qed

section \<open>Initialisation\<close>

text \<open>
  \<^verbatim>\<open>pmm_init\<close> logs its parameters, fills the two records and clears the bitmap; every field
  is written, so the result does not depend on what the globals held before.
\<close>

definition pmm_init ::
  "u32 \<Rightarrow> u64 \<Rightarrow> u64 \<Rightarrow> u64 \<Rightarrow> u64 \<Rightarrow> u64 \<Rightarrow> u64 \<Rightarrow> u64 \<Rightarrow> mem \<Rightarrow> machine \<Rightarrow>
     (PmmFile \<times> mem \<times> machine) option" where
  "pmm_init pmm_virt_mem largest_base largest_length second_largest_base second_largest_length
     total_memory total_usable_memory total_reserved_memory m k0 =
     do {
       k1 \<leftarrow> serial_fwrite ''Initializing Physical Memory Manager with the following parameters:'' [] k0;
       k2 \<leftarrow> serial_fwrite ''PMM Virtual Memory: %d'' [VInt (scast pmm_virt_mem)] k1;
       k3 \<leftarrow> serial_fwrite ''Largest Base: %p'' [VInt largest_base] k2;
       k4 \<leftarrow> serial_fwrite ''Largest Length: %llu'' [VInt largest_length] k3;
       k5 \<leftarrow> serial_fwrite ''Second Largest Base: %p'' [VInt second_largest_base] k4;
       k6 \<leftarrow> serial_fwrite ''Second Largest Length: %llu'' [VInt second_largest_length] k5;
       k7 \<leftarrow> serial_fwrite ''Total Memory: %llu'' [VInt total_memory] k6;
       k8 \<leftarrow> serial_fwrite ''Total Usable Memory: %llu'' [VInt total_usable_memory] k7;
       k9 \<leftarrow> serial_fwrite ''Total Reserved Memory: %llu'' [VInt total_reserved_memory] k8;
       k10 \<leftarrow> serial_fwrite ''Initializing PMM structures'' [] k9;
       let p_base = largest_base;
       let b_base = second_largest_base;
       k11 \<leftarrow> serial_fwrite ''Set p_base and b_base'' [] k10;
       k12 \<leftarrow> serial_fwrite ''Setting up PMM file structure'' [] k11;
       k13 \<leftarrow> serial_fwrite ''PMM file structure set'' [] k12;
       k14 \<leftarrow> serial_fwrite ''Setting up bitmap file structure'' [] k13;
       k15 \<leftarrow> serial_fwrite ''Bitmap file structure set'' [] k14;
       k16 \<leftarrow> serial_fwrite ''Calculating bitmap size'' [] k15;
       let bitmap_size = (largest_length div 4096 + 7) div 8;
       let pm = \<lparr>pf_base = p_base, pf_length = largest_length, pf_type = 0, pf_flags = 0,
                 pf_reserved = 0, pf_bitmap_base = b_base, pf_bitmap_length = bitmap_size,
                 pf_bitmap_file = \<lparr>bf_base = b_base, bf_length = bitmap_size, bf_type = 0\<rparr>\<rparr>;
       let m1 = memset m (pf_bitmap_base pm) 0 bitmap_size;
       k17 \<leftarrow> serial_fwrite ''Bitmap size calculated: %llu bytes'' [VInt bitmap_size] k16;
       let m2 = memset m1 second_largest_base 0 second_largest_length;
       let m3 = memset m2 (pf_bitmap_base pm) 0 (pf_bitmap_length pm);
       Some (pm, m3, k17)
     }"

lemma pmm_init_formats [log_formats]:
  "fits ''Initializing Physical Memory Manager with the following parameters:'' []"
  "fits ''PMM Virtual Memory: %d'' [VInt v]"
  "fits ''Largest Base: %p'' [VInt v]"
  "fits ''Largest Length: %llu'' [VInt v]"
  "fits ''Second Largest Base: %p'' [VInt v]"
  "fits ''Second Largest Length: %llu'' [VInt v]"
  "fits ''Total Memory: %llu'' [VInt v]"
  "fits ''Total Usable Memory: %llu'' [VInt v]"
  "fits ''Total Reserved Memory: %llu'' [VInt v]"
  "fits ''Initializing PMM structures'' []"
  "fits ''Set p_base and b_base'' []"
  "fits ''Setting up PMM file structure'' []"
  "fits ''PMM file structure set'' []"
  "fits ''Setting up bitmap file structure'' []"
  "fits ''Bitmap file structure set'' []"
  "fits ''Calculating bitmap size'' []"
  "fits ''Bitmap size calculated: %llu bytes'' [VInt v]"
  by (simp_all add: fits_simps)

lemma pmm_init_Some:
  assumes "i2s_ok k0"
  shows "\<exists>r. pmm_init v base len base2 len2 tm um rm m k0 = Some r \<and> i2s_ok (snd (snd r)) \<and>
      fst r = \<lparr>pf_base = base, pf_length = len, pf_type = 0, pf_flags = 0, pf_reserved = 0,
        pf_bitmap_base = base2, pf_bitmap_length = (len div 4096 + 7) div 8,
        pf_bitmap_file = \<lparr>bf_base = base2, bf_length = (len div 4096 + 7) div 8, bf_type = 0\<rparr>\<rparr> \<and>
        fst (snd r) = memset (memset (memset m base2 0 ((len div 4096 + 7) div 8)) base2 0 len2)
          base2 0 ((len div 4096 + 7) div 8)"
  unfolding pmm_init_def Let_def PmmFile.simps
  by (rule assms log_bind log_formats | assumption | simp)+

lemma pmm_init_ok:
  assumes "i2s_ok k0" and "base \<noteq> 0" and "unat base + unat len < 2 ^ 64"
    and "unat base + (unat len div 4096 + 7) div 8 * 8 * 4096 \<le> 2 ^ 64"
    and "region base2 ((unat len div 4096 + 7) div 8) \<inter>
      region base ((unat len div 4096 + 7) div 8 * 8 * 4096) = {}"
  shows "\<exists>pm m' k. pmm_init v base len base2 len2 tm um rm m k0 = Some (pm, m', k) \<and>
      pmm_fits pm \<and> pf_base pm = base \<and> pf_length pm = len \<and> pf_bitmap_base pm = base2 \<and>
      page_count pm = (unat len div 4096 + 7) div 8 * 8 \<and> pmm_live pm m' = {}"
proof -
  let ?b = "(len div 4096 + 7) div 8"
  have "unat len div 4096 < 2 ^ 52" using unat_less_2_64 [of len] by simp
  then have b: "unat ?b = (unat len div 4096 + 7) div 8"
    by (simp add: unat_div unat_word_ariths)
  obtain pm m' k where r: "pmm_init v base len base2 len2 tm um rm m k0 = Some (pm, m', k)"
    and pm: "pf_base pm = base" "pf_length pm = len" "pf_bitmap_base pm = base2" "pf_bitmap_length pm = ?b"
    and m': "m' = memset (memset (memset m base2 0 ?b) base2 0 len2) base2 0 ?b"
    using pmm_init_Some [OF assms(1), of v base len base2 len2 tm um rm m] by auto
  have c: "page_count pm = (unat len div 4096 + 7) div 8 * 8" by (simp add: page_count_def pm b)
  have "pmm_ok pm" using assms by (simp add: pmm_ok_def bitmap_region_def pm b c)
  then have f: "pmm_fits pm" using assms(3) by (simp add: pmm_fits_def pm)
  have "page_used pm m' i \<longleftrightarrow> page_used pm (\<lambda>_. 0) i" if "i < page_count pm" for i
    using that by (rule page_used_cong) (simp add: m' memset_apply bitmap_region_def pm)
  then have "pmm_live pm m' = {}" by (simp add: pmm_live_def page_used_def)
  with r f pm c show ?thesis by blast
qed

lemma pmm_init_dev:
  assumes "pmm_init v base len base2 len2 tm um rm m k0 = Some (pm, m', k)" and "i2s_ok k0"
  shows "i2s_ok k \<and> dev k = dev k0"
  using assms by (auto simp: pmm_init_def Let_def bind_eq_Some_conv dest!: log_dev)

section \<open>Properties\<close>

text \<open>A manager of 12 whole pages (and so a bitmap of two bytes, 16 bits) for the witnesses.\<close>

definition pmm_demo :: PmmFile where
  "pmm_demo = \<lparr>pf_base = 0x100000, pf_length = 0xC000, pf_type = 0, pf_flags = 0, pf_reserved = 0,
     pf_bitmap_base = 0x1000, pf_bitmap_length = 2,
     pf_bitmap_file = \<lparr>bf_base = 0x1000, bf_length = 2, bf_type = 0\<rparr>\<rparr>"

lemma pmm_demo_simps [simp]:
  "pf_base pmm_demo = 0x100000" "pf_length pmm_demo = 0xC000" "pf_bitmap_base pmm_demo = 0x1000"
  "pf_bitmap_length pmm_demo = 2" "page_count pmm_demo = 16"
  by (simp_all add: pmm_demo_def page_count_def)

lemma demo_disjoint: "region (0x1000 :: u64) 2 \<inter> region 0x100000 65536 = {}"
  by (rule region_disjoint) simp_all

lemma pmm_demo_fits: "pmm_fits pmm_demo"
  using demo_disjoint by (simp add: pmm_fits_def pmm_ok_def bitmap_region_def)

lemma pmm_demo_ok: "pmm_ok pmm_demo"
  using pmm_demo_fits by (simp add: pmm_fits_def)

lemma page_used_full: "page_used pm (\<lambda>_. 0xFF) i"
proof -
  have "(255 :: u8) = - 1" by simp
  then have "bit (255 :: u8) (i mod 8)" by (simp only: bit_minus_1_iff) simp
  then show ?thesis by (simp add: page_used_def)
qed

lemma first_free_SomeI:
  "j < page_count pm \<Longrightarrow> \<forall>i < j. page_used pm m i \<Longrightarrow> \<not> page_used pm m j \<Longrightarrow>
    first_free pm m 0 = Some j"
  by (auto simp: first_free_def find_Some_iff)

text \<open>C2: \<^verbatim>\<open>palloc\<close> is first fit: it fails, changing nothing, exactly when every page is in use;
  otherwise it returns the free page with the smallest index, sets that page's bit and no other,
  and writes no byte outside the bitmap.\<close>

theorem palloc_first_fit:
  assumes "pmm_ok pm"
  shows "(if \<forall>i < page_count pm. page_used pm m i then palloc pm m = (0, m)
     else let j = (LEAST j. j < page_count pm \<and> \<not> page_used pm m j); m' = snd (palloc pm m)
          in fst (palloc pm m) = page_addr pm j \<and> page_addr pm j \<noteq> 0 \<and>
             (\<forall>i < page_count pm. page_used pm m' i \<longleftrightarrow> i = j \<or> page_used pm m i) \<and>
             (\<forall>a. a \<notin> bitmap_region pm \<longrightarrow> m' a = m a))"
  using assms
proof (cases rule: palloc_cases [where m = m])
  case full
  then show ?thesis by simp
next
  case (page j)
  have "(LEAST j. j < page_count pm \<and> \<not> page_used pm m j) = j"
    using page by (intro Least_equality) (auto simp: not_less [symmetric])
  with page assms show ?thesis
    by (auto simp: Let_def page_used_mark page_addr_nonzero mark_outside)
qed

theorem palloc_first_fit_witness:
  "pmm_ok pmm_demo \<and> fst (palloc pmm_demo (\<lambda>_. 0)) = 0x100000 \<and> fst (palloc pmm_demo (\<lambda>_. 0xFF)) = 0"
proof -
  have "(LEAST j. j < 16 \<and> \<not> page_used pmm_demo (\<lambda>_. 0) j) = 0"
    by (rule Least_equality) (simp_all add: page_used_def)
  then have "fst (palloc pmm_demo (\<lambda>_. 0)) = 0x100000"
    using palloc_first_fit [OF pmm_demo_ok, of "\<lambda>_. 0"]
    by (auto simp: page_used_def page_addr_def Let_def dest: spec [of _ 0] split: if_splits)
  moreover have "fst (palloc pmm_demo (\<lambda>_. 0xFF)) = 0"
    using palloc_first_fit [OF pmm_demo_ok, of "\<lambda>_. 0xFF"] by (simp add: page_used_full)
  ultimately show ?thesis using pmm_demo_ok by simp
qed

text \<open>C9: \<^verbatim>\<open>kfree\<close> of a page inside the managed region frees that page and no other, zeroes its
  4096 bytes, and writes nothing else outside the bitmap.\<close>

theorem kfree_frees_page:
  assumes "pmm_fits pm" and "i < page_count pm" and "page_inside pm i"
  shows "(\<forall>j < page_count pm. page_used pm (kfree pm (page_addr pm i) m) j \<longleftrightarrow> j \<noteq> i \<and> page_used pm m j) \<and>
    (\<forall>a. kfree pm (page_addr pm i) m a =
       (if a \<in> page pm i then 0 else if a \<in> bitmap_region pm then unmark pm i m a else m a))"
proof -
  have ok: "pmm_ok pm" using assms(1) by (simp add: pmm_fits_def)
  have k: "kfree pm (page_addr pm i) m = memset (unmark pm i m) (page_addr pm i) 0 4096"
    using assms ok by (intro kfree_page) (simp_all add: pmm_fits_def)
  have b: "kfree pm (page_addr pm i) m a =
      (if a \<in> page pm i then 0 else if a \<in> bitmap_region pm then unmark pm i m a else m a)" for a
    using ok assms(2) by (simp add: k memset_apply page_def mark_outside)
  have "page_used pm (kfree pm (page_addr pm i) m) j \<longleftrightarrow> page_used pm (unmark pm i m) j"
    if "j < page_count pm" for j
    using page_bitmap_disjoint [OF ok assms(2)] that by (intro page_used_cong) (auto simp: b)
  with b ok assms(2) show ?thesis by (simp add: page_used_unmark)
qed

theorem kfree_frees_page_witness:
  "page_used pmm_demo (\<lambda>_. 1) 8 \<and> \<not> page_used pmm_demo (kfree pmm_demo 0x108000 (\<lambda>_. 1)) 8 \<and>
    kfree pmm_demo 0x108000 (\<lambda>_. 1) 0x108FFF = 0"
proof -
  have "page_addr pmm_demo 8 = 0x108000" by (simp add: page_addr_def)
  moreover have "(0x108FFF :: u64) \<in> page pmm_demo 8" by (simp add: page_def page_addr_def region_def)
  moreover have "page_used pmm_demo (\<lambda>_. 1) 8" by (simp add: page_used_def)
  ultimately show ?thesis
    using kfree_frees_page [OF pmm_demo_fits, of 8 "\<lambda>_. 1"]
    by (simp add: page_inside_def)
qed

text \<open>C14: A sequence of \<^verbatim>\<open>palloc\<close> calls no longer than the number of free pages succeeds at
  every call, and the pages returned are pairwise different, were free, and are in use afterwards.\<close>

theorem palloc_sequence:
  assumes "pmm_fits pm" and "n \<le> card (pmm_pages pm - pmm_live pm m)"
  shows "distinct (fst (alloc_many palloc pm n m)) \<and>
    length (fst (alloc_many palloc pm n m)) = n \<and>
    set (fst (alloc_many palloc pm n m)) \<subseteq> pmm_pages pm - pmm_live pm m \<and>
    pmm_live pm (snd (alloc_many palloc pm n m)) =
      pmm_live pm m \<union> set (fst (alloc_many palloc pm n m))"
proof -
  obtain ps m' where r: "alloc_many palloc pm n m = (ps, m')" by fastforce
  with pmm.alloc_many_spec [OF assms(1) r] pmm.alloc_many_count [OF assms(1) r assms(2)]
  show ?thesis by auto
qed

theorem palloc_sequence_witness:
  "distinct (fst (alloc_many palloc pmm_demo 3 (\<lambda>_. 0))) \<and>
    length (fst (alloc_many palloc pmm_demo 3 (\<lambda>_. 0))) = 3"
proof -
  have "pmm_live pmm_demo (\<lambda>_. 0) = {}" by (simp add: pmm_live_def page_used_def)
  moreover have "card (pmm_pages pmm_demo) = card {i. i < (16 :: nat)}"
    using page_addr_inject [OF pmm_demo_ok] by (simp add: pmm_pages_def card_image inj_on_def)
  ultimately have "3 \<le> card (pmm_pages pmm_demo - pmm_live pmm_demo (\<lambda>_. 0))" by simp
  from palloc_sequence [OF pmm_demo_fits this] show ?thesis by simp
qed

text \<open>After \<^verbatim>\<open>kfree\<close> of a page of a full pool, the next \<^verbatim>\<open>palloc\<close> returns that page,
  its 4096 bytes zero.\<close>

theorem palloc_after_kfree:
  assumes "pmm_fits pm" and "\<forall>i < page_count pm. page_used pm m i"
    and "i < page_count pm" and "page_inside pm i"
  shows "case palloc pm (kfree pm (page_addr pm i) m) of
      (p, m') \<Rightarrow> p = page_addr pm i \<and> (\<forall>a \<in> page pm i. m' a = 0)"
proof -
  have own: "page_addr pm i \<in> pmm_owned pm" using assms by (auto simp: pmm_owned_def)
  have "pmm_live pm m = pmm_pages pm" using assms(2) by (auto simp: pmm_live_def pmm_pages_def)
  from pmm.alloc_after_release [OF assms(1) own this] obtain m'
    where p: "palloc pm (kfree pm (page_addr pm i) m) = (page_addr pm i, m')" by (metis prod.collapse)
  have "m' a = 0" if "a \<in> page pm i" for a
  proof -
    have "a \<notin> bitmap_region pm" using page_bitmap_disjoint [of pm i] that assms by (auto simp: pmm_fits_def)
    with pmm.alloc_frame [OF assms(1) p] have "m' a = kfree pm (page_addr pm i) m a" by blast
    also have "\<dots> = 0" using that by (intro pmm.release_zero [OF assms(1) own]) (simp add: page_def)
    finally show ?thesis .
  qed
  with p show ?thesis by simp
qed

theorem palloc_after_kfree_witness:
  "fst (palloc pmm_demo (kfree pmm_demo 0x10B000 (\<lambda>_. 0xFF))) = 0x10B000"
proof -
  have "case palloc pmm_demo (kfree pmm_demo (page_addr pmm_demo 11) (\<lambda>_. 0xFF)) of
      (p, m') \<Rightarrow> p = page_addr pmm_demo 11 \<and> (\<forall>a \<in> page pmm_demo 11. m' a = 0)"
    by (intro palloc_after_kfree [OF pmm_demo_fits]) (simp_all add: page_inside_def page_used_full)
  then show ?thesis by (auto simp: page_addr_def split: prod.splits)
qed




text \<open>The bitmap is rounded up to whole bytes, so \<^verbatim>\<open>palloc\<close> hands out pages beyond
  \<^verbatim>\<open>base + length\<close> once the pages of the region are used, and \<^verbatim>\<open>kfree\<close> refuses to take
  such a page back: its bit stays set for ever.\<close>

theorem palloc_overrun:
  assumes "pmm_fits pm" and "j < page_count pm" and "unat (pf_length pm) \<le> j * 4096"
    and "\<forall>i < j. page_used pm m i" and "\<not> page_used pm m j"
  shows "fst (palloc pm m) = page_addr pm j \<and> pf_base pm + pf_length pm \<le> page_addr pm j \<and>
    kfree pm (page_addr pm j) (snd (palloc pm m)) = snd (palloc pm m)"
proof -
  have ok: "pmm_ok pm" using assms(1) by (simp add: pmm_fits_def)
  have "first_free pm m 0 = Some j"
    using assms(2,4,5) by (intro first_free_SomeI)
  then have p: "palloc pm m = (page_addr pm j, mark pm j m)" by (simp add: palloc_first_free [OF ok])
  have "unat (pf_base pm + pf_length pm) = unat (pf_base pm) + unat (pf_length pm)"
    using assms(1) by (simp add: pmm_fits_def unat_word_ariths)
  then have "pf_base pm + pf_length pm \<le> page_addr pm j"
    using assms(3) unat_page_addr [OF ok assms(2)] by (simp add: word_le_nat_alt)
  with p show ?thesis by (simp add: kfree_def)
qed

theorem palloc_overrun_witness:
  "fst (palloc pmm_demo (\<lambda>a. if a = 0x1000 then 0xFF else 0x0F)) = 0x10C000 \<and>
    pf_base pmm_demo + pf_length pmm_demo = 0x10C000"
proof -
  let ?m = "\<lambda>a. if a = 0x1000 then 0xFF else (0x0F :: u8)"
  have "\<forall>i \<in> set [0..<12]. page_used pmm_demo ?m i" by (simp add: upt_rec page_used_def)
  then have "page_used pmm_demo ?m i" if "i < 12" for i using that by simp
  moreover have "\<not> page_used pmm_demo ?m 12" by (simp add: page_used_def)
  ultimately show ?thesis
    using palloc_overrun [OF pmm_demo_fits, of 12 ?m] by (simp add: page_addr_def)
qed

text \<open>\<^verbatim>\<open>kalloc\<close> reserves one page whatever the size asked for: a second request, served
  from the neighbouring page, returns an address inside the first block when that was larger than
  a page.\<close>

theorem kalloc_one_page:
  assumes "pmm_ok pm" and "Suc j < page_count pm" and "\<forall>i < j. page_used pm m i"
    and "\<not> page_used pm m j" and "\<not> page_used pm m (Suc j)" and "4096 < unat sz" and "sz' \<noteq> 0"
  shows "case kalloc pm sz m of (p, m1) \<Rightarrow> case kalloc pm sz' m1 of (q, m2) \<Rightarrow>
      p = page_addr pm j \<and> q = p + 4096 \<and> q \<in> region p (unat sz)"
proof -
  have sz: "sz \<noteq> 0" using assms(6) by auto
  have "first_free pm m 0 = Some j"
    using assms(2-4) by (intro first_free_SomeI) simp_all
  then have p: "kalloc pm sz m = (page_addr pm j, mark pm j m)"
    by (simp add: palloc_first_free [OF assms(1)] kalloc_palloc [OF sz])
  have "first_free pm (mark pm j m) 0 = Some (Suc j)"
    using assms(1-5) by (intro first_free_SomeI) (auto simp: page_used_mark less_Suc_eq)
  then have q: "kalloc pm sz' (mark pm j m) = (page_addr pm (Suc j), mark pm (Suc j) (mark pm j m))"
    by (simp add: palloc_first_free [OF assms(1)] kalloc_palloc [OF assms(7)])
  have "page_addr pm (Suc j) = page_addr pm j + 4096" by (simp add: page_addr_def algebra_simps)
  with p q assms(6) show ?thesis by (simp add: region_def)
qed

theorem kalloc_one_page_witness:
  "fst (kalloc pmm_demo 8192 (\<lambda>_. 0)) = 0x100000 \<and>
    fst (kalloc pmm_demo 16 (snd (kalloc pmm_demo 8192 (\<lambda>_. 0)))) = 0x101000"
  using kalloc_one_page [OF pmm_demo_ok, of 0 "\<lambda>_. 0" 8192 16]
  by (auto simp: page_used_def page_addr_def split: prod.splits)

text \<open>\<^verbatim>\<open>kfree\<close> does not check alignment: an address inside a page frees that page, and
  the 4096 bytes it clears run into the next page, which may be in use.\<close>

theorem kfree_unaligned:
  assumes "pmm_fits pm" and "Suc i < page_count pm" and "page_inside pm i" and "0 < d" and "d < 4096"
  shows "let m' = kfree pm (page_addr pm i + of_nat d) m in
      (page_used pm m (Suc i) \<longrightarrow> page_used pm m' (Suc i)) \<and> \<not> page_used pm m' i \<and>
      (\<forall>k < d. m' (page_addr pm (Suc i) + of_nat k) = 0)"
proof -
  let ?p = "page_addr pm i + of_nat d"
  have ok: "pmm_ok pm" using assms(1) by (simp add: pmm_fits_def)
  have i: "i < page_count pm" using assms(2) by simp
  have inp: "?p \<in> page pm i" using assms(5) by (simp add: page_def region_offset)
  have u: "unat ?p = unat (pf_base pm) + i * 4096 + d"
    using unat_in_page [OF ok i inp] assms(5) by (simp add: unat_of_nat)
  have e: "unat (pf_base pm + pf_length pm) = unat (pf_base pm) + unat (pf_length pm)"
    using assms(1) by (simp add: pmm_fits_def unat_word_ariths)
  have "\<not> ?p < pf_base pm" "\<not> pf_base pm + pf_length pm \<le> ?p" "?p \<noteq> 0"
    using u e assms(3-5) by (auto simp: word_less_nat_alt word_le_nat_alt page_inside_def unat_eq_zero)
  then have k: "kfree pm ?p m = memset (unmark pm i m) ?p 0 4096"
    by (simp add: kfree_def page_index_div [OF ok i inp] BitmapClearBit_unmark [OF ok i])
  have next_page: "page_addr pm (Suc i) + of_nat k = ?p + of_nat (4096 - d + k)" for k
    using assms(5) by (simp add: page_addr_def algebra_simps)
  have "region ?p 4096 \<subseteq> page pm i \<union> page pm (Suc i)"
  proof
    fix a assume "a \<in> region ?p 4096"
    then obtain k where k: "k < 4096" "a = ?p + of_nat k" by (rule region_obtain)
    show "a \<in> page pm i \<union> page pm (Suc i)"
    proof (cases "d + k < 4096")
      case True
      moreover have "a = page_addr pm i + of_nat (d + k)" using k by simp
      ultimately show ?thesis by (simp add: page_def region_offset del: of_nat_add)
    next
      case False
      then have "a = page_addr pm (Suc i) + of_nat (d + k - 4096)"
        using k by (simp add: page_addr_def algebra_simps)
      moreover have "d + k - 4096 < 4096" using k assms(5) by simp
      ultimately show ?thesis by (simp add: page_def region_offset)
    qed
  qed
  then have "region ?p 4096 \<inter> bitmap_region pm = {}"
    using page_bitmap_disjoint [OF ok i] page_bitmap_disjoint [OF ok assms(2)] by blast
  then have "page_used pm (kfree pm ?p m) j \<longleftrightarrow> page_used pm (unmark pm i m) j" if "j < page_count pm" for j
    using that by (intro page_used_cong) (auto simp: k memset_apply)
  moreover have "kfree pm ?p m (page_addr pm (Suc i) + of_nat l) = 0" if "l < d" for l
  proof -
    have "page_addr pm (Suc i) + of_nat l \<in> region ?p 4096"
      unfolding next_page using that assms(5) by (subst region_offset) simp_all
    then show ?thesis by (simp add: k memset_apply)
  qed
  ultimately show ?thesis using ok i assms(2) by (simp add: page_used_unmark Let_def)
qed

theorem kfree_unaligned_witness:
  "page_used pmm_demo (\<lambda>_. 3) 1 \<and> kfree pmm_demo 0x100010 (\<lambda>_. 3) 0x10100F = 0 \<and>
    page_used pmm_demo (kfree pmm_demo 0x100010 (\<lambda>_. 3)) 1"
proof -
  have "page_used pmm_demo (\<lambda>_. 3) 1" by (simp add: page_used_def)
  then show ?thesis
    using kfree_unaligned [OF pmm_demo_fits, of 0 16 "\<lambda>_. 3"]
    by (auto simp: page_inside_def page_addr_def Let_def dest: spec [of _ 15])
qed

end
