(* ===== verification/MemWords.thy ===== *)
theory MemWords
  imports Prelude
begin

text \<open>
  64-bit words in byte memory, little endian, as the kernel's C code reads and writes
  \<^verbatim>\<open>uint64_t\<close> objects through pointers.
\<close>

definition read64 :: "mem \<Rightarrow> u64 \<Rightarrow> u64" where
  "read64 m a = fold (\<lambda>i w. w OR push_bit (8 * i) (ucast (m (a + of_nat i)))) [0..<8] 0"

definition write64 :: "mem \<Rightarrow> u64 \<Rightarrow> u64 \<Rightarrow> mem" where
  "write64 m a v = fold (\<lambda>i m. m(a + of_nat i := ucast (drop_bit (8 * i) v))) [0..<8] m"

lemma bit_read64:
  "bit (read64 m a) n \<longleftrightarrow> n < 64 \<and> bit (m (a + of_nat (n div 8))) (n mod 8)"
proof -
  have "bit (fold (\<lambda>i w. w OR push_bit (8 * i) (ucast (m (a + of_nat i)))) [0..<k] 0 :: u64) n \<longleftrightarrow>
      n < 8 * k \<and> n < 64 \<and> bit (m (a + of_nat (n div 8))) (n mod 8)" for k
  proof (induction k)
    case 0
    then show ?case by simp
  next
    case (Suc k)
    have "bit (push_bit (8 * k) (ucast (m (a + of_nat k))) :: u64) n \<longleftrightarrow>
        8 * k \<le> n \<and> n < 8 * Suc k \<and> n < 64 \<and> bit (m (a + of_nat (n div 8))) (n mod 8)"
    proof (cases "8 * k \<le> n \<and> n < 8 * Suc k")
      case True
      then have "n div 8 = k" "n mod 8 = n - 8 * k" by (auto simp: div_nat_eqI modulo_nat_def)
      with True show ?thesis by (auto simp: bit_simps)
    next
      case False
      then show ?thesis by (auto simp: bit_simps dest: bit_imp_le_length)
    qed
    with Suc show ?case by (auto simp: bit_or_iff)
  qed
  from this [of 8] show ?thesis by (auto simp: read64_def)
qed

lemma write64_apply [mem_simps]:
  "write64 m a v = (\<lambda>x. if x \<in> region a 8 then ucast (drop_bit (8 * unat (x - a)) v) else m x)"
proof -
  have "fold (\<lambda>i m. m(a + of_nat i := ucast (drop_bit (8 * i) v))) [0..<k] m =
      (\<lambda>x. if x \<in> region a k then ucast (drop_bit (8 * unat (x - a)) v) else m x)" if "k \<le> 8" for k
    using that
  proof (induction k)
    case (Suc k)
    then have "k < 2 ^ 64" by simp
    with Suc show ?case by (auto simp: region_Suc fun_eq_iff unat_of_nat_u64)
  qed simp
  then show ?thesis by (simp add: write64_def)
qed

lemma read64_cong: "(\<And>x. x \<in> region a 8 \<Longrightarrow> m' x = m x) \<Longrightarrow> read64 m' a = read64 m a"
  by (rule bit_eqI) (auto simp: bit_read64 region_offset)

lemma read64_write64 [mem_simps]: "read64 (write64 m a v) a = v"
proof (rule bit_eqI)
  fix n assume "possible_bit TYPE(u64) n"
  then have n: "n < 64" by simp
  then have "n div 8 < 8" by (simp add: div_less_iff_less_mult)
  moreover from this have "unat (of_nat (n div 8) :: u64) = n div 8" by (intro unat_of_nat_u64) simp
  ultimately show "bit (read64 (write64 m a v) a) n = bit v n"
    using n by (simp add: bit_read64 write64_apply region_offset bit_simps)
qed

lemma read64_write64_other [mem_simps]:
  "region b 8 \<inter> region a 8 = {} \<Longrightarrow> read64 (write64 m a v) b = read64 m b"
  by (rule read64_cong) (auto simp: write64_apply)

lemma read64_zero: "(\<And>x. x \<in> region a 8 \<Longrightarrow> m x = 0) \<Longrightarrow> read64 m a = 0"
  by (rule bit_eqI) (auto simp: bit_read64 region_offset)

lemma write64_write64: "write64 (write64 m a v) a w = write64 m a w"
  by (auto simp: write64_apply)

text \<open>The entries of a table of 512 words.\<close>

lemma of_nat_unat_u64: "of_nat (unat x) = (x :: u64)"
  by simp

lemma entry_region_iff:
  fixes j :: u64
  assumes "j < 512"
  shows "x \<in> region (t + 8 * j) 8 \<longleftrightarrow> unat (x - t) div 8 = unat j"
proof -
  have j: "unat j < 512" using assms by (simp add: word_less_nat_alt)
  have e: "8 * j = of_nat (8 * unat j)" by simp
  show ?thesis
  proof
    assume "x \<in> region (t + 8 * j) 8"
    then obtain k where k: "k < 8" "x = t + 8 * j + of_nat k" by (rule region_obtain)
    then have "x - t = of_nat (8 * unat j + k)" by simp
    then have "unat (x - t) = 8 * unat j + k"
      using j k(1) by (simp only:) (rule unat_of_nat_u64, simp)
    with k(1) show "unat (x - t) div 8 = unat j" by simp
  next
    assume d: "unat (x - t) div 8 = unat j"
    define r where "r = unat (x - t) mod 8"
    have "unat (x - t) = 8 * unat j + r" unfolding r_def d [symmetric] by simp
    then have "x - t = of_nat (8 * unat j + r)" by (metis of_nat_unat_u64)
    then have "x - (t + 8 * j) = of_nat r" by (simp add: algebra_simps)
    moreover have "r < 8" by (simp add: r_def)
    ultimately show "x \<in> region (t + 8 * j) 8" by (simp add: region_def unat_of_nat_u64)
  qed
qed

lemma entry_region_subset:
  assumes "(j :: u64) < 512"
  shows "region (t + 8 * j) 8 \<subseteq> region t 4096"
proof
  fix x assume "x \<in> region (t + 8 * j) 8"
  then have "unat (x - t) div 8 = unat j" by (simp only: entry_region_iff [OF assms])
  also have "\<dots> < 512" using assms by (simp add: word_less_nat_alt)
  finally show "x \<in> region t 4096" by (simp add: region_def)
qed

lemma entry_region_disjoint:
  "(i :: u64) < 512 \<Longrightarrow> j < 512 \<Longrightarrow> i \<noteq> j \<Longrightarrow> region (t + 8 * i) 8 \<inter> region (t + 8 * j) 8 = {}"
  by (auto simp: entry_region_iff word_unat_eq_iff)

end
