(* ===== verification/VMM.thy ===== *)
theory VMM
  imports PMM MemWords
begin

text \<open>
  Model of the virtual memory manager, \<^verbatim>\<open>src/ASNU/src/VMM/vmm.c\<close>: four-level page tables in
  byte memory, built from pages that \<^verbatim>\<open>palloc\<close> hands out. The addresses are the kernel's
  virtual ones, reached through the fixed offset of the higher half, which \<^verbatim>\<open>vmm.c\<close> itself
  never changes. Where \<^verbatim>\<open>palloc\<close> fails, the code clears 4096 bytes at the null pointer;
  that fault is the result \<open>None\<close>.
\<close>

section \<open>Operations\<close>

definition PAGE_PRESENT :: u64 where "PAGE_PRESENT = 0x1"
definition PAGE_RW :: u64 where "PAGE_RW = 0x2"
definition PAGE_USER :: u64 where "PAGE_USER = 0x4"

definition pml4_index :: "u64 \<Rightarrow> u64" where "pml4_index va = drop_bit 39 va AND 0x1FF"
definition pdpt_index :: "u64 \<Rightarrow> u64" where "pdpt_index va = drop_bit 30 va AND 0x1FF"
definition pd_index :: "u64 \<Rightarrow> u64" where "pd_index va = drop_bit 21 va AND 0x1FF"
definition pt_index :: "u64 \<Rightarrow> u64" where "pt_index va = drop_bit 12 va AND 0x1FF"

text \<open>\<^verbatim>\<open>(uint64_t*)PA2VAu64(entry & ~0xFFF)\<close>\<close>

definition table_of :: "u64 \<Rightarrow> u64" where
  "table_of e = PA2VAu64 (e AND NOT 0xFFF)"

text \<open>
  One level of \<^verbatim>\<open>mmap\<close>, three times in the source with \<^verbatim>\<open>pml4\<close>, \<^verbatim>\<open>pdpt\<close> and
  \<^verbatim>\<open>pd\<close>: the table below entry \<open>i\<close> of table \<open>t\<close>, allocated and cleared if there is none.
\<close>

definition next_table :: "PmmFile \<Rightarrow> u64 \<Rightarrow> u64 \<Rightarrow> mem \<Rightarrow> (u64 \<times> mem) option" where
  "next_table pm t i m =
     (if read64 m (t + 8 * i) AND PAGE_PRESENT = 0 then
        (case palloc pm m of (p, m1) \<Rightarrow>
           if p = 0 then None
           else let m2 = memset m1 p 0 4096
                in Some (p, write64 m2 (t + 8 * i) (VA2PAu64 p OR PAGE_PRESENT OR PAGE_RW)))
      else Some (table_of (read64 m (t + 8 * i)), m))"

definition mmap :: "PmmFile \<Rightarrow> u64 \<Rightarrow> u64 \<Rightarrow> u64 \<Rightarrow> u64 \<Rightarrow> mem \<Rightarrow> mem option" where
  "mmap pm pml4 va pa flags m =
     do {
       (pdpt, m1) \<leftarrow> next_table pm pml4 (pml4_index va) m;
       (pd, m2) \<leftarrow> next_table pm pdpt (pdpt_index va) m1;
       (pt, m3) \<leftarrow> next_table pm pd (pd_index va) m2;
       let m4 = write64 m3 (pt + 8 * pt_index va) 0;
       Some (write64 m4 (pt + 8 * pt_index va)
         ((pa AND NOT 0xFFF) OR (flags AND 0xFFF) OR PAGE_PRESENT))
     }"

text \<open>\<^verbatim>\<open>unmap\<close> also returns the address it invalidates in the TLB, if it gets that far.\<close>

definition unmap :: "u64 \<Rightarrow> u64 \<Rightarrow> mem \<Rightarrow> mem \<times> u64 option" where
  "unmap pml4 va m =
     (let e4 = read64 m (pml4 + 8 * pml4_index va)
      in if e4 AND PAGE_PRESENT = 0 then (m, None)
      else let pdpt = table_of e4; e3 = read64 m (pdpt + 8 * pdpt_index va)
      in if e3 AND PAGE_PRESENT = 0 then (m, None)
      else let pd = table_of e3; e2 = read64 m (pd + 8 * pd_index va)
      in if e2 AND PAGE_PRESENT = 0 then (m, None)
      else let pt = table_of e2
      in (write64 m (pt + 8 * pt_index va) 0, Some va))"

text \<open>The globals of \<^verbatim>\<open>vmm.c\<close>, and the register \<^verbatim>\<open>cr3\<close>, as \<^verbatim>\<open>vmm_init\<close> leaves them.\<close>

record vmm_state =
  PML4 :: u64
  cr3_phys :: u64
  cr3_virt :: u64
  CR3 :: u64

definition vmm_init :: "PmmFile \<Rightarrow> u64 \<Rightarrow> mem \<Rightarrow> (vmm_state \<times> mem) option" where
  "vmm_init pm cr3_reg m =
     (let phys = cr3_reg; virt = PA2VA phys
      in case palloc pm m of (p, m1) \<Rightarrow>
        if p = 0 then None
        else Some (\<lparr>PML4 = p, cr3_phys = phys, cr3_virt = virt, CR3 = VA2PA p\<rparr>, memcpy m1 p virt 4096))"

section \<open>The hardware's view\<close>

text \<open>
  How the processor translates an address with four-level paging: an entry that is not
  present ends the walk, an entry with the page-size bit maps a large page, any other entry
  above the last level points to the next table with its bits 12 to 51.
\<close>

definition PAGE_PS :: u64 where "PAGE_PS = 0x80"

definition frame :: "u64 \<Rightarrow> u64" where
  "frame e = e AND 0x000FFFFFFFFFF000"

definition present :: "u64 \<Rightarrow> bool" where
  "present e \<longleftrightarrow> e AND PAGE_PRESENT \<noteq> 0"

definition large :: "u64 \<Rightarrow> bool" where
  "large e \<longleftrightarrow> e AND PAGE_PS \<noteq> 0"

datatype translation = Unmapped | Large nat u64 | Page u64

fun walk :: "mem \<Rightarrow> u64 \<Rightarrow> u64 list \<Rightarrow> translation" where
  "walk m t [] = Unmapped"
| "walk m t (i # is) =
     (let e = read64 m (t + 8 * i)
      in if \<not> present e then Unmapped
         else if is = [] then Page e
         else if large e then Large (length is) e
         else walk m (PA2VAu64 (frame e)) is)"

definition indices :: "u64 \<Rightarrow> u64 list" where
  "indices va = [pml4_index va, pdpt_index va, pd_index va, pt_index va]"

definition translate :: "mem \<Rightarrow> u64 \<Rightarrow> u64 \<Rightarrow> translation" where
  "translate m root va = walk m root (indices va)"

text \<open>The table that a path of entries leads to, if every entry on it points to a table.\<close>

fun node :: "mem \<Rightarrow> u64 \<Rightarrow> u64 list \<Rightarrow> u64 option" where
  "node m t [] = Some t"
| "node m t (i # is) =
     (let e = read64 m (t + 8 * i)
      in if present e \<and> \<not> large e then node m (PA2VAu64 (frame e)) is else None)"

definition path :: "u64 list \<Rightarrow> bool" where
  "path is \<longleftrightarrow> (\<forall>i \<in> set is. i < 512)"

lemma path_simps [simp]:
  "path []" "path (i # is) \<longleftrightarrow> i < 512 \<and> path is" "path (is @ js) \<longleftrightarrow> path is \<and> path js"
  by (auto simp: path_def)

lemma path_indices [simp]: "path (indices va)" "length (indices va) = 4"
proof -
  have "x AND 0x1FF < 512" for x :: u64
  proof -
    have "x AND 0x1FF = take_bit 9 x" by (simp add: take_bit_eq_mask mask_eq_exp_minus_1)
    moreover have "unat (take_bit 9 x) < 2 ^ 9"
      using take_bit_nat_less_exp [of 9 "unat x"] by (simp add: unsigned_take_bit_eq)
    ultimately show ?thesis by (simp add: word_less_nat_alt)
  qed
  then show "path (indices va)"
    by (simp add: indices_def pml4_index_def pdpt_index_def pd_index_def pt_index_def)
qed (simp add: indices_def)

text \<open>Two addresses of one 4096-byte page of the 48-bit address space have the same indices.\<close>

definition same_page :: "u64 \<Rightarrow> u64 \<Rightarrow> bool" where
  "same_page va va' \<longleftrightarrow> take_bit 36 (drop_bit 12 va) = take_bit 36 (drop_bit 12 va')"

lemma take_bit_eq_iff_u64:
  fixes x y :: u64
  assumes "n \<le> 64"
  shows "take_bit n x = take_bit n y \<longleftrightarrow> (\<forall>k < n. bit x k = bit y k)"
proof -
  have "possible_bit TYPE(u64) k" if "k < n" for k using that assms by simp
  then show ?thesis by (simp only: bit_eq_iff bit_take_bit_iff) blast
qed

lemma indices_eq_iff: "indices va = indices va' \<longleftrightarrow> same_page va va'"
proof -
  have b: "x AND 0x1FF = y AND 0x1FF \<longleftrightarrow> (\<forall>n < 9. bit x n = bit y n)" for x y :: u64
  proof -
    have "x AND 0x1FF = take_bit 9 x" "y AND 0x1FF = take_bit 9 y"
      by (simp_all add: take_bit_eq_mask mask_eq_exp_minus_1)
    then show ?thesis by (simp add: take_bit_eq_iff_u64)
  qed
  define Q where "Q n \<longleftrightarrow> bit va n = bit va' n" for n
  have s: "(\<forall>n < c. Q (k + n)) \<longleftrightarrow> (\<forall>n \<in> {k..<k + c}. Q n)" for k c :: nat
  proof -
    have "{k..<k + c} = (\<lambda>n. k + n) ` {..<c}"
      by (simp add: lessThan_atLeast0 add.commute)
    then show ?thesis by auto
  qed
  have u: "{12..<48} = {39..<48} \<union> {30..<39} \<union> {21..<30} \<union> {12..<21 :: nat}" by auto
  have "same_page va va' \<longleftrightarrow> (\<forall>n < 36. Q (12 + n))"
    by (simp add: same_page_def take_bit_eq_iff_u64 bit_drop_bit_eq Q_def)
  moreover have "indices va = indices va' \<longleftrightarrow>
      (\<forall>n < 9. Q (39 + n)) \<and> (\<forall>n < 9. Q (30 + n)) \<and> (\<forall>n < 9. Q (21 + n)) \<and> (\<forall>n < 9. Q (12 + n))"
    by (simp add: indices_def pml4_index_def pdpt_index_def pd_index_def pt_index_def b
        bit_drop_bit_eq Q_def)
  ultimately show ?thesis unfolding s by (simp add: u ball_Un)
qed

end
