(* ===== verification/VMM_Spec.thy ===== *)
theory VMM_Spec
  imports VMM
begin

text \<open>
  Correctness of the virtual memory manager against the hardware's page walk: an invariant of
  the tree of tables, what one level of \<^verbatim>\<open>mmap\<close> does to it, and from it the effect of
  \<^verbatim>\<open>mmap\<close>, \<^verbatim>\<open>unmap\<close> and \<^verbatim>\<open>vmm_init\<close> on every translation. The facts about pages come
  from the allocator's contract, interpreted in theory \<open>PMM\<close>.
\<close>

section \<open>Walks\<close>

lemma node_append: "node m root is = Some t \<Longrightarrow> node m root (is @ js) = node m t js"
  by (induction "is" arbitrary: root) (auto simp: Let_def split: if_splits)

lemma node_prefix: "node m root (is @ js) = Some u \<Longrightarrow> \<exists>t. node m root is = Some t"
  by (induction "is" arbitrary: root) (auto simp: Let_def split: if_splits)

lemma walk_append: "node m root is = Some t \<Longrightarrow> js \<noteq> [] \<Longrightarrow> walk m root (is @ js) = walk m t js"
  by (induction "is" arbitrary: root) (auto simp: Let_def split: if_splits)

lemma node_cong:
  "(\<And>pre t j suf. is = pre @ j # suf \<Longrightarrow> node m root pre = Some t \<Longrightarrow>
      read64 m' (t + 8 * j) = read64 m (t + 8 * j)) \<Longrightarrow>
    node m' root is = node m root is"
proof (induction "is" arbitrary: root)
  case (Cons i "is")
  have e: "read64 m' (root + 8 * i) = read64 m (root + 8 * i)" using Cons.prems [of "[]" i "is"] by simp
  let ?e = "read64 m (root + 8 * i)"
  show ?case
  proof (cases "present ?e \<and> \<not> large ?e")
    case True
    have "node m' (PA2VAu64 (frame ?e)) is = node m (PA2VAu64 (frame ?e)) is"
    proof (rule Cons.IH)
      fix pre t j suf
      assume "is = pre @ j # suf" "node m (PA2VAu64 (frame ?e)) pre = Some t"
      with True Cons.prems [of "i # pre" j suf t]
      show "read64 m' (t + 8 * j) = read64 m (t + 8 * j)" by (simp add: Let_def)
    qed
    with e show ?thesis by (simp add: Let_def)
  next
    case False
    with e show ?thesis by (auto simp: Let_def)
  qed
qed simp

lemma walk_cong:
  "(\<And>pre t j suf. is = pre @ j # suf \<Longrightarrow> node m root pre = Some t \<Longrightarrow>
      read64 m' (t + 8 * j) = read64 m (t + 8 * j)) \<Longrightarrow>
    walk m' root is = walk m root is"
proof (induction "is" arbitrary: root)
  case (Cons i "is")
  have e: "read64 m' (root + 8 * i) = read64 m (root + 8 * i)" using Cons.prems [of "[]" i "is"] by simp
  let ?e = "read64 m (root + 8 * i)"
  show ?case
  proof (cases "present ?e \<and> \<not> large ?e")
    case True
    have "walk m' (PA2VAu64 (frame ?e)) is = walk m (PA2VAu64 (frame ?e)) is"
    proof (rule Cons.IH)
      fix pre t j suf
      assume "is = pre @ j # suf" "node m (PA2VAu64 (frame ?e)) pre = Some t"
      with True Cons.prems [of "i # pre" j suf t]
      show "read64 m' (t + 8 * j) = read64 m (t + 8 * j)" by (simp add: Let_def)
    qed
    with e show ?thesis by (simp add: Let_def)
  next
    case False
    with e show ?thesis by (auto simp: Let_def)
  qed
qed simp

section \<open>The invariant of a tree of tables\<close>

text \<open>
  The tables of a tree, the paths of at most three entries, lie outside the allocator's
  bitmap and its free pages and do not overlap each other; an entry that points to a table has
  no bits above the physical address, so that \<^verbatim>\<open>entry & ~0xFFF\<close> is the address the hardware uses.
\<close>

definition table_at :: "mem \<Rightarrow> u64 \<Rightarrow> u64 list \<Rightarrow> u64 \<Rightarrow> bool" where
  "table_at m root is t \<longleftrightarrow> path is \<and> length is \<le> 3 \<and> node m root is = Some t"

definition free_pages :: "PmmFile \<Rightarrow> mem \<Rightarrow> u64 set" where
  "free_pages pm m = pmm_pages pm - pmm_live pm m"

definition tables_ok :: "PmmFile \<Rightarrow> mem \<Rightarrow> u64 \<Rightarrow> bool" where
  "tables_ok pm m root \<longleftrightarrow>
     (\<forall>is t. table_at m root is t \<longrightarrow> region t 4096 \<inter> bitmap_region pm = {} \<and>
        (\<forall>p \<in> free_pages pm m. region t 4096 \<inter> region p 4096 = {})) \<and>
     (\<forall>is t js u. table_at m root is t \<and> table_at m root js u \<and> is \<noteq> js \<longrightarrow>
        region t 4096 \<inter> region u 4096 = {}) \<and>
     (\<forall>is t i. table_at m root is t \<and> length is \<le> 2 \<and> i < 512 \<longrightarrow>
        (let e = read64 m (t + 8 * i)
         in present e \<and> \<not> large e \<longrightarrow> frame e = e AND NOT 0xFFF))"

lemma tables_okD:
  assumes "tables_ok pm m root"
  shows "table_at m root is t \<Longrightarrow> region t 4096 \<inter> bitmap_region pm = {}"
    and "table_at m root is t \<Longrightarrow> p \<in> free_pages pm m \<Longrightarrow> region t 4096 \<inter> region p 4096 = {}"
    and "table_at m root is t \<Longrightarrow> table_at m root js u \<Longrightarrow> is \<noteq> js \<Longrightarrow> region t 4096 \<inter> region u 4096 = {}"
    and "table_at m root is t \<Longrightarrow> length is \<le> 2 \<Longrightarrow> i < 512 \<Longrightarrow> present (read64 m (t + 8 * i)) \<Longrightarrow>
      \<not> large (read64 m (t + 8 * i)) \<Longrightarrow>
      frame (read64 m (t + 8 * i)) = read64 m (t + 8 * i) AND NOT 0xFFF"
  using assms by (auto simp: tables_ok_def Let_def)

text \<open>
  What survives a change of memory that touches the bitmap, one entry of one table and a
  set \<open>F\<close> of bytes outside the tables: every other entry, hence every walk that does not pass
  through the changed one.
\<close>

lemma other_entry:
  assumes ok: "tables_ok pm m root" and t: "table_at m root is t" and i: "i < 512"
    and F: "\<forall>js u. table_at m root js u \<longrightarrow> region u 4096 \<inter> F = {}"
    and same: "\<forall>a. a \<notin> bitmap_region pm \<and> a \<notin> region (t + 8 * i) 8 \<and> a \<notin> F \<longrightarrow> m' a = m a"
    and u: "table_at m root js u" and j: "j < 512" and ne: "(js, j) \<noteq> (is, i)"
  shows "read64 m' (u + 8 * j) = read64 m (u + 8 * j)"
proof (rule read64_cong)
  fix a assume a: "a \<in> region (u + 8 * j) 8"
  then have au: "a \<in> region u 4096" using entry_region_subset [OF j] by blast
  have "a \<notin> bitmap_region pm" using tables_okD(1) [OF ok u] au by blast
  moreover have "a \<notin> F" using F u au by blast
  moreover have "a \<notin> region (t + 8 * i) 8"
  proof (cases "js = is")
    case True
    then have "u = t" "j \<noteq> i" using t u ne by (auto simp: table_at_def)
    with entry_region_disjoint [OF j i] a show ?thesis by blast
  next
    case False
    with tables_okD(3) [OF ok u t] au entry_region_subset [OF i] show ?thesis by blast
  qed
  ultimately show "m' a = m a" using same by blast
qed

lemma table_at_prefix:
  assumes "path js" and "length js \<le> 4" and "js = pre @ j # suf" and "node m root pre = Some u"
  shows "table_at m root pre u" "j < 512"
  using assms by (auto simp: table_at_def)

lemma other_walk:
  assumes ok: "tables_ok pm m root" and t: "table_at m root is t" and i: "i < 512"
    and F: "\<forall>js u. table_at m root js u \<longrightarrow> region u 4096 \<inter> F = {}"
    and same: "\<forall>a. a \<notin> bitmap_region pm \<and> a \<notin> region (t + 8 * i) 8 \<and> a \<notin> F \<longrightarrow> m' a = m a"
    and js: "path js" "length js \<le> 4" and ne: "\<And>suf. js \<noteq> is @ i # suf"
  shows "walk m' root js = walk m root js" and "node m' root js = node m root js"
proof -
  have "read64 m' (u + 8 * j) = read64 m (u + 8 * j)"
    if "js = pre @ j # suf" "node m root pre = Some u" for pre u j suf
  proof (rule other_entry [OF ok t i F same])
    show "table_at m root pre u" "j < 512" by (rule table_at_prefix [OF js that])+
    show "(pre, j) \<noteq> (is, i)" using ne that(1) by auto
  qed
  then show "walk m' root js = walk m root js" "node m' root js = node m root js"
    by (auto intro: walk_cong node_cong)
qed

text \<open>Memory that agrees on the tables: the tree is the same, and so is every translation.\<close>

definition same_tables :: "u64 \<Rightarrow> mem \<Rightarrow> mem \<Rightarrow> bool" where
  "same_tables root m m' \<longleftrightarrow> (\<forall>js u a. table_at m root js u \<longrightarrow> a \<in> region u 4096 \<longrightarrow> m' a = m a)"

lemma same_tables_entry:
  assumes "same_tables root m m'" and "table_at m root js u" and "j < 512"
  shows "read64 m' (u + 8 * j) = read64 m (u + 8 * j)"
proof (rule read64_cong)
  fix a assume "a \<in> region (u + 8 * j) 8"
  then have "a \<in> region u 4096" using entry_region_subset [OF assms(3)] by blast
  with assms(1,2) show "m' a = m a" by (simp add: same_tables_def)
qed

lemma same_tables_walk:
  assumes "same_tables root m m'" and js: "path js" "length js \<le> 4"
  shows "walk m' root js = walk m root js" and "node m' root js = node m root js"
proof -
  have "read64 m' (u + 8 * j) = read64 m (u + 8 * j)"
    if "js = pre @ j # suf" "node m root pre = Some u" for pre u j suf
    by (rule same_tables_entry [OF assms(1)]) (rule table_at_prefix [OF js that])+
  then show "walk m' root js = walk m root js" "node m' root js = node m root js"
    by (auto intro: walk_cong node_cong)
qed

lemma same_tables_table_at: "same_tables root m m' \<Longrightarrow> table_at m' root js u \<longleftrightarrow> table_at m root js u"
  using same_tables_walk(2) [of root m m' js] by (auto simp: table_at_def)

lemma same_tables_translate: "same_tables root m m' \<Longrightarrow> translate m' root va = translate m root va"
  using same_tables_walk(1) [of root m m' "indices va"] by (simp add: translate_def)

lemma same_tables_trans: "same_tables root m m1 \<Longrightarrow> same_tables root m1 m2 \<Longrightarrow> same_tables root m m2"
  using same_tables_table_at [of root m m1] by (simp add: same_tables_def)

lemma free_pages_same: "pmm_fits pm \<Longrightarrow> \<forall>a \<in> bitmap_region pm. m' a = m a \<Longrightarrow> free_pages pm m' = free_pages pm m"
  using pmm.live_cong [of pm m' m] by (simp add: free_pages_def)

lemma same_tables_ok:
  assumes "tables_ok pm m root" and "same_tables root m m'" and "free_pages pm m' \<subseteq> free_pages pm m"
  shows "tables_ok pm m' root"
  unfolding tables_ok_def same_tables_table_at [OF assms(2)]
proof (intro conjI allI impI ballI)
  fix js u assume t: "table_at m root js u"
  show "region u 4096 \<inter> bitmap_region pm = {}" by (rule tables_okD(1) [OF assms(1) t])
  fix p assume "p \<in> free_pages pm m'"
  with assms(3) have "p \<in> free_pages pm m" by blast
  then show "region u 4096 \<inter> region p 4096 = {}" by (rule tables_okD(2) [OF assms(1) t])
next
  fix js u ks v assume "table_at m root js u \<and> table_at m root ks v \<and> js \<noteq> ks"
  then show "region u 4096 \<inter> region v 4096 = {}" using tables_okD(3) [OF assms(1)] by blast
next
  fix js u and i :: u64 assume "table_at m root js u \<and> length js \<le> 2 \<and> i < 512"
  with same_tables_entry [OF assms(2), of js u i] tables_okD(4) [OF assms(1), of js u i]
  show "let e = read64 m' (u + 8 * i) in present e \<and> \<not> large e \<longrightarrow> frame e = e AND NOT 0xFFF"
    by (simp add: Let_def)
qed

section \<open>Pages of the higher half\<close>

text \<open>The pool lies in the higher half and its pages are aligned, as the boot loader reports them.\<close>

definition pool_ok :: "PmmFile \<Rightarrow> bool" where
  "pool_ok pm \<longleftrightarrow> pmm_fits pm \<and> HHDM \<le> pf_base pm \<and> 4096 dvd unat (pf_base pm)"

lemma pool_fits: "pool_ok pm \<Longrightarrow> pmm_fits pm"
  by (simp add: pool_ok_def)

lemma page_physical:
  assumes "pool_ok pm" and "p \<in> pmm_pages pm"
  shows "unat (VA2PAu64 p) < 2 ^ 47" and "4096 dvd unat (VA2PAu64 p)"
proof -
  have ok: "pmm_ok pm" using assms(1) by (simp add: pool_ok_def pmm_fits_def)
  obtain i where i: "i < page_count pm" "p = page_addr pm i" using assms(2) by (auto simp: pmm_pages_def)
  have u: "unat p = unat (pf_base pm) + i * 4096" using unat_page_addr [OF ok i(1)] i(2) by simp
  have h: "unat HHDM = 2 ^ 64 - 2 ^ 47" by (simp add: HHDM_def)
  have b: "unat HHDM \<le> unat (pf_base pm)" using assms(1) by (simp add: pool_ok_def word_le_nat_alt)
  then have "HHDM \<le> p" using u by (simp add: word_le_nat_alt)
  then have v: "unat (VA2PAu64 p) = unat p - unat HHDM" by (simp add: VA2PAu64_def unat_sub)
  then show "unat (VA2PAu64 p) < 2 ^ 47" using unat_less_2_64 [of p] h by simp
  have "4096 dvd unat p" using assms(1) u by (simp add: pool_ok_def)
  moreover have "4096 dvd unat HHDM" by (simp add: HHDM_def)
  ultimately show "4096 dvd unat (VA2PAu64 p)" unfolding v by (rule dvd_diff_nat)
qed

lemma bit_of_physical:
  fixes q :: u64
  assumes "unat q < 2 ^ 47" and "4096 dvd unat q" and "bit q n"
  shows "12 \<le> n \<and> n < 47"
proof -
  have "take_bit 47 q = q" using assms(1) by (simp add: word_unat_eq_iff unsigned_take_bit_eq take_bit_nat_eq_self)
  then have "n < 47" using assms(3) by (metis bit_take_bit_iff)
  moreover have "take_bit 12 q = 0"
    using assms(2) by (simp add: take_bit_eq_mod word_unat_eq_iff unat_mod)
  then have "\<not> n < 12" using assms(3) by (metis bit_take_bit_iff bit_0_eq bot_apply bot_bool_def)
  ultimately show ?thesis by simp
qed

lemma bit_masks [simp]:
  "bit (0x000FFFFFFFFFF000 :: u64) n \<longleftrightarrow> 12 \<le> n \<and> n < 52"
  "bit (0xFFF :: u64) n \<longleftrightarrow> n < 12"
proof -
  have "(0x000FFFFFFFFFF000 :: u64) = push_bit 12 (mask 40)" by (simp add: mask_eq_exp_minus_1 push_bit_eq_mult)
  then show "bit (0x000FFFFFFFFFF000 :: u64) n \<longleftrightarrow> 12 \<le> n \<and> n < 52"
    by (simp only: bit_push_bit_iff bit_mask_iff) auto
  have "(0xFFF :: u64) = mask 12" by (simp add: mask_eq_exp_minus_1)
  then show "bit (0xFFF :: u64) n \<longleftrightarrow> n < 12" by (simp only: bit_mask_iff) auto
qed

lemma new_entry:
  assumes "pool_ok pm" and "p \<in> pmm_pages pm"
  defines "e \<equiv> VA2PAu64 p OR PAGE_PRESENT OR PAGE_RW"
  shows "present e" "\<not> large e" "frame e = VA2PAu64 p" "frame e = e AND NOT 0xFFF"
proof -
  let ?q = "VA2PAu64 p"
  note q = bit_of_physical [OF page_physical [OF assms(1,2)]]
  have f: "PAGE_PRESENT = 2 ^ 0" "PAGE_RW = 2 ^ 1" "PAGE_PS = 2 ^ 7"
    by (simp_all add: PAGE_PRESENT_def PAGE_RW_def PAGE_PS_def)
  have e: "bit e n \<longleftrightarrow> bit ?q n \<or> n = 0 \<or> n = 1" for n
    unfolding e_def f by (simp only: bit_or_iff bit_exp_iff) auto
  show "present e" unfolding present_def f and_exp_eq_0_iff_not_bit by (simp add: e)
  show "\<not> large e" unfolding large_def f and_exp_eq_0_iff_not_bit using q [of 7] by (auto simp: e)
  show "frame e = ?q"
    unfolding frame_def using q
    by (intro bit_eqI) (simp only: bit_and_iff e bit_masks, fastforce)
  moreover have "e AND NOT 0xFFF = ?q"
    using q by (intro bit_eqI) (simp only: bit_and_iff bit_not_iff e bit_masks, fastforce)
  ultimately show "frame e = e AND NOT 0xFFF" by simp
qed

section \<open>One level of mmap\<close>

text \<open>Growing the tree: no walk changes, no table is lost, new tables come from free pages.\<close>

definition untouched :: "PmmFile \<Rightarrow> u64 \<Rightarrow> mem \<Rightarrow> u64 \<Rightarrow> bool" where
  "untouched pm root m a \<longleftrightarrow> a \<notin> bitmap_region pm \<and>
     (\<forall>js u. table_at m root js u \<longrightarrow> a \<notin> region u 4096) \<and>
     (\<forall>p \<in> free_pages pm m. a \<notin> region p 4096)"

definition grows :: "PmmFile \<Rightarrow> u64 \<Rightarrow> mem \<Rightarrow> mem \<Rightarrow> bool" where
  "grows pm root m m' \<longleftrightarrow> tables_ok pm m' root \<and>
     (\<forall>js. path js \<and> length js = 4 \<longrightarrow> walk m' root js = walk m root js) \<and>
     (\<forall>js u. table_at m root js u \<longrightarrow> table_at m' root js u) \<and>
     (\<forall>js u. table_at m' root js u \<longrightarrow> table_at m root js u \<or> u \<in> free_pages pm m) \<and>
     free_pages pm m' \<subseteq> free_pages pm m \<and>
     (\<forall>a. untouched pm root m a \<longrightarrow> m' a = m a)"

lemma growsD:
  assumes "grows pm root m m'"
  shows "tables_ok pm m' root" "path js \<Longrightarrow> length js = 4 \<Longrightarrow> walk m' root js = walk m root js"
    "table_at m root js u \<Longrightarrow> table_at m' root js u"
    "table_at m' root js u \<Longrightarrow> table_at m root js u \<or> u \<in> free_pages pm m"
    "free_pages pm m' \<subseteq> free_pages pm m" "untouched pm root m a \<Longrightarrow> m' a = m a"
  using assms by (auto simp: grows_def)

lemma grows_refl: "tables_ok pm m root \<Longrightarrow> grows pm root m m"
  by (simp add: grows_def)

lemma untouched_grows: "grows pm root m m' \<Longrightarrow> untouched pm root m a \<Longrightarrow> untouched pm root m' a"
  unfolding untouched_def using growsD(4,5) by blast

lemma grows_trans:
  assumes "grows pm root m m1" and "grows pm root m1 m2"
  shows "grows pm root m m2"
  unfolding grows_def
proof (intro conjI allI impI)
  fix a assume "untouched pm root m a"
  then show "m2 a = m a"
    using growsD(6) [OF assms(1)] growsD(6) [OF assms(2)] untouched_grows [OF assms(1)] by simp
next
  show "free_pages pm m2 \<subseteq> free_pages pm m"
    using growsD(5) [OF assms(1)] growsD(5) [OF assms(2)] by (rule subset_trans [rotated])
next
  fix js u assume "table_at m2 root js u"
  then show "table_at m root js u \<or> u \<in> free_pages pm m"
    using growsD(4) [OF assms(1)] growsD(4) [OF assms(2)] growsD(5) [OF assms(1)] by blast
qed (use assms in \<open>auto simp: grows_def\<close>)

lemma present_iff: "present e \<longleftrightarrow> \<not> e AND PAGE_PRESENT = 0"
  by (simp add: present_def)

text \<open>
  A new table \<open>p\<close>, zeroed and linked from the free entry \<open>i\<close> of the table at the path
  \<open>is\<close>: what the tables and the walks of the tree are then, and that it is well formed.
\<close>

lemma linked_table:
  assumes ok: "tables_ok pm m root" and t: "table_at m root is t" and len: "length is \<le> 2"
    and i: "i < 512" and np: "\<not> present (read64 m (t + 8 * i))"
    and F: "\<forall>js u. table_at m root js u \<longrightarrow> region u 4096 \<inter> region p 4096 = {}"
    and same: "\<forall>a. a \<notin> bitmap_region pm \<and> a \<notin> region (t + 8 * i) 8 \<and> a \<notin> region p 4096 \<longrightarrow> m' a = m a"
    and zero: "\<And>j. j < 512 \<Longrightarrow> read64 m' (p + 8 * j) = 0"
    and E: "read64 m' (t + 8 * i) = e" "present e" "\<not> large e" "frame e = VA2PAu64 p"
  shows "table_at m' root js u \<longleftrightarrow> js = is @ [i] \<and> u = p \<or> table_at m root js u"
    and "path js \<Longrightarrow> length js = 4 \<Longrightarrow> walk m' root js = walk m root js"
proof -
  have pt: "path is" "node m root is = Some t" using t by (auto simp: table_at_def)
  note walks = other_walk [OF ok t i F same]
  have nt: "node m' root is = Some t" using walks(2) [of "is"] pt len by simp
  have down: "node m' root (is @ i # suf) = node m' p suf" for suf
    using node_append [OF nt, of "i # suf"] E by (simp add: Let_def)
  have stop: "node m root (is @ i # suf) = None" for suf
    using node_append [OF pt(2), of "i # suf"] np by (simp add: Let_def)
  have empty: "node m' p suf = None" if "path suf" "suf \<noteq> []" for suf
    using that zero by (cases suf) (auto simp: present_def)
  show "table_at m' root js u \<longleftrightarrow> js = is @ [i] \<and> u = p \<or> table_at m root js u"
  proof (cases "\<exists>suf. js = is @ i # suf")
    case True
    then obtain suf where js: "js = is @ i # suf" by blast
    have "node m' root js = None" if "path suf" "suf \<noteq> []"
      using js down [of suf] empty [OF that] by simp
    then show ?thesis using js down [of "[]"] stop [of suf] pt(1) i len by (cases suf) (auto simp: table_at_def)
  next
    case False
    then show ?thesis using walks(2) [of js] by (auto simp: table_at_def)
  qed
  show "walk m' root js = walk m root js" if "path js" "length js = 4"
  proof (cases "\<exists>suf. js = is @ i # suf")
    case True
    then obtain suf where js: "js = is @ i # suf" by blast
    then have suf: "suf \<noteq> []" "path suf" using that len by auto
    have "walk m' root js = walk m' p suf"
      using js walk_append [OF nt, of "i # suf"] E suf by (simp add: Let_def)
    also have "\<dots> = Unmapped" using suf zero by (cases suf) (auto simp: present_def)
    also have "\<dots> = walk m root js"
      using js walk_append [OF pt(2), of "i # suf"] np by (simp add: Let_def)
    finally show ?thesis .
  next
    case False
    then show ?thesis using walks(1) [of js] that by auto
  qed
qed

lemma linked_table_ok:
  assumes fits: "pmm_fits pm" and ok: "tables_ok pm m root" and t: "table_at m root is t"
    and i: "i < 512" and pf: "p \<in> free_pages pm m" and free: "free_pages pm m' = free_pages pm m - {p}"
    and same: "\<forall>a. a \<notin> bitmap_region pm \<and> a \<notin> region (t + 8 * i) 8 \<and> a \<notin> region p 4096 \<longrightarrow> m' a = m a"
    and zero: "\<And>j. j < 512 \<Longrightarrow> read64 m' (p + 8 * j) = 0"
    and E: "read64 m' (t + 8 * i) = e" "frame e = e AND NOT 0xFFF"
    and tables: "\<And>js u. table_at m' root js u \<longleftrightarrow> js = is @ [i] \<and> u = p \<or> table_at m root js u"
  shows "tables_ok pm m' root"
proof -
  have p: "p \<in> pmm_pages pm" using pf by (simp add: free_pages_def)
  have pb: "region p 4096 \<inter> bitmap_region pm = {}" by (rule pmm.page_meta [OF fits p])
  have F: "\<forall>js u. table_at m root js u \<longrightarrow> region u 4096 \<inter> region p 4096 = {}"
    using tables_okD(2) [OF ok _ pf] by blast
  have "region u 4096 \<inter> region q 4096 = {}" if u: "table_at m' root js u" and q: "q \<in> free_pages pm m'" for js u q
  proof -
    have "q \<in> free_pages pm m" "q \<in> pmm_pages pm" "q \<noteq> p" using q unfolding free by (simp_all add: free_pages_def)
    then show ?thesis using u tables_okD(2) [OF ok, of js u q] pmm.page_page [OF fits p, of q] by (auto simp: tables)
  qed
  moreover have "region u 4096 \<inter> region v 4096 = {}"
    if "table_at m' root js u" "table_at m' root ks v" "js \<noteq> ks" for js ks u v
    using that tables_okD(3) [OF ok] F by (fastforce simp: tables)
  moreover have "let e = read64 m' (u + 8 * j) in present e \<and> \<not> large e \<longrightarrow> frame e = e AND NOT 0xFFF"
    if a: "table_at m' root js u" "length js \<le> 2" "j < 512" for js u j
  proof (cases "js = is @ [i] \<and> u = p")
    case True
    then show ?thesis using a zero by (simp add: present_def)
  next
    case False
    then have u: "table_at m root js u" using a by (auto simp: tables)
    show ?thesis
    proof (cases "(js, j) = (is, i)")
      case True
      then have "u = t" using u t by (simp add: table_at_def)
      then show ?thesis using True E by (simp add: Let_def)
    next
      case False
      then show ?thesis
        using other_entry [OF ok t i F same u _ False] tables_okD(4) [OF ok u] a by (simp add: Let_def)
    qed
  qed
  moreover have "region u 4096 \<inter> bitmap_region pm = {}" if "table_at m' root js u" for js u
    using that tables_okD(1) [OF ok] pb by (auto simp: tables)
  ultimately show ?thesis unfolding tables_ok_def by blast
qed

lemma next_table_alloc:
  assumes pool: "pool_ok pm" and ok: "tables_ok pm m root" and t: "table_at m root is t"
    and len: "length is \<le> 2" and i: "i < 512" and np: "\<not> present (read64 m (t + 8 * i))"
    and alloc: "palloc pm m = (p, m1)" and p0: "p \<noteq> 0"
    and m': "m' = write64 (memset m1 p 0 4096) (t + 8 * i) (VA2PAu64 p OR PAGE_PRESENT OR PAGE_RW)"
  shows "grows pm root m m' \<and> table_at m' root (is @ [i]) p \<and> free_pages pm m' = free_pages pm m - {p} \<and>
    p \<in> free_pages pm m"
proof -
  note fits = pool_fits [OF pool]
  have p: "p \<in> pmm_pages pm" "p \<notin> pmm_live pm m" "pmm_live pm m1 = insert p (pmm_live pm m)"
    using pmm.alloc_page [OF fits alloc p0] by auto
  then have pf: "p \<in> free_pages pm m" by (simp add: free_pages_def)
  note E = new_entry [OF pool p(1)]
  have tr: "region (t + 8 * i) 8 \<subseteq> region t 4096" by (rule entry_region_subset [OF i])
  have tp: "region t 4096 \<inter> region p 4096 = {}" by (rule tables_okD(2) [OF ok t pf])
  have F: "\<forall>js u. table_at m root js u \<longrightarrow> region u 4096 \<inter> region p 4096 = {}"
    using tables_okD(2) [OF ok _ pf] by blast
  have same: "\<forall>a. a \<notin> bitmap_region pm \<and> a \<notin> region (t + 8 * i) 8 \<and> a \<notin> region p 4096 \<longrightarrow> m' a = m a"
    using pmm.alloc_frame [OF fits alloc] by (simp add: m' write64_apply memset_apply)
  have "m' a = m1 a" if "a \<in> bitmap_region pm" for a
    using that tables_okD(1) [OF ok t] pmm.page_meta [OF fits p(1)] tr by (auto simp: m' write64_apply memset_apply)
  then have "pmm_live pm m' = insert p (pmm_live pm m)"
    using pmm.live_cong [OF fits, of m' m1] p(3) by simp
  then have free: "free_pages pm m' = free_pages pm m - {p}" by (auto simp: free_pages_def)
  have zero: "read64 m' (p + 8 * j) = 0" if "j < 512" for j
  proof (rule read64_zero)
    fix a assume "a \<in> region (p + 8 * j) 8"
    then have "a \<in> region p 4096" using entry_region_subset [OF that] by blast
    moreover from this have "a \<notin> region (t + 8 * i) 8" using tp tr by blast
    ultimately show "m' a = 0" by (simp add: m' write64_apply memset_apply)
  qed
  have Ent: "read64 m' (t + 8 * i) = VA2PAu64 p OR PAGE_PRESENT OR PAGE_RW" by (simp add: m' read64_write64)
  note tables = linked_table [OF ok t len i np F same zero Ent E(1-3)]
  have "tables_ok pm m' root" by (rule linked_table_ok [OF fits ok t i pf free same zero Ent E(4) tables(1)])
  moreover have "m' a = m a" if "untouched pm root m a" for a
    using that t tr pf same unfolding untouched_def by blast
  ultimately have "grows pm root m m'"
    unfolding grows_def using pf tables by (auto simp: free)
  then show ?thesis using pf free tables(1) by simp
qed

lemma finite_free_pages: "pool_ok pm \<Longrightarrow> finite (free_pages pm m)"
  by (simp add: free_pages_def pool_fits pmm.pages_finite)

lemma next_table_cases:
  assumes pool: "pool_ok pm" and ok: "tables_ok pm m root" and t: "table_at m root is t"
    and len: "length is \<le> 2" and i: "i < 512"
    and nl: "present (read64 m (t + 8 * i)) \<Longrightarrow> \<not> large (read64 m (t + 8 * i))"
  obtains (fault) "next_table pm t i m = None" "free_pages pm m = {}"
  | (table) t' m' where "next_table pm t i m = Some (t', m')" "grows pm root m m'"
      "table_at m' root (is @ [i]) t'" "card (free_pages pm m) \<le> Suc (card (free_pages pm m'))"
proof (cases "present (read64 m (t + 8 * i))")
  case True
  let ?e = "read64 m (t + 8 * i)"
  have nt: "next_table pm t i m = Some (table_of ?e, m)"
    using True by (simp add: next_table_def present_def)
  have f: "frame ?e = ?e AND NOT 0xFFF" by (rule tables_okD(4) [OF ok t len i True nl [OF True]])
  have "node m root (is @ [i]) = Some (table_of ?e)"
    using t node_append [of m root "is" t "[i]"] True nl [OF True]
    by (simp add: table_at_def Let_def f table_of_def)
  then have "table_at m root (is @ [i]) (table_of ?e)" using t len i by (simp add: table_at_def)
  with nt grows_refl [OF ok] table show ?thesis by simp
next
  case False
  obtain p m1 where alloc: "palloc pm m = (p, m1)" by fastforce
  show ?thesis
  proof (cases "p = 0")
    case True
    then have "pmm_live pm m = pmm_pages pm" using pmm.alloc_full [OF pool_fits [OF pool]] alloc by blast
    then have "free_pages pm m = {}" by (simp add: free_pages_def)
    with True False alloc fault show ?thesis by (simp add: next_table_def present_def)
  next
    case p0: False
    let ?m = "write64 (memset m1 p 0 4096) (t + 8 * i) (VA2PAu64 p OR PAGE_PRESENT OR PAGE_RW)"
    have g: "grows pm root m ?m" "table_at ?m root (is @ [i]) p"
      "free_pages pm ?m = free_pages pm m - {p}" "p \<in> free_pages pm m"
      using next_table_alloc [OF pool ok t len i False alloc p0 refl] by auto
    have "next_table pm t i m = Some (p, ?m)"
      using False alloc p0 by (simp add: next_table_def present_def Let_def)
    moreover have "card (free_pages pm m) \<le> Suc (card (free_pages pm ?m))"
      using g(3,4) finite_free_pages [OF pool, of m] by (simp add: card_Suc_Diff1)
    ultimately show ?thesis using g table by blast
  qed
qed

section \<open>The last level\<close>

lemma leaf_write:
  assumes ok: "tables_ok pm m root" and t: "table_at m root is t" and len: "length is = 3" and i: "i < 512"
    and m': "m' = write64 m (t + 8 * i) v"
  shows "tables_ok pm m' root" and "table_at m' root js u \<longleftrightarrow> table_at m root js u"
    and "walk m' root (is @ [i]) = (if present v then Page v else Unmapped)"
    and "path js \<Longrightarrow> length js = 4 \<Longrightarrow> js \<noteq> is @ [i] \<Longrightarrow> walk m' root js = walk m root js"
    and "free_pages pm m' = free_pages pm m"
    and "a \<notin> region t 4096 \<Longrightarrow> m' a = m a"
proof -
  have tr: "region (t + 8 * i) 8 \<subseteq> region t 4096" by (rule entry_region_subset [OF i])
  have F: "\<forall>js u. table_at m root js u \<longrightarrow> region u 4096 \<inter> {} = {}" by simp
  have same: "\<forall>a. a \<notin> bitmap_region pm \<and> a \<notin> region (t + 8 * i) 8 \<and> a \<notin> {} \<longrightarrow> m' a = m a"
    by (simp add: m' write64_apply)
  note walks = other_walk [OF ok t i F same] and entry = other_entry [OF ok t i F same]
  show "a \<notin> region t 4096 \<Longrightarrow> m' a = m a" for a using tr by (auto simp: m' write64_apply)
  have "m' a = m a" if "a \<in> bitmap_region pm" for a
    using that tables_okD(1) [OF ok t] tr by (auto simp: m' write64_apply)
  then have "pmm_live pm m' = pmm_live pm m" by (rule pmm_live_cong)
  then show free: "free_pages pm m' = free_pages pm m" by (simp add: free_pages_def)
  have tables: "table_at m' root js u \<longleftrightarrow> table_at m root js u" for js u
  proof (cases "path js \<and> length js \<le> 3")
    case True
    then have "js \<noteq> is @ i # suf" for suf using len by auto
    with True have "node m' root js = node m root js" using walks(2) [of js] by simp
    then show ?thesis by (simp add: table_at_def)
  qed (auto simp: table_at_def)
  show "table_at m' root js u \<longleftrightarrow> table_at m root js u" by (rule tables)
  show "walk m' root js = walk m root js" if "path js" "length js = 4" "js \<noteq> is @ [i]"
  proof -
    have "js \<noteq> is @ i # suf" for suf using len that by (cases suf) auto
    with that show ?thesis using walks(1) [of js] by simp
  qed
  have "node m' root is = Some t" using tables [of "is" t] t by (simp add: table_at_def)
  then show "walk m' root (is @ [i]) = (if present v then Page v else Unmapped)"
    using walk_append [of m' root "is" t "[i]"] by (simp add: m' read64_write64 Let_def)
  have e: "read64 m' (u + 8 * j) = read64 m (u + 8 * j)"
    if "table_at m root js u" "length js \<le> 2" "j < 512" for js u and j :: u64
  proof (rule entry [OF that(1,3)])
    show "(js, j) \<noteq> (is, i)" using that(2) len by auto
  qed
  have c: "\<forall>js u j. table_at m root js u \<and> length js \<le> 2 \<and> j < 512 \<longrightarrow>
      (let e = read64 m' (u + 8 * j) in present e \<and> \<not> large e \<longrightarrow> frame e = e AND NOT 0xFFF)"
  proof (intro allI impI)
    fix js u and j :: u64 assume a: "table_at m root js u \<and> length js \<le> 2 \<and> j < 512"
    then have "read64 m' (u + 8 * j) = read64 m (u + 8 * j)" by (intro e [of js u j]) simp_all
    then show "let e = read64 m' (u + 8 * j) in present e \<and> \<not> large e \<longrightarrow> frame e = e AND NOT 0xFFF"
      using a tables_okD(4) [OF ok, of js u j] by (simp only: Let_def) blast
  qed
  show "tables_ok pm m' root"
    using ok c unfolding tables_ok_def tables free by blast
qed

lemma not_large:
  assumes "table_at m root is t" and "walk m root (is @ i # suf) \<noteq> Large (length suf) (read64 m (t + 8 * i))"
    and "suf \<noteq> []" and "present (read64 m (t + 8 * i))"
  shows "\<not> large (read64 m (t + 8 * i))"
  using assms walk_append [of m root "is" t "i # suf"] by (auto simp: table_at_def Let_def)

section \<open>mmap and unmap\<close>

definition no_large_page :: "mem \<Rightarrow> u64 \<Rightarrow> u64 \<Rightarrow> bool" where
  "no_large_page m root va \<longleftrightarrow> (\<forall>n e. translate m root va \<noteq> Large n e)"

text \<open>The entry \<^verbatim>\<open>mmap\<close> writes.\<close>

definition leaf_entry :: "u64 \<Rightarrow> u64 \<Rightarrow> u64" where
  "leaf_entry pa flags = (pa AND NOT 0xFFF) OR (flags AND 0xFFF) OR PAGE_PRESENT"

lemma present_leaf_entry [simp]: "present (leaf_entry pa flags)"
proof -
  have "bit (leaf_entry pa flags) 0" by (simp add: leaf_entry_def PAGE_PRESENT_def bit_or_iff)
  moreover have f: "PAGE_PRESENT = 2 ^ 0" by (simp add: PAGE_PRESENT_def)
  ultimately show ?thesis unfolding present_def f and_exp_eq_0_iff_not_bit by simp
qed

lemma root_table: "table_at m root [] root"
  by (simp add: table_at_def)

lemma not_large_step:
  assumes t: "table_at m1 root is t" and nl: "no_large_page m root va" and g: "grows pm root m m1"
    and va: "indices va = is @ i # suf" "suf \<noteq> []" and e: "present (read64 m1 (t + 8 * i))"
  shows "\<not> large (read64 m1 (t + 8 * i))"
proof (rule not_large [OF t _ va(2) e])
  have "walk m1 root (indices va) = walk m root (indices va)" by (rule growsD(2) [OF g]) simp_all
  then show "walk m1 root (is @ i # suf) \<noteq> Large (length suf) (read64 m1 (t + 8 * i))"
    using nl va(1) by (simp add: no_large_page_def translate_def)
qed

lemma mmap_cases:
  assumes pool: "pool_ok pm" and ok: "tables_ok pm m root" and nl: "no_large_page m root va"
  obtains (fault) "mmap pm root va pa flags m = None" "card (free_pages pm m) < 3"
  | (mapped) m3 pt where "grows pm root m m3" "table_at m3 root [pml4_index va, pdpt_index va, pd_index va] pt"
      "mmap pm root va pa flags m = Some (write64 m3 (pt + 8 * pt_index va) (leaf_entry pa flags))"
proof -
  have idx: "pml4_index va < 512" "pdpt_index va < 512" "pd_index va < 512" "pt_index va < 512"
    using path_indices(1) [of va] by (simp_all add: indices_def)
  have va: "indices va = [] @ pml4_index va # [pdpt_index va, pd_index va, pt_index va]"
    "indices va = [pml4_index va] @ pdpt_index va # [pd_index va, pt_index va]"
    "indices va = [pml4_index va, pdpt_index va] @ pd_index va # [pt_index va]"
    by (simp_all add: indices_def)
  note g0 = grows_refl [OF ok]
  show thesis
  proof (rule next_table_cases [OF pool ok root_table _ idx(1) not_large_step [OF root_table nl g0 va(1)]])
    assume "next_table pm root (pml4_index va) m = None" "free_pages pm m = {}"
    then show thesis by (intro fault) (simp_all add: mmap_def)
  next
    fix pdpt m1
    assume l1: "next_table pm root (pml4_index va) m = Some (pdpt, m1)" and g1: "grows pm root m m1"
      and t1: "table_at m1 root ([] @ [pml4_index va]) pdpt"
      and c1: "card (free_pages pm m) \<le> Suc (card (free_pages pm m1))"
    have t1': "table_at m1 root [pml4_index va] pdpt" using t1 by simp
    show thesis
    proof (rule next_table_cases [OF pool growsD(1) [OF g1] t1' _ idx(2) not_large_step [OF t1' nl g1 va(2)]])
      assume "next_table pm pdpt (pdpt_index va) m1 = None" "free_pages pm m1 = {}"
      then show thesis using l1 c1 by (intro fault) (simp_all add: mmap_def)
    next
      fix pd m2
      assume l2: "next_table pm pdpt (pdpt_index va) m1 = Some (pd, m2)" and h2: "grows pm root m1 m2"
        and t2: "table_at m2 root ([pml4_index va] @ [pdpt_index va]) pd"
        and c2: "card (free_pages pm m1) \<le> Suc (card (free_pages pm m2))"
      have t2': "table_at m2 root [pml4_index va, pdpt_index va] pd" using t2 by simp
      have g2: "grows pm root m m2" by (rule grows_trans [OF g1 h2])
      show thesis
      proof (rule next_table_cases [OF pool growsD(1) [OF g2] t2' _ idx(3) not_large_step [OF t2' nl g2 va(3)]])
        assume "next_table pm pd (pd_index va) m2 = None" "free_pages pm m2 = {}"
        then show thesis using l1 l2 c1 c2 by (intro fault) (simp_all add: mmap_def)
      next
        fix pt m3
        assume l3: "next_table pm pd (pd_index va) m2 = Some (pt, m3)" and h3: "grows pm root m2 m3"
          and t3: "table_at m3 root ([pml4_index va, pdpt_index va] @ [pd_index va]) pt"
        have "table_at m3 root [pml4_index va, pdpt_index va, pd_index va] pt" using t3 by simp
        then show thesis
          using grows_trans [OF g2 h3] l1 l2 l3
          by (intro mapped) (simp_all add: mmap_def Let_def write64_write64 leaf_entry_def)
      qed simp_all
    qed simp_all
  qed simp_all
qed

lemma mmap_translate:
  assumes pool: "pool_ok pm" and ok: "tables_ok pm m root" and nl: "no_large_page m root va"
    and r: "mmap pm root va pa flags m = Some m'"
  shows "translate m' root va = Page (leaf_entry pa flags)"
    and "\<not> same_page va' va \<Longrightarrow> translate m' root va' = translate m root va'"
    and "tables_ok pm m' root" and "free_pages pm m' \<subseteq> free_pages pm m"
    and "untouched pm root m a \<Longrightarrow> m' a = m a"
proof -
  from pool ok nl obtain m3 pt where g: "grows pm root m m3"
    and t: "table_at m3 root [pml4_index va, pdpt_index va, pd_index va] pt"
    and m': "m' = write64 m3 (pt + 8 * pt_index va) (leaf_entry pa flags)"
    by (rule mmap_cases [where pa = pa and flags = flags]) (use r in simp_all)
  have i: "pt_index va < 512" using path_indices(1) [of va] by (simp add: indices_def)
  have va: "indices va = [pml4_index va, pdpt_index va, pd_index va] @ [pt_index va]"
    by (simp add: indices_def)
  note leaf = leaf_write [OF growsD(1) [OF g] t _ i m', simplified]
  show "translate m' root va = Page (leaf_entry pa flags)" using leaf(3) by (simp add: translate_def indices_def)
  show "translate m' root va' = translate m root va'" if "\<not> same_page va' va"
  proof -
    have "indices va' \<noteq> [pml4_index va, pdpt_index va, pd_index va] @ [pt_index va]"
      using that indices_eq_iff [of va' va] va by simp
    then have "walk m' root (indices va') = walk m3 root (indices va')"
      by (intro leaf_write(4) [OF growsD(1) [OF g] t _ i m']) simp_all
    then show ?thesis using growsD(2) [OF g, of "indices va'"] by (simp add: translate_def)
  qed
  show "tables_ok pm m' root" by (rule leaf(1))
  show "free_pages pm m' \<subseteq> free_pages pm m" using leaf(5) growsD(5) [OF g] by simp
  show "m' a = m a" if "untouched pm root m a"
  proof -
    have "a \<notin> region pt 4096" using untouched_grows [OF g that] t by (auto simp: untouched_def)
    then show ?thesis using leaf(6) growsD(6) [OF g that] by simp
  qed
qed

lemma child_table:
  assumes ok: "tables_ok pm m root" and t: "table_at m root is t" and len: "length is \<le> 2" and i: "i < 512"
    and e: "present (read64 m (t + 8 * i))" "\<not> large (read64 m (t + 8 * i))"
  shows "table_at m root (is @ [i]) (table_of (read64 m (t + 8 * i)))"
proof -
  have "frame (read64 m (t + 8 * i)) = read64 m (t + 8 * i) AND NOT 0xFFF"
    by (rule tables_okD(4) [OF ok t len i e])
  then show ?thesis
    using t len i e node_append [of m root "is" t "[i]"] by (simp add: table_at_def Let_def table_of_def)
qed

lemma absent_entry:
  "table_at m root is t \<Longrightarrow> \<not> present (read64 m (t + 8 * i)) \<Longrightarrow> walk m root (is @ i # suf) = Unmapped"
  using walk_append [of m root "is" t "i # suf"] by (simp add: table_at_def Let_def)

lemma unmap_cases:
  assumes ok: "tables_ok pm m root" and nl: "no_large_page m root va"
  obtains (absent) "unmap root va m = (m, None)" "translate m root va = Unmapped"
  | (leaf) pt where "table_at m root [pml4_index va, pdpt_index va, pd_index va] pt"
      "unmap root va m = (write64 m (pt + 8 * pt_index va) 0, Some va)"
proof -
  let ?i4 = "pml4_index va" and ?i3 = "pdpt_index va" and ?i2 = "pd_index va" and ?i1 = "pt_index va"
  have idx: "?i4 < 512" "?i3 < 512" "?i2 < 512" "?i1 < 512"
    using path_indices(1) [of va] by (simp_all add: indices_def)
  have va: "indices va = [] @ ?i4 # [?i3, ?i2, ?i1]" "indices va = [?i4] @ ?i3 # [?i2, ?i1]"
    "indices va = [?i4, ?i3] @ ?i2 # [?i1]"
    by (simp_all add: indices_def)
  note g = grows_refl [OF ok] and step = not_large_step [OF _ nl grows_refl [OF ok]]
  let ?e4 = "read64 m (root + 8 * ?i4)"
  show thesis
  proof (cases "present ?e4")
    case False
    then show thesis
      using absent_entry [OF root_table False, of "[?i3, ?i2, ?i1]"]
      by (intro absent) (simp_all add: unmap_def present_def translate_def indices_def)
  next
    case e4: True
    let ?pdpt = "table_of ?e4"
    have t1: "table_at m root [?i4] ?pdpt"
      using child_table [OF ok root_table _ idx(1) e4 step [OF root_table va(1) _ e4]] by simp
    let ?e3 = "read64 m (?pdpt + 8 * ?i3)"
    show thesis
    proof (cases "present ?e3")
      case False
      then show thesis
        using e4 absent_entry [OF t1 False, of "[?i2, ?i1]"]
        by (intro absent) (simp_all add: unmap_def present_def translate_def indices_def)
    next
      case e3: True
      let ?pd = "table_of ?e3"
      have t2: "table_at m root [?i4, ?i3] ?pd"
        using child_table [OF ok t1 _ idx(2) e3 step [OF t1 va(2) _ e3]] by simp
      let ?e2 = "read64 m (?pd + 8 * ?i2)"
      show thesis
      proof (cases "present ?e2")
        case False
        then show thesis
          using e4 e3 absent_entry [OF t2 False, of "[?i1]"]
          by (intro absent) (simp_all add: unmap_def present_def translate_def indices_def)
      next
        case e2: True
        have t3: "table_at m root [?i4, ?i3, ?i2] (table_of ?e2)"
          using child_table [OF ok t2 _ idx(3) e2 step [OF t2 va(3) _ e2]] by simp
        then show thesis
          using e4 e3 e2 by (intro leaf [OF t3]) (simp add: unmap_def present_def Let_def)
      qed
    qed
  qed
qed

lemma not_present_0 [simp]: "\<not> present 0"
  by (simp add: present_def)

lemma unmap_translate:
  assumes ok: "tables_ok pm m root" and nl: "no_large_page m root va" and r: "unmap root va m = (m', tlb)"
  shows "translate m' root va = Unmapped"
    and "\<not> same_page va' va \<Longrightarrow> translate m' root va' = translate m root va'"
    and "tables_ok pm m' root" and "free_pages pm m' = free_pages pm m"
    and "untouched pm root m a \<Longrightarrow> m' a = m a"
    and "translate m root va \<noteq> Unmapped \<Longrightarrow> tlb = Some va"
proof -
  have "translate m' root va = Unmapped \<and>
      (\<forall>va'. \<not> same_page va' va \<longrightarrow> translate m' root va' = translate m root va') \<and>
      tables_ok pm m' root \<and> free_pages pm m' = free_pages pm m \<and>
      (\<forall>a. untouched pm root m a \<longrightarrow> m' a = m a) \<and> (translate m root va \<noteq> Unmapped \<longrightarrow> tlb = Some va)"
    using ok nl
  proof (cases rule: unmap_cases)
    case absent
    with r ok show ?thesis by simp
  next
    case (leaf pt)
    have m': "m' = write64 m (pt + 8 * pt_index va) 0" "tlb = Some va" using leaf(2) r by auto
    have i: "pt_index va < 512" using path_indices(1) [of va] by (simp add: indices_def)
    have va: "indices va = [pml4_index va, pdpt_index va, pd_index va] @ [pt_index va]"
      by (simp add: indices_def)
    note lw = leaf_write [OF ok leaf(1) _ i m'(1), simplified]
    have "translate m' root va' = translate m root va'" if "\<not> same_page va' va" for va'
    proof -
      have "indices va' \<noteq> [pml4_index va, pdpt_index va, pd_index va] @ [pt_index va]"
        using that indices_eq_iff [of va' va] va by simp
      then show ?thesis
        unfolding translate_def by (intro leaf_write(4) [OF ok leaf(1) _ i m'(1)]) simp_all
    qed
    moreover have "m' a = m a" if "untouched pm root m a" for a
      using that leaf(1) by (intro lw(6)) (auto simp: untouched_def)
    moreover have "translate m' root va = Unmapped" using lw(3) by (simp add: translate_def indices_def)
    ultimately show ?thesis using lw(1,5) m'(2) by simp
  qed
  then show "translate m' root va = Unmapped"
    "\<not> same_page va' va \<Longrightarrow> translate m' root va' = translate m root va'"
    "tables_ok pm m' root" "free_pages pm m' = free_pages pm m"
    "untouched pm root m a \<Longrightarrow> m' a = m a" "translate m root va \<noteq> Unmapped \<Longrightarrow> tlb = Some va"
    by auto
qed

section \<open>Taking over the boot loader's tables\<close>

lemma read64_copied:
  assumes "(j :: u64) < 512" and "\<And>a. a \<in> region src 4096 \<Longrightarrow> m1 a = m a"
  shows "read64 (copied m1 p src 4096) (p + 8 * j) = read64 m (src + 8 * j)"
proof (rule bit_eqI)
  fix n assume "possible_bit TYPE(u64) n"
  then have n: "n div 8 < 8" by (simp add: div_less_iff_less_mult)
  let ?k = "of_nat (n div 8) :: u64"
  have in_entry: "t + 8 * j + ?k \<in> region (t + 8 * j) 8" for t
    using n by (subst region_offset) simp_all
  have k: "src + 8 * j + ?k \<in> region src 4096" "p + 8 * j + ?k \<in> region p 4096"
    by (rule subsetD [OF entry_region_subset [OF assms(1)] in_entry])+
  have e: "src + (p + 8 * j + ?k - p) = src + 8 * j + ?k" by simp
  have "copied m1 p src 4096 (p + 8 * j + ?k) = m (src + 8 * j + ?k)"
    using k assms(2) by (simp only: copied_def if_True e)
  then show "bit (read64 (copied m1 p src 4096) (p + 8 * j)) n = bit (read64 m (src + 8 * j)) n"
    by (simp add: bit_read64)
qed

text \<open>A copy of the root in a page of its own, under which the other tables stay as they were.\<close>

lemma copied_root_ok:
  assumes fits: "pmm_fits pm" and ok: "tables_ok pm m virt" and pf: "p \<in> free_pages pm m"
    and free: "free_pages pm m' = free_pages pm m - {p}"
    and tables: "\<And>js u. table_at m' p js u \<longleftrightarrow> (if js = [] then u = p else table_at m virt js u)"
    and root: "\<And>j. j < 512 \<Longrightarrow> read64 m' (p + 8 * j) = read64 m (virt + 8 * j)"
    and other: "\<And>js u j. table_at m virt js u \<Longrightarrow> j < 512 \<Longrightarrow> read64 m' (u + 8 * j) = read64 m (u + 8 * j)"
  shows "tables_ok pm m' p"
proof -
  have p: "p \<in> pmm_pages pm" using pf by (simp add: free_pages_def)
  have F: "region u 4096 \<inter> region p 4096 = {}" if "table_at m virt js u" for js u
    by (rule tables_okD(2) [OF ok that pf])
  have "region u 4096 \<inter> bitmap_region pm = {}" if "table_at m' p js u" for js u
    using that tables_okD(1) [OF ok] pmm.page_meta [OF fits p] by (auto simp: tables split: if_splits)
  moreover have "region u 4096 \<inter> region q 4096 = {}" if u: "table_at m' p js u" and q: "q \<in> free_pages pm m'" for js u q
  proof -
    have "q \<in> free_pages pm m" "q \<in> pmm_pages pm" "q \<noteq> p" using q unfolding free by (simp_all add: free_pages_def)
    then show ?thesis
      using u tables_okD(2) [OF ok, of js u q] pmm.page_page [OF fits p, of q] by (auto simp: tables split: if_splits)
  qed
  moreover have "region u 4096 \<inter> region v 4096 = {}"
    if a: "table_at m' p js u" "table_at m' p ks v" "js \<noteq> ks" for js ks u v
  proof -
    from a consider "table_at m virt js u" "table_at m virt ks v" | "table_at m virt js u" "v = p"
      | "u = p" "table_at m virt ks v"
      by (auto simp: tables split: if_splits)
    then show ?thesis using a(3) tables_okD(3) [OF ok] F by cases blast+
  qed
  moreover have "let e = read64 m' (u + 8 * j) in present e \<and> \<not> large e \<longrightarrow> frame e = e AND NOT 0xFFF"
    if a: "table_at m' p js u" "length js \<le> 2" "j < 512" for js u j
  proof (cases "js = []")
    case True
    then show ?thesis using a root tables_okD(4) [OF ok root_table] by (simp add: tables Let_def)
  next
    case False
    with a have u: "table_at m virt js u" by (simp add: tables)
    with a other [OF u] tables_okD(4) [OF ok u] show ?thesis by (simp add: Let_def)
  qed
  ultimately show ?thesis unfolding tables_ok_def by blast
qed

lemma vmm_init_cases:
  assumes pool: "pool_ok pm" and ok: "tables_ok pm m (PA2VA cr3_reg)"
  obtains (fault) "vmm_init pm cr3_reg m = None" "free_pages pm m = {}"
  | (init) p m' where "p \<in> free_pages pm m"
      "vmm_init pm cr3_reg m =
        Some (\<lparr>PML4 = p, cr3_phys = cr3_reg, cr3_virt = PA2VA cr3_reg, CR3 = VA2PA p\<rparr>, m')"
      "\<And>j. j < 512 \<Longrightarrow> read64 m' (p + 8 * j) = read64 m (PA2VA cr3_reg + 8 * j)"
      "\<And>js u j. table_at m (PA2VA cr3_reg) js u \<Longrightarrow> j < 512 \<Longrightarrow> read64 m' (u + 8 * j) = read64 m (u + 8 * j)"
      "free_pages pm m' = free_pages pm m - {p}"
proof -
  let ?virt = "PA2VA cr3_reg"
  note fits = pool_fits [OF pool]
  obtain p m1 where alloc: "palloc pm m = (p, m1)" by fastforce
  show thesis
  proof (cases "p = 0")
    case True
    then have "pmm_live pm m = pmm_pages pm" using pmm.alloc_full [OF fits] alloc by blast
    with True alloc fault show thesis by (simp add: vmm_init_def free_pages_def)
  next
    case False
    have p: "p \<in> pmm_pages pm" "p \<notin> pmm_live pm m" "pmm_live pm m1 = insert p (pmm_live pm m)"
      using pmm.alloc_page [OF fits alloc False] by auto
    then have pf: "p \<in> free_pages pm m" by (simp add: free_pages_def)
    let ?m = "copied m1 p ?virt 4096"
    have vp: "region ?virt 4096 \<inter> region p 4096 = {}" by (rule tables_okD(2) [OF ok root_table pf])
    then have cp: "memcpy m1 p ?virt 4096 = ?m" by (subst memcpy_copied) auto
    have same: "?m a = m a" if "a \<notin> bitmap_region pm" "a \<notin> region p 4096" for a
      using that pmm.alloc_frame [OF fits alloc that(1)] by (simp add: copied_def)
    have t: "read64 ?m (u + 8 * j) = read64 m (u + 8 * j)" if "table_at m ?virt js u" "j < 512" for js u j
    proof (rule read64_cong)
      fix a assume "a \<in> region (u + 8 * j) 8"
      then have "a \<in> region u 4096" using entry_region_subset [OF that(2)] by blast
      then show "?m a = m a"
        using tables_okD(1) [OF ok that(1)] tables_okD(2) [OF ok that(1) pf] by (intro same) blast+
    qed
    have r: "read64 ?m (p + 8 * j) = read64 m (?virt + 8 * j)" if "j < 512" for j
      using tables_okD(1) [OF ok root_table]
      by (intro read64_copied [OF that] pmm.alloc_frame [OF fits alloc]) blast
    have "pmm_live pm ?m = pmm_live pm m1"
      using pmm.page_meta [OF fits p(1)] by (intro pmm_live_cong) (auto simp: copied_def)
    then have "free_pages pm ?m = free_pages pm m - {p}" using p(3) by (auto simp: free_pages_def)
    moreover have "vmm_init pm cr3_reg m =
        Some (\<lparr>PML4 = p, cr3_phys = cr3_reg, cr3_virt = ?virt, CR3 = VA2PA p\<rparr>, ?m)"
      using False alloc cp by (simp add: vmm_init_def Let_def)
    ultimately show thesis using r t by (intro init [OF pf]) simp_all
  qed
qed

lemma vmm_init_tables:
  assumes pool: "pool_ok pm" and ok: "tables_ok pm m (PA2VA cr3_reg)"
    and r: "vmm_init pm cr3_reg m = Some (s, m')"
  shows "translate m' (PML4 s) va = translate m (PA2VA cr3_reg) va"
    and "tables_ok pm m' (PML4 s)" and "PA2VA (CR3 s) = PML4 s"
proof -
  let ?virt = "PA2VA cr3_reg"
  from pool ok obtain p where p: "p \<in> free_pages pm m" "PML4 s = p" "CR3 s = VA2PA p"
    and root: "\<And>j. j < 512 \<Longrightarrow> read64 m' (p + 8 * j) = read64 m (?virt + 8 * j)"
    and other: "\<And>js u j. table_at m ?virt js u \<Longrightarrow> j < 512 \<Longrightarrow> read64 m' (u + 8 * j) = read64 m (u + 8 * j)"
    and free: "free_pages pm m' = free_pages pm m - {p}"
    by (rule vmm_init_cases) (use r in auto)
  have below: "read64 m' (u + 8 * j) = read64 m (u + 8 * j)"
    if "path (i # is)" "length is \<le> 3" "is = pre @ j # suf"
      "present (read64 m (?virt + 8 * i)) \<and> \<not> large (read64 m (?virt + 8 * i))"
      "node m (PA2VAu64 (frame (read64 m (?virt + 8 * i)))) pre = Some u" for i "is" pre j suf u
    using that by (intro other [of "i # pre"]) (auto simp: table_at_def Let_def)
  have nodes: "node m' p (i # is) = node m ?virt (i # is)" if "path (i # is)" "length is \<le> 3" for i "is"
    using that below [OF that] node_cong [of "is" m "PA2VAu64 (frame (read64 m (?virt + 8 * i)))" m']
    by (auto simp: root Let_def)
  have walks: "walk m' p (i # is) = walk m ?virt (i # is)" if "path (i # is)" "length is \<le> 3" for i "is"
    using that below [OF that] walk_cong [of "is" m "PA2VAu64 (frame (read64 m (?virt + 8 * i)))" m']
    by (auto simp: root Let_def)
  show "translate m' (PML4 s) va = translate m ?virt va"
    using walks [of "pml4_index va" "[pdpt_index va, pd_index va, pt_index va]"] path_indices(1) [of va]
    by (simp add: translate_def indices_def p)
  show "PA2VA (CR3 s) = PML4 s" by (simp add: p)
  have tables: "table_at m' p js u \<longleftrightarrow> (if js = [] then u = p else table_at m ?virt js u)" for js u
    using nodes by (cases js) (auto simp: table_at_def)
  have "tables_ok pm m' p"
    by (rule copied_root_ok [OF pool_fits [OF pool] ok p(1) free tables root other])
  then show "tables_ok pm m' (PML4 s)" by (simp add: p)
qed

section \<open>Properties\<close>

text \<open>The pool of \<open>pmm_demo\<close> moved to the higher half, and an empty tree of tables above it.\<close>

definition vmm_demo :: PmmFile where
  "vmm_demo = pmm_demo\<lparr>pf_base := 0xFFFF800000100000, pf_bitmap_base := 0xFFFF800000001000\<rparr>"

definition root_demo :: u64 where
  "root_demo = 0xFFFF800000200000"

lemma vmm_demo_simps [simp]:
  "pf_base vmm_demo = 0xFFFF800000100000" "pf_length vmm_demo = 0xC000"
  "pf_bitmap_base vmm_demo = 0xFFFF800000001000" "pf_bitmap_length vmm_demo = 2"
  "page_count vmm_demo = 16"
  by (simp_all add: vmm_demo_def pmm_demo_def page_count_def)

lemma vmm_demo_pool: "pool_ok vmm_demo"
proof -
  have "region (0xFFFF800000001000 :: u64) 2 \<inter> region 0xFFFF800000100000 65536 = {}"
    by (rule region_disjoint) simp_all
  then show ?thesis by (simp add: pool_ok_def pmm_fits_def pmm_ok_def bitmap_region_def HHDM_def)
qed

lemma root_demo_tables: "tables_ok vmm_demo (\<lambda>_. 0) root_demo"
proof -
  have ok: "pmm_ok vmm_demo" using vmm_demo_pool by (simp add: pool_ok_def pmm_fits_def)
  have z: "read64 (\<lambda>_. 0) a = 0" for a by (rule read64_zero) simp
  have t: "table_at (\<lambda>_. 0) root_demo is t \<longleftrightarrow> is = [] \<and> t = root_demo" for "is" t
    by (cases "is") (auto simp: table_at_def z)
  have b: "region root_demo 4096 \<inter> bitmap_region vmm_demo = {}"
    by (subst Int_commute) (auto simp: bitmap_region_def root_demo_def intro!: region_disjoint)
  have "region root_demo 4096 \<inter> region p 4096 = {}" if "p \<in> pmm_pages vmm_demo" for p
  proof -
    from that obtain i where i: "i < 16" "p = page_addr vmm_demo i" by (auto simp: pmm_pages_def)
    then have "unat p = 0xFFFF800000100000 + i * 4096" using unat_page_addr [OF ok, of i] by simp
    then show ?thesis
      using i(1) by (subst Int_commute, intro region_disjoint) (simp_all add: root_demo_def)
  qed
  with b show ?thesis by (simp add: tables_ok_def t z free_pages_def)
qed

lemma root_demo_translate: "translate (\<lambda>_. 0) root_demo va = Unmapped"
proof -
  have z: "read64 (\<lambda>_. 0) a = 0" for a by (rule read64_zero) simp
  show ?thesis by (simp add: translate_def indices_def z)
qed

lemma root_demo_no_large: "no_large_page (\<lambda>_. 0) root_demo va"
  by (simp add: no_large_page_def root_demo_translate)

lemma free_pages_demo: "card (free_pages vmm_demo (\<lambda>_. 0)) = 16"
proof -
  have ok: "pmm_ok vmm_demo" using vmm_demo_pool by (simp add: pool_ok_def pmm_fits_def)
  have "free_pages vmm_demo (\<lambda>_. 0) = page_addr vmm_demo ` {i. i < 16}"
    by (simp add: free_pages_def pmm_pages_def pmm_live_def page_used_def)
  then show ?thesis using page_addr_inject [OF ok] by (simp add: card_image inj_on_def)
qed



text \<open>C15: \<^verbatim>\<open>mmap\<close> does not check \<^verbatim>\<open>palloc\<close>, but with at least three free pages it cannot
  run into the null pointer: it needs at most one page per level below the root.\<close>

theorem mmap_succeeds:
  assumes "pool_ok pm" and "tables_ok pm m root" and "no_large_page m root va"
    and "3 \<le> card (free_pages pm m)"
  shows "mmap pm root va pa flags m \<noteq> None"
  using assms(1-3)
  by (rule mmap_cases [where pa = pa and flags = flags]) (use assms(4) in simp_all)

theorem mmap_succeeds_witness:
  "mmap vmm_demo root_demo 0xFFFF900000000000 0 0 (\<lambda>_. 0) \<noteq> None"
  by (rule mmap_succeeds [OF vmm_demo_pool root_demo_tables root_demo_no_large]) (simp add: free_pages_demo)

text \<open>With no free page left, \<^verbatim>\<open>mmap\<close> of an address whose top-level entry is absent
  faults: the null pointer that \<^verbatim>\<open>palloc\<close> returns is cleared without a check.\<close>

theorem mmap_faults:
  assumes "pmm_fits pm" and "free_pages pm m = {}" and "\<not> present (read64 m (root + 8 * pml4_index va))"
  shows "mmap pm root va pa flags m = None"
proof -
  have "pmm_live pm m = pmm_pages pm"
    using assms(2) pmm.live_pages [OF assms(1), of m] by (auto simp: free_pages_def)
  then have "fst (palloc pm m) = 0" using pmm.alloc_fails_iff [OF assms(1)] by simp
  then show ?thesis using assms(3)
    by (cases "palloc pm m") (simp add: mmap_def next_table_def present_def)
qed

theorem mmap_faults_witness: "mmap vmm_demo root_demo 0x400000 0x7000 0 (\<lambda>a. if a \<in> region 0xFFFF800000001000 2 then 0xFF else 0) = None"
proof (rule mmap_faults)
  let ?m = "\<lambda>a. if a \<in> region 0xFFFF800000001000 2 then 0xFF else 0 :: u8"
  show "pmm_fits vmm_demo" by (rule pool_fits [OF vmm_demo_pool])
  have "page_used vmm_demo ?m i \<longleftrightarrow> page_used vmm_demo (\<lambda>_. 0xFF) i" if "i < 16" for i
    by (rule page_used_cong) (use that in \<open>simp_all add: bitmap_region_def\<close>)
  then show "free_pages vmm_demo ?m = {}"
    by (auto simp: free_pages_def pmm_pages_def pmm_live_def page_used_full)
  have "region (root_demo + 8 * pml4_index 0x400000) 8 \<inter> region (0xFFFF800000001000 :: u64) 2 = {}"
    by (subst Int_commute) (auto simp: root_demo_def pml4_index_def drop_bit_eq_div intro!: region_disjoint)
  then have "read64 ?m (root_demo + 8 * pml4_index 0x400000) = 0" by (intro read64_zero) auto
  then show "\<not> present (read64 ?m (root_demo + 8 * pml4_index 0x400000))" by simp
qed



text \<open>\<^verbatim>\<open>vmm_init\<close> fails only without a free page; otherwise the copied root translates
  every address as the boot loader's tables did, is what \<^verbatim>\<open>cr3\<close> now points to, and is the
  root of a well-formed tree.\<close>

theorem vmm_init_keeps_translations:
  assumes "pool_ok pm" and "tables_ok pm m (PA2VA cr3_reg)"
  shows "case vmm_init pm cr3_reg m of None \<Rightarrow> free_pages pm m = {}
    | Some (s, m') \<Rightarrow> (\<forall>va. translate m' (PML4 s) va = translate m (PA2VA cr3_reg) va) \<and>
        PA2VA (CR3 s) = PML4 s \<and> tables_ok pm m' (PML4 s)"
proof (cases "vmm_init pm cr3_reg m")
  case None
  from assms show ?thesis by (cases rule: vmm_init_cases) (use None in simp_all)
next
  case (Some r)
  then obtain s m' where "vmm_init pm cr3_reg m = Some (s, m')" by (cases r) simp
  with vmm_init_tables [OF assms this] show ?thesis by simp
qed

theorem vmm_init_keeps_translations_witness:
  "\<exists>s m'. vmm_init vmm_demo 0x200000 (\<lambda>_. 0) = Some (s, m') \<and>
    translate m' (PML4 s) 0x400000 = translate (\<lambda>_. 0) root_demo 0x400000"
proof -
  have r: "PA2VA 0x200000 = root_demo" by (simp add: PA2VA_def HHDM_def root_demo_def)
  have "tables_ok vmm_demo (\<lambda>_. 0) (PA2VA 0x200000)" unfolding r by (rule root_demo_tables)
  moreover have "free_pages vmm_demo (\<lambda>_. 0) \<noteq> {}" using free_pages_demo by force
  ultimately show ?thesis
    using vmm_init_keeps_translations [OF vmm_demo_pool, of "\<lambda>_. 0" 2097152] unfolding r
    by (auto split: option.splits)
qed

end
