(* ===== verification/Scheduler.thy ===== *)
theory Scheduler
  imports PMM MemWords
begin

text \<open>
  Model of the scheduler, \<^verbatim>\<open>src/ASNU/src/sched/scheduler.c\<close>. A \<^verbatim>\<open>Procedure\<close> is an object
  on a page of \<^verbatim>\<open>kalloc\<close>, only accessed through its fields, so the objects are a typed heap
  \<open>procs\<close> from addresses to records, beside byte memory for stacks. The assembly blocks of
  \<^verbatim>\<open>context_switch\<close> are modelled as what they state: the register file is copied to the fields
  named as outputs, and loaded from those named as inputs, after which control is at \<^verbatim>\<open>rip\<close>.
\<close>

section \<open>State\<close>

datatype SchedulerState =
    PROC_NEW
  | PROC_READY
  | PROC_RUNNING
  | PROC_WAITING
  | PROC_SLEEPING
  | PROC_TERMINATED
  | PROC_SUSPENDED
  | PROC_IDLE

text \<open>The segment fields and \<^verbatim>\<open>cr3\<close> carry a prefix, to keep their short names free.\<close>

record RegisterState =
  rax :: u64  rbx :: u64  rcx :: u64  rdx :: u64
  rsi :: u64  rdi :: u64  rbp :: u64  rsp :: u64
  r8 :: u64  r9 :: u64  r10 :: u64  r11 :: u64
  r12 :: u64  r13 :: u64  r14 :: u64  r15 :: u64
  rip :: u64
  rflags :: u64
  reg_cr3 :: u64
  reg_cs :: u16  reg_ds :: u16  reg_es :: u16  reg_fs :: u16  reg_gs :: u16  reg_ss :: u16

record CPUState =
  cpu_Id :: u32
  ParentCpuId :: u32
  cpu_State :: SchedulerState
  EntryPoint :: u64
  KernelStack :: u64
  UserStack :: u64
  PagesMapped :: u64
  TimeUsedNs :: u64
  TimeSliceNs :: u64
  IsKernelProcedure :: bool
  Regs :: RegisterState

record Procedure =
  pid :: u32
  proc_state :: SchedulerState
  privilege_level :: u8
  thread_id :: u32
  state :: CPUState

text \<open>\<^verbatim>\<open>sizeof\<close> of the packed structure.\<close>

definition sizeof_Procedure :: u64 where
  "sizeof_Procedure = 238"

text \<open>What an object holds after \<^verbatim>\<open>memset(p, 0, sizeof(Procedure))\<close>.\<close>

definition zero_regs :: RegisterState where
  "zero_regs = \<lparr>rax = 0, rbx = 0, rcx = 0, rdx = 0, rsi = 0, rdi = 0, rbp = 0, rsp = 0,
     r8 = 0, r9 = 0, r10 = 0, r11 = 0, r12 = 0, r13 = 0, r14 = 0, r15 = 0, rip = 0, rflags = 0,
     reg_cr3 = 0, reg_cs = 0, reg_ds = 0, reg_es = 0, reg_fs = 0, reg_gs = 0, reg_ss = 0\<rparr>"

definition zero_procedure :: Procedure where
  "zero_procedure = \<lparr>pid = 0, proc_state = PROC_NEW, privilege_level = 0, thread_id = 0,
     state = \<lparr>cpu_Id = 0, ParentCpuId = 0, cpu_State = PROC_NEW, EntryPoint = 0, KernelStack = 0,
       UserStack = 0, PagesMapped = 0, TimeUsedNs = 0, TimeSliceNs = 0, IsKernelProcedure = False,
       Regs = zero_regs\<rparr>\<rparr>"

definition MAX_PROCS :: nat where
  "MAX_PROCS = 1024"

text \<open>
  \<open>proc_list\<close> is the list of the first \<^verbatim>\<open>proc_count\<close> entries of the array, the only ones
  that are ever read; the null pointer is the address 0.
\<close>

record sched =
  procs :: "u64 \<Rightarrow> Procedure"
  proc_list :: "u64 list"
  current_proc :: u64
  next_pid :: u32
  SchedTickFreq :: u32
  sched_ticks :: u64

definition proc_count :: "sched \<Rightarrow> nat" where
  "proc_count s = length (proc_list s)"

definition set_state :: "u64 \<Rightarrow> SchedulerState \<Rightarrow> sched \<Rightarrow> sched" where
  "set_state p st s = s\<lparr>procs := (procs s)(p := (procs s p)\<lparr>proc_state := st\<rparr>)\<rparr>"

section \<open>Operations\<close>

definition scheduler_get_current :: "sched \<Rightarrow> u64" where
  "scheduler_get_current s = current_proc s"

definition scheduler_init :: "sched \<Rightarrow> sched" where
  "scheduler_init s = s\<lparr>proc_list := [], current_proc := 0, next_pid := 1\<rparr>"

text \<open>
  \<^verbatim>\<open>create_proc\<close>; its parameters \<^verbatim>\<open>argc\<close>, \<^verbatim>\<open>argv\<close>, \<^verbatim>\<open>envp\<close>, \<^verbatim>\<open>heap_base\<close> and
  \<^verbatim>\<open>heap_size\<close> are unused in the source and left out.
\<close>

definition create_proc ::
  "PmmFile \<Rightarrow> u64 \<Rightarrow> u8 \<Rightarrow> u64 \<Rightarrow> u64 \<Rightarrow> sched \<Rightarrow> mem \<Rightarrow> u64 \<times> sched \<times> mem" where
  "create_proc pm entry_point privilege stack_base stack_size s m =
     (case kalloc pm sizeof_Procedure m of (p, m1) \<Rightarrow>
        if p = 0 then (0, s, m1)
        else
          let m2 = memset m1 p 0 sizeof_Procedure;
              stack_top = (stack_base + stack_size) - 8;
              m3 = write64 m2 stack_top 0;
              proc = zero_procedure
                \<lparr>pid := next_pid s, proc_state := PROC_NEW, privilege_level := privilege AND 0x3,
                 thread_id := 0,
                 state := (state zero_procedure)
                   \<lparr>cpu_Id := next_pid s, EntryPoint := entry_point, KernelStack := stack_base,
                    UserStack := stack_base + stack_size, PagesMapped := 0, TimeUsedNs := 0,
                    TimeSliceNs := 0, IsKernelProcedure := (privilege = 0),
                    Regs := zero_regs\<lparr>rip := entry_point, rflags := 0x202, rsp := stack_top\<rparr>\<rparr>\<rparr>
          in (p, s\<lparr>next_pid := next_pid s + 1, procs := (procs s)(p := proc)\<rparr>, m3))"

text \<open>\<open>None\<close> is the null pointer being dereferenced.\<close>

definition register_proc :: "u64 \<Rightarrow> sched \<Rightarrow> sched option" where
  "register_proc proc s =
     (if proc_count s \<ge> MAX_PROCS then Some s
      else if proc = 0 then None
      else let s1 = set_state proc PROC_READY (s\<lparr>proc_list := proc_list s @ [proc]\<rparr>)
           in if current_proc s1 = 0
              then Some (set_state proc PROC_RUNNING (s1\<lparr>current_proc := proc\<rparr>))
              else Some s1)"

definition runnable :: "sched \<Rightarrow> u64 \<Rightarrow> bool" where
  "runnable s p \<longleftrightarrow> proc_state (procs s p) = PROC_READY \<or> proc_state (procs s p) = PROC_IDLE"

text \<open>The first loop of \<^verbatim>\<open>find_next_proc\<close>: where the search starts.\<close>

definition next_start :: "sched \<Rightarrow> nat" where
  "next_start s =
     (if current_proc s = 0 then 0
      else case find (\<lambda>i. proc_list s ! i = current_proc s) [0..<proc_count s] of
        None \<Rightarrow> 0
      | Some i \<Rightarrow> (i + 1) mod proc_count s)"

definition find_next_proc :: "sched \<Rightarrow> u64" where
  "find_next_proc s =
     (if proc_count s = 0 then 0
      else case find (\<lambda>i. runnable s (proc_list s ! ((next_start s + i) mod proc_count s)))
          [0..<proc_count s] of
        None \<Rightarrow> 0
      | Some i \<Rightarrow> proc_list s ! ((next_start s + i) mod proc_count s))"

text \<open>
  The two assembly blocks. Saving writes every general register and the flags, but neither
  \<^verbatim>\<open>rip\<close> nor the fields after it; the flags go over the stack, below \<^verbatim>\<open>rsp\<close>.
\<close>

definition save_regs :: "RegisterState \<Rightarrow> RegisterState \<Rightarrow> RegisterState" where
  "save_regs cpu r = r\<lparr>rax := rax cpu, rbx := rbx cpu, rcx := rcx cpu, rdx := rdx cpu,
     rsi := rsi cpu, rdi := rdi cpu, rbp := rbp cpu, rsp := rsp cpu, r8 := r8 cpu, r9 := r9 cpu,
     r10 := r10 cpu, r11 := r11 cpu, r12 := r12 cpu, r13 := r13 cpu, r14 := r14 cpu,
     r15 := r15 cpu, rflags := rflags cpu\<rparr>"

definition load_regs :: "RegisterState \<Rightarrow> RegisterState \<Rightarrow> RegisterState" where
  "load_regs r cpu = cpu\<lparr>rax := rax r, rbx := rbx r, rcx := rcx r, rdx := rdx r,
     rsi := rsi r, rdi := rdi r, rbp := rbp r, rsp := rsp r, r8 := r8 r, r9 := r9 r,
     r10 := r10 r, r11 := r11 r, r12 := r12 r, r13 := r13 r, r14 := r14 r,
     r15 := r15 r, rflags := rflags r, rip := rip r\<rparr>"

definition push :: "u64 \<Rightarrow> u64 \<Rightarrow> mem \<Rightarrow> mem" where
  "push sp v m = write64 m (sp - 8) v"

text \<open>
  \<^verbatim>\<open>context_switch\<close> either returns to its caller or jumps into the next process, with the
  register file then loaded.
\<close>

datatype control = Returned | Jumped RegisterState

definition context_switch :: "RegisterState \<Rightarrow> sched \<Rightarrow> mem \<Rightarrow> control \<times> sched \<times> mem" where
  "context_switch cpu s m =
     (let next = find_next_proc s; prev = current_proc s
      in if next = 0 then (Returned, s, m)
         else if prev = next then (Returned, s, m)
         else
           let (s1, m1) =
                 (if prev \<noteq> 0 then
                    (let p = procs s prev; st = state p
                     in set_state prev PROC_READY
                          (s\<lparr>procs := (procs s)(prev := p\<lparr>state := st\<lparr>Regs := save_regs cpu (Regs st)\<rparr>\<rparr>)\<rparr>),
                        push (rsp cpu) (rflags cpu) m)
                  else (s, m));
               s2 = (set_state next PROC_RUNNING s1)\<lparr>current_proc := next\<rparr>;
               r = Regs (state (procs s2 next))
           in (Jumped (load_regs r cpu), s2, push (rsp r) (rflags r) m1))"

text \<open>
  The timer tick. The last log call is only reached when \<^verbatim>\<open>context_switch\<close> returns. A frequency
  of 0 would divide by zero.
\<close>

definition scheduler_tick ::
  "RegisterState \<Rightarrow> sched \<Rightarrow> mem \<Rightarrow> machine \<Rightarrow> (control \<times> sched \<times> mem \<times> machine) option" where
  "scheduler_tick cpu s m k =
     do {
       let s1 = s\<lparr>sched_ticks := sched_ticks s + 1\<rparr>;
       k1 \<leftarrow> serial_fwrite ''Scheduler ticked'' [] k;
       if SchedTickFreq s1 = 0 then None
       else if sched_ticks s1 mod ucast (SchedTickFreq s1) = 0 then
         do {
           k2 \<leftarrow> serial_fwrite ''Scheduler tick frequency rule met'' [] k1;
           (case context_switch cpu s1 m of
              (Jumped cpu', s2, m2) \<Rightarrow> Some (Jumped cpu', s2, m2, k2)
            | (Returned, s2, m2) \<Rightarrow>
                do {
                  k3 \<leftarrow> serial_fwrite (''Scheduler tick: %llu, current PID: %u'' @ [CHR 0x0A])
                    [VInt (sched_ticks s2),
                     VInt (if current_proc s2 \<noteq> 0 then ucast (pid (procs s2 (current_proc s2))) else 0)] k2;
                  Some (Returned, s2, m2, k3)
                })
         }
       else Some (Returned, s1, m, k1)
     }"

end
