(* ===== verification/Steps.thy ===== *)
theory Steps
  imports Main
begin

text \<open>
  The contract of a step relation with its invariant: every step keeps it. What holds along a
  run then follows once for all relations of the kernel, the life of the scheduler
  (\<open>sched_step\<close>) and the system of interrupts and running code (\<open>sys_step\<close>).
\<close>

locale step_invariant =
  fixes step :: "'s \<Rightarrow> 's \<Rightarrow> bool" and ok :: "'s \<Rightarrow> bool"
  assumes preserved: "step x y \<Longrightarrow> ok x \<Longrightarrow> ok y"
begin

lemma reachable: "step\<^sup>*\<^sup>* x y \<Longrightarrow> ok x \<Longrightarrow> ok y"
  by (induction rule: rtranclp_induct) (auto intro: preserved)

text \<open>An observation that no step changes is constant.\<close>

lemma unchanged:
  assumes "step\<^sup>*\<^sup>* x y" and "ok x" and "\<And>x y. step x y \<Longrightarrow> ok x \<Longrightarrow> f y = f x"
  shows "f y = f x"
  using assms(1,2)
proof (induction rule: rtranclp_induct)
  case (step y z)
  then show ?case using reachable assms(3) by metis
qed simp

text \<open>
  If each change of an observation makes a condition hold that then stays, the condition holds
  whenever the observation has changed.
\<close>

lemma changed:
  assumes "step\<^sup>*\<^sup>* x y" and "ok x" and "f y \<noteq> f x"
    and "\<And>x y. step x y \<Longrightarrow> ok x \<Longrightarrow> f y \<noteq> f x \<Longrightarrow> P y" and "\<And>x y. step x y \<Longrightarrow> P x \<Longrightarrow> P y"
  shows "P y"
  using assms(1-3)
proof (induction rule: rtranclp_induct)
  case (step y z)
  have "ok y" by (rule reachable [OF step.hyps(1) step.prems(1)])
  then show ?case using step assms(4,5) by metis
qed simp

end

end
