(* ===== verification/Scheduler_Spec.thy ===== *)
theory Scheduler_Spec
  imports Scheduler Steps
begin

text \<open>
  Correctness of the scheduler: the invariant of its list of processes, kept in every state
  that creation, registration, switches and running processes can reach; the round-robin order
  of the switches; what a process finds in its registers when its turn comes again.
\<close>

section \<open>The invariant\<close>

definition sched_ok :: "sched \<Rightarrow> bool" where
  "sched_ok s \<longleftrightarrow> distinct (proc_list s) \<and> proc_count s \<le> MAX_PROCS \<and> 0 \<notin> set (proc_list s) \<and>
     (if proc_list s = [] then current_proc s = 0 else current_proc s \<in> set (proc_list s)) \<and>
     (\<forall>p \<in> set (proc_list s).
        proc_state (procs s p) = (if p = current_proc s then PROC_RUNNING else PROC_READY))"

lemma sched_okD:
  assumes "sched_ok s"
  shows "distinct (proc_list s)" "proc_count s \<le> MAX_PROCS" "0 \<notin> set (proc_list s)"
    "proc_list s = [] \<Longrightarrow> current_proc s = 0" "proc_list s \<noteq> [] \<Longrightarrow> current_proc s \<in> set (proc_list s)"
    "p \<in> set (proc_list s) \<Longrightarrow>
      proc_state (procs s p) = (if p = current_proc s then PROC_RUNNING else PROC_READY)"
  using assms by (auto simp: sched_ok_def split: if_splits)

lemma sched_ok_null: "sched_ok s \<Longrightarrow> proc_list s = [] \<longleftrightarrow> current_proc s = 0"
  using sched_okD(3-5) [of s] by metis

lemma sched_init_ok: "sched_ok (scheduler_init s)"
  by (simp add: sched_ok_def scheduler_init_def proc_count_def MAX_PROCS_def)

lemma runnable_iff: "sched_ok s \<Longrightarrow> p \<in> set (proc_list s) \<Longrightarrow> runnable s p \<longleftrightarrow> p \<noteq> current_proc s"
  by (simp add: runnable_def sched_okD(6))

section \<open>Round robin\<close>

text \<open>The position of the current process, and the process \<open>k\<close> positions after it, cyclically.\<close>

definition current_at :: "sched \<Rightarrow> nat \<Rightarrow> bool" where
  "current_at s i \<longleftrightarrow> i < proc_count s \<and> proc_list s ! i = current_proc s"

lemma current_at_ex: "sched_ok s \<Longrightarrow> proc_list s \<noteq> [] \<Longrightarrow> \<exists>i. current_at s i"
  using sched_okD(5) [of s] by (auto simp: current_at_def proc_count_def in_set_conv_nth)

lemma next_start_current:
  assumes "sched_ok s" and "current_at s i"
  shows "next_start s = (i + 1) mod proc_count s"
proof -
  have i: "i < length (proc_list s)" "proc_list s ! i = current_proc s"
    using assms(2) by (simp_all add: current_at_def proc_count_def)
  then have "current_proc s \<noteq> 0" using sched_okD(3) [OF assms(1)] by (metis nth_mem)
  moreover have "find (\<lambda>j. proc_list s ! j = current_proc s) [0..<proc_count s] = Some i"
  proof -
    have "proc_list s ! j \<noteq> current_proc s" if "j < i" for j
      using that i sched_okD(1) [OF assms(1)] by (metis nat_neq_iff nth_eq_iff_index_eq less_trans)
    then show ?thesis using i by (auto simp: find_Some_iff proc_count_def intro!: exI [of _ i])
  qed
  ultimately show ?thesis by (simp add: next_start_def)
qed

lemma succ_mod_neq: "i < n \<Longrightarrow> 2 \<le> n \<Longrightarrow> (i + 1) mod n \<noteq> (i :: nat)"
  by (cases "i + 1 = n") auto

lemma find_next_proc_current:
  assumes "sched_ok s" and "current_at s i"
  shows "find_next_proc s =
    (if proc_count s = 1 then 0 else proc_list s ! ((i + 1) mod proc_count s))"
proof -
  let ?n = "proc_count s" and ?ps = "proc_list s"
  have n: "0 < ?n" "i < ?n" using assms(2) by (auto simp: current_at_def)
  let ?P = "\<lambda>k. runnable s (?ps ! (((i + 1) mod ?n + k) mod ?n))"
  have mem: "?ps ! (k mod ?n) \<in> set ?ps" for k using n by (simp add: proc_count_def)
  show ?thesis
  proof (cases "?n = 1")
    case True
    then have "i = 0" using n by simp
    then have "\<not> ?P 0" using True runnable_iff [OF assms(1) mem [of 0]] assms(2) by (simp add: current_at_def)
    then have "find ?P [0..<?n] = None" using True by (simp add: find_None_iff)
    then show ?thesis using True n by (simp add: find_next_proc_def next_start_current [OF assms])
  next
    case False
    then have "2 \<le> ?n" using n by simp
    let ?j = "(i + 1) mod ?n"
    have "?j < ?n" "?j \<noteq> i" using n succ_mod_neq [OF n(2) \<open>2 \<le> ?n\<close>] by auto
    then have "?ps ! ?j \<noteq> current_proc s"
      using assms(2) sched_okD(1) [OF assms(1)] by (metis current_at_def nth_eq_iff_index_eq proc_count_def)
    then have p: "?P 0" using runnable_iff [OF assms(1) mem [of ?j]] by simp
    have "[0..<?n] = 0 # [1..<?n]" using n by (simp add: upt_conv_Cons)
    with p have "find ?P [0..<?n] = Some 0" by simp
    then show ?thesis using False n by (simp add: find_next_proc_def next_start_current [OF assms])
  qed
qed

section \<open>A switch\<close>

definition after_switch :: "RegisterState \<Rightarrow> sched \<Rightarrow> u64 \<Rightarrow> sched" where
  "after_switch cpu s q =
     (let prev = current_proc s; p = procs s prev; st = state p
      in s\<lparr>procs := (procs s)
             (prev := p\<lparr>state := st\<lparr>Regs := save_regs cpu (Regs st)\<rparr>, proc_state := PROC_READY\<rparr>,
              q := (procs s q)\<lparr>proc_state := PROC_RUNNING\<rparr>),
           current_proc := q\<rparr>)"

lemma context_switch_jump:
  assumes ok: "sched_ok s" and i: "current_at s i" and n: "2 \<le> proc_count s"
  defines "q \<equiv> proc_list s ! ((i + 1) mod proc_count s)"
  shows "context_switch cpu s m =
      (Jumped (load_regs (Regs (state (procs s q))) cpu), after_switch cpu s q,
       push (rsp (Regs (state (procs s q)))) (rflags (Regs (state (procs s q))))
         (push (rsp cpu) (rflags cpu) m))"
    and "q \<in> set (proc_list s)" and "q \<noteq> current_proc s"
proof -
  have j: "(i + 1) mod proc_count s < length (proc_list s)"
    unfolding proc_count_def by (rule mod_less_divisor) (use n in \<open>unfold proc_count_def, linarith\<close>)
  then show q: "q \<in> set (proc_list s)" by (simp add: q_def)
  have "(i + 1) mod proc_count s \<noteq> i" using i n by (intro succ_mod_neq) (simp_all add: current_at_def)
  then show ne: "q \<noteq> current_proc s"
    using i j sched_okD(1) [OF ok] by (simp add: q_def current_at_def proc_count_def) (metis nth_eq_iff_index_eq)
  have f: "find_next_proc s = q" using find_next_proc_current [OF ok i] n by (simp add: q_def)
  have "q \<noteq> 0" using q sched_okD(3) [OF ok] by metis
  moreover have "current_proc s \<noteq> 0"
    using i sched_okD(3) [OF ok] by (metis current_at_def nth_mem proc_count_def)
  ultimately show "context_switch cpu s m =
      (Jumped (load_regs (Regs (state (procs s q))) cpu), after_switch cpu s q,
       push (rsp (Regs (state (procs s q)))) (rflags (Regs (state (procs s q))))
         (push (rsp cpu) (rflags cpu) m))"
    using ne f by (simp add: context_switch_def Let_def set_state_def after_switch_def fun_upd_twist)
qed

lemma after_switch_ok:
  assumes "sched_ok s" and "q \<in> set (proc_list s)" and "q \<noteq> current_proc s"
  shows "sched_ok (after_switch cpu s q)"
  using assms by (auto simp: sched_ok_def after_switch_def Let_def proc_count_def)

lemma after_switch_simps [simp]:
  "proc_list (after_switch cpu s q) = proc_list s" "current_proc (after_switch cpu s q) = q"
  "proc_count (after_switch cpu s q) = proc_count s"
  by (simp_all add: after_switch_def Let_def proc_count_def)

lemma context_switch_cases:
  assumes "sched_ok s"
  obtains (stay) "context_switch cpu s m = (Returned, s, m)" "proc_count s \<le> 1"
  | (jump) i q m' where "current_at s i" "2 \<le> proc_count s" "q = proc_list s ! ((i + 1) mod proc_count s)"
      "q \<in> set (proc_list s)" "q \<noteq> current_proc s"
      "context_switch cpu s m = (Jumped (load_regs (Regs (state (procs s q))) cpu), after_switch cpu s q, m')"
proof (cases "2 \<le> proc_count s")
  case True
  then have "proc_list s \<noteq> []" by (auto simp: proc_count_def)
  then obtain i where i: "current_at s i" using current_at_ex [OF assms] by blast
  from context_switch_jump [OF assms i True] jump [OF i True refl] show ?thesis by blast
next
  case False
  have "find_next_proc s = 0"
  proof (cases "proc_list s = []")
    case True
    then show ?thesis by (simp add: find_next_proc_def proc_count_def)
  next
    case nonempty: False
    then obtain i where "current_at s i" using current_at_ex [OF assms] by blast
    moreover have "proc_count s = 1"
      using False nonempty length_0_conv [of "proc_list s"] unfolding proc_count_def by linarith
    ultimately show ?thesis using find_next_proc_current [OF assms] by simp
  qed
  then show ?thesis using False stay by (simp add: context_switch_def)
qed

text \<open>A run of switches: what the running process has left in the registers and in memory at
  each of them is arbitrary.\<close>

fun switch_many :: "(RegisterState \<times> mem) list \<Rightarrow> sched \<Rightarrow> sched" where
  "switch_many [] s = s"
| "switch_many ((cpu, m) # xs) s = switch_many xs (fst (snd (context_switch cpu s m)))"

lemma switch_many_snoc:
  "switch_many (xs @ [(cpu, m)]) s = fst (snd (context_switch cpu (switch_many xs s) m))"
  by (induction xs s rule: switch_many.induct) simp_all

lemma context_switch_ok:
  assumes "sched_ok s"
  shows "sched_ok (fst (snd (context_switch cpu s m)))"
    and "proc_list (fst (snd (context_switch cpu s m))) = proc_list s"
  using assms after_switch_ok [OF assms] by (cases rule: context_switch_cases [OF assms, of cpu m]; simp)+

lemma context_switch_current:
  assumes ok: "sched_ok s" and i: "current_at s i"
  shows "current_at (fst (snd (context_switch cpu s m))) ((i + 1) mod proc_count s)"
proof (cases "2 \<le> proc_count s")
  case True
  then show ?thesis
    using i by (simp add: context_switch_jump [OF ok i True] current_at_def)
next
  case False
  with i have "proc_count s = 1" "i = 0" by (auto simp: current_at_def)
  moreover from this have "find_next_proc s = 0" using find_next_proc_current [OF ok i] by simp
  ultimately show ?thesis using i by (simp add: context_switch_def)
qed

lemma switch_many_current:
  assumes "sched_ok s" and "current_at s i"
  shows "sched_ok (switch_many xs s) \<and> proc_list (switch_many xs s) = proc_list s \<and>
    current_at (switch_many xs s) ((i + length xs) mod proc_count s)"
proof (induction xs rule: rev_induct)
  case Nil
  then show ?case using assms by (simp add: current_at_def)
next
  case (snoc x xs)
  obtain cpu m where x: "x = (cpu, m)" by (cases x)
  let ?t = "switch_many xs s"
  have "proc_count ?t = proc_count s" using snoc by (simp add: proc_count_def)
  then show ?case
    using snoc context_switch_ok [of ?t cpu m]
      context_switch_current [of ?t "(i + length xs) mod proc_count s" cpu m]
    by (simp add: x switch_many_snoc mod_simps)
qed

section \<open>What a process finds when its turn comes\<close>

lemma load_save:
  "load_regs (save_regs cpu0 r) cpu = cpu0\<lparr>rip := rip r, reg_cr3 := reg_cr3 cpu, reg_cs := reg_cs cpu,
     reg_ds := reg_ds cpu, reg_es := reg_es cpu, reg_fs := reg_fs cpu, reg_gs := reg_gs cpu,
     reg_ss := reg_ss cpu\<rparr>"
  by (simp add: load_regs_def save_regs_def)

lemma context_switch_others:
  assumes "sched_ok s" and "p \<noteq> current_proc s"
  shows "Regs (state (procs (fst (snd (context_switch cpu s m))) p)) = Regs (state (procs s p))"
  using assms by (cases rule: context_switch_cases [OF assms(1), of cpu m])
    (simp_all add: after_switch_def Let_def)

lemma context_switch_rip:
  assumes "sched_ok s"
  shows "rip (Regs (state (procs (fst (snd (context_switch cpu s m))) p))) = rip (Regs (state (procs s p)))"
    and "EntryPoint (state (procs (fst (snd (context_switch cpu s m))) p)) = EntryPoint (state (procs s p))"
  by (cases rule: context_switch_cases [OF assms, of cpu m];
      simp add: after_switch_def Let_def save_regs_def)+

lemma switch_many_others:
  assumes "sched_ok s" and "current_at s i"
    and "\<And>k. k < length xs \<Longrightarrow> proc_list s ! ((i + k) mod proc_count s) \<noteq> p"
  shows "Regs (state (procs (switch_many xs s) p)) = Regs (state (procs s p))"
  using assms(3)
proof (induction xs rule: rev_induct)
  case (snoc x xs)
  obtain cpu m where x: "x = (cpu, m)" by (cases x)
  note c = switch_many_current [OF assms(1,2), of xs]
  then have "current_proc (switch_many xs s) = proc_list s ! ((i + length xs) mod proc_count s)"
    by (metis current_at_def)
  then have "current_proc (switch_many xs s) \<noteq> p" using snoc.prems [of "length xs"] by simp
  then show ?case
    using snoc c by (simp add: x switch_many_snoc context_switch_others)
qed simp

text \<open>A round of switches brings the process back with its registers.\<close>

lemma later_mod_neq: "i < n \<Longrightarrow> k + 1 < n \<Longrightarrow> (i + 1 + k) mod n \<noteq> (i :: nat)"
  by (cases "i + 1 + k < n") (auto simp: mod_if le_mod_geq)

lemma offset_mod_ex:
  assumes "j < n" and "i < n"
  shows "\<exists>k < n. (i + k) mod n = (j :: nat)"
proof (cases "i \<le> j")
  case True
  with assms show ?thesis by (intro exI [of _ "j - i"]) simp
next
  case False
  with assms show ?thesis by (intro exI [of _ "j + n - i"]) simp
qed

section \<open>Every reachable state\<close>

text \<open>
  The life of the scheduler: \<open>C\<close> is the set of processes created and not yet registered.
  Processes are created on pages of \<^verbatim>\<open>kalloc\<close>, registered once, switched; the running code
  writes memory, allocates pages and releases pages it owns. The stacks are outside the
  allocator's bitmap.
\<close>

inductive sched_step ::
  "PmmFile \<Rightarrow> u64 set \<times> sched \<times> mem \<Rightarrow> u64 set \<times> sched \<times> mem \<Rightarrow> bool" for pm where
  create: "create_proc pm entry priv base sz s m = (p, s', m') \<Longrightarrow>
    region (base + sz - 8) 8 \<inter> bitmap_region pm = {} \<Longrightarrow>
    sched_step pm (C, s, m) (if p = 0 then C else insert p C, s', m')"
| register: "p \<in> C \<Longrightarrow> register_proc p s = Some s' \<Longrightarrow> sched_step pm (C, s, m) (C - {p}, s', m)"
| switch: "context_switch cpu s m = (c, s', m') \<Longrightarrow> \<forall>a \<in> bitmap_region pm. m' a = m a \<Longrightarrow>
    sched_step pm (C, s, m) (C, s', m')"
| run: "\<forall>a \<in> bitmap_region pm. m' a = m a \<Longrightarrow> sched_step pm (C, s, m) (C, s, m')"
| allocate: "palloc pm m = (p, m') \<Longrightarrow> sched_step pm (C, s, m) (C, s, m')"
| release: "p \<in> pmm_owned pm \<Longrightarrow> p \<notin> C \<Longrightarrow> p \<notin> set (proc_list s) \<Longrightarrow>
    sched_step pm (C, s, m) (C, s, kfree pm p m)"

definition starts_at_entry :: "Procedure \<Rightarrow> bool" where
  "starts_at_entry p \<longleftrightarrow> rip (Regs (state p)) = EntryPoint (state p)"

definition system_ok :: "PmmFile \<Rightarrow> u64 set \<times> sched \<times> mem \<Rightarrow> bool" where
  "system_ok pm = (\<lambda>(C, s, m). sched_ok s \<and> C \<inter> set (proc_list s) = {} \<and>
     C \<union> set (proc_list s) \<subseteq> pmm_live pm m \<and>
     (\<forall>p \<in> C \<union> set (proc_list s). starts_at_entry (procs s p)))"

lemma system_okI:
  assumes "sched_ok s" and "C \<inter> set (proc_list s) = {}" and "C \<union> set (proc_list s) \<subseteq> pmm_live pm m"
    and "\<And>p. p \<in> C \<union> set (proc_list s) \<Longrightarrow> starts_at_entry (procs s p)"
  shows "system_ok pm (C, s, m)"
  using assms by (simp add: system_ok_def)

lemma system_okD:
  assumes "system_ok pm (C, s, m)"
  shows "sched_ok s" "C \<inter> set (proc_list s) = {}" "C \<union> set (proc_list s) \<subseteq> pmm_live pm m"
    "p \<in> C \<union> set (proc_list s) \<Longrightarrow> starts_at_entry (procs s p)"
  using assms by (auto simp: system_ok_def)

lemma sched_ok_cong:
  "sched_ok s \<Longrightarrow> proc_list s' = proc_list s \<Longrightarrow> current_proc s' = current_proc s \<Longrightarrow>
    (\<And>p. p \<in> set (proc_list s) \<Longrightarrow> proc_state (procs s' p) = proc_state (procs s p)) \<Longrightarrow> sched_ok s'"
  by (simp add: sched_ok_def proc_count_def)

text \<open>What creation does, on each branch.\<close>

lemma create_proc_cases:
  assumes fits: "pmm_fits pm" and stack: "region (base + sz - 8) 8 \<inter> bitmap_region pm = {}"
    and c: "create_proc pm entry priv base sz s m = (p, s', m')"
  obtains (full) "p = 0" "s' = s" "m' = m" "pmm_live pm m = pmm_pages pm"
  | (created) q where "p \<in> pmm_pages pm" "p \<noteq> 0" "p \<notin> pmm_live pm m"
      "pmm_live pm m' = insert p (pmm_live pm m)"
      "s' = s\<lparr>next_pid := next_pid s + 1, procs := (procs s)(p := q)\<rparr>"
      "pid q = next_pid s" "proc_state q = PROC_NEW" "EntryPoint (state q) = entry"
      "Regs (state q) = zero_regs\<lparr>rip := entry, rflags := 0x202, rsp := base + sz - 8\<rparr>"
      "privilege_level q = priv AND 0x3" "read64 m' (base + sz - 8) = 0"
proof -
  obtain p0 m1 where k: "kalloc pm sizeof_Procedure m = (p0, m1)" by (cases "kalloc pm sizeof_Procedure m")
  then have a: "palloc pm m = (p0, m1)" by (simp add: kalloc_palloc sizeof_Procedure_def)
  from fits a show ?thesis
  proof (cases rule: pmm.alloc_cases)
    case full
    then show ?thesis using c k that(1) by (simp add: create_proc_def)
  next
    case page
    let ?m2 = "memset m1 p0 0 sizeof_Procedure"
    let ?m3 = "write64 ?m2 (base + sz - 8) 0"
    have "unat sizeof_Procedure \<le> 4096" by (simp add: sizeof_Procedure_def)
    then have out: "a \<notin> region p0 4096 \<Longrightarrow> ?m2 a = m1 a" for a
      using region_mono by (auto simp: memset_apply)
    have l: "pmm_live pm ?m3 = pmm_live pm m1"
    proof (rule pmm.live_cong [OF fits])
      fix a assume a: "a \<in> bitmap_region pm"
      then have "a \<notin> region p0 4096" using pmm.page_meta [OF fits page(2)] by blast
      then show "?m3 a = m1 a" using a stack out by (auto simp: write64_apply)
    qed
    have p: "p = p0" and m': "m' = ?m3" using c k page(1) by (auto simp: create_proc_def Let_def)
    obtain q where q: "s' = s\<lparr>next_pid := next_pid s + 1, procs := (procs s)(p := q)\<rparr>"
      "pid q = next_pid s" "proc_state q = PROC_NEW" "EntryPoint (state q) = entry"
      "Regs (state q) = zero_regs\<lparr>rip := entry, rflags := 0x202, rsp := base + sz - 8\<rparr>"
      "privilege_level q = priv AND 0x3"
      using c k page(1) by (auto simp: create_proc_def Let_def)
    have "read64 m' (base + sz - 8) = 0" by (simp only: m' read64_write64)
    then show ?thesis
      by (intro that(2) [where q = q]) (use q l page in \<open>simp_all add: p m'\<close>)
  qed
qed

lemma register_proc_cases:
  assumes "register_proc p s = Some s'"
  obtains (ignored) "s' = s" "proc_count s \<ge> MAX_PROCS"
  | (added) "p \<noteq> 0" "proc_count s < MAX_PROCS" "proc_list s' = proc_list s @ [p]"
      "current_proc s' = (if current_proc s = 0 then p else current_proc s)"
      "procs s' = (procs s)(p := (procs s p)\<lparr>proc_state :=
         if current_proc s = 0 then PROC_RUNNING else PROC_READY\<rparr>)"
  using assms by (auto simp: register_proc_def Let_def set_state_def split: if_splits)

lemma register_proc_ok:
  assumes "sched_ok s" and "register_proc p s = Some s'" and "p \<notin> set (proc_list s)"
  shows "sched_ok s'"
  using assms(2)
proof (cases rule: register_proc_cases)
  case added
  have "proc_list s = [] \<longleftrightarrow> current_proc s = 0"
    by (rule sched_ok_null [OF assms(1)])
  with added assms(1,3) show ?thesis
    by (auto simp: sched_ok_def proc_count_def split: if_splits)
qed (use assms(1) in simp)

lemma sched_step_ok:
  assumes fits: "pmm_fits pm" and "sched_step pm x y" and "system_ok pm x"
  shows "system_ok pm y"
  using assms(2,3)
proof (induction rule: sched_step.induct)
  case (create entry priv base sz s m p s' m' C)
  note ok = system_okD [OF create.prems]
  from fits create.hyps(2,1) show ?case
  proof (cases rule: create_proc_cases)
    case full
    with create.prems show ?thesis by simp
  next
    case (created q)
    have new: "p \<notin> C" "p \<notin> set (proc_list s)" using created(3) ok(3) by blast+
    have "sched_ok s'"
      using ok(1) by (rule sched_ok_cong) (use created(5) new in auto)
    then show ?thesis
      using created ok new by (auto simp: system_ok_def starts_at_entry_def)
  qed
next
  case (register p C s s' m)
  note ok = system_okD [OF register.prems]
  have "p \<notin> set (proc_list s)" using register.hyps(1) ok(2) by blast
  then have "sched_ok s'" by (rule register_proc_ok [OF ok(1) register.hyps(2)])
  with register.hyps(2) ok register.hyps(1) show ?case
    by (cases rule: register_proc_cases) (auto simp: system_ok_def starts_at_entry_def)
next
  case (switch cpu s m c s' m' C)
  note ok = system_okD [OF switch.prems]
  have s': "s' = fst (snd (context_switch cpu s m))" using switch.hyps(1) by simp
  have "pmm_live pm m' = pmm_live pm m" using fits switch.hyps(2) by (intro pmm.live_cong) auto
  then show ?case
    using ok context_switch_ok [OF ok(1)] context_switch_rip [OF ok(1)]
    by (auto simp: s' system_ok_def starts_at_entry_def)
next
  case (run m' m C s)
  have "pmm_live pm m' = pmm_live pm m" using fits run.hyps by (intro pmm.live_cong) auto
  with run.prems show ?case by (simp add: system_ok_def)
next
  case (allocate m p m' C s)
  with pmm.alloc_live_mono [OF fits allocate.hyps] show ?case by (auto simp: system_ok_def)
next
  case (release p C s m)
  with pmm.release_live [OF fits] show ?case by (auto simp: system_ok_def)
qed

lemma system_ok_init: "system_ok pm ({}, scheduler_init s, m)"
  by (simp add: system_ok_def sched_init_ok) (simp add: scheduler_init_def)

interpretation life: step_invariant "sched_step pm" "\<lambda>x. pmm_fits pm \<and> system_ok pm x" for pm
  by unfold_locales (auto intro: sched_step_ok)

lemma reachable_ok:
  assumes "pmm_fits pm" and "(sched_step pm)\<^sup>*\<^sup>* ({}, scheduler_init s0, m0) x"
  shows "system_ok pm x"
  using life.reachable [OF assms(2)] assms(1) system_ok_init by blast

section \<open>Properties\<close>

text \<open>Three processes, the second of them running.\<close>

definition sched_demo :: sched where
  "sched_demo = \<lparr>procs = (\<lambda>_. zero_procedure\<lparr>proc_state := PROC_READY\<rparr>)
       (0x2000 := zero_procedure\<lparr>proc_state := PROC_RUNNING\<rparr>),
     proc_list = [0x1000, 0x2000, 0x3000], current_proc = 0x2000, next_pid = 4,
     SchedTickFreq = 10, sched_ticks = 0\<rparr>"

lemma sched_demo_ok: "sched_ok sched_demo" "current_at sched_demo 1" "proc_count sched_demo = 3"
  "proc_list sched_demo = [0x1000, 0x2000, 0x3000]"
  by (auto simp: sched_ok_def sched_demo_def proc_count_def MAX_PROCS_def current_at_def)

text \<open>A reachable state with two processes.\<close>

lemma sched_demo_reachable:
  obtains s m where
    "(sched_step pmm_demo)\<^sup>*\<^sup>* ({}, scheduler_init sched_demo, \<lambda>_. 0) ({}, s, m)"
    "proc_list s = [0x100000, 0x101000]" "current_proc s = 0x100000"
    "EntryPoint (state (procs s 0x101000)) = 8"
proof -
  let ?s0 = "scheduler_init sched_demo"
  have d: "region (0x5000 + 0x1000 - 8 :: u64) 8 \<inter> bitmap_region pmm_demo = {}"
    by (auto simp: bitmap_region_def region_disjoint Int_commute)
  let ?c1 = "create_proc pmm_demo 7 0 0x5000 0x1000 ?s0 (\<lambda>_. 0)"
  obtain p1 s1 m1 where c1: "?c1 = (p1, s1, m1)" by (cases ?c1)
  have f1: "palloc pmm_demo (\<lambda>_. 0) = (0x100000, mark pmm_demo 0 (\<lambda>_. 0))"
    by (simp add: palloc_first_free [OF pmm_demo_ok] first_free_SomeI [of 0] page_addr_def page_used_def)
  then have k1: "kalloc pmm_demo sizeof_Procedure (\<lambda>_. 0) = (0x100000, mark pmm_demo 0 (\<lambda>_. 0))"
    by (simp add: kalloc_palloc sizeof_Procedure_def)
  have p1: "p1 = 0x100000" "proc_list s1 = []" "current_proc s1 = 0"
    and m1: "m1 = write64 (memset (mark pmm_demo 0 (\<lambda>_. 0)) 0x100000 0 sizeof_Procedure) (0x5000 + 0x1000 - 8) 0"
    using c1 k1 by (auto simp: create_proc_def Let_def scheduler_init_def)
  have same: "m1 a = mark pmm_demo 0 (\<lambda>_. 0) a" if "a \<in> bitmap_region pmm_demo" for a
  proof -
    have "a \<notin> region 0x100000 238"
      using that region_disjoint [of "0x1000" 2 "0x100000" 238] by (auto simp: bitmap_region_def)
    then show ?thesis using that d by (auto simp: m1 write64_apply memset_apply sizeof_Procedure_def)
  qed
  have used: "page_used pmm_demo m1 i \<longleftrightarrow> i = 0" if "i < 16" for i
  proof -
    have "page_used pmm_demo m1 i = page_used pmm_demo (mark pmm_demo 0 (\<lambda>_. 0)) i"
      using that same by (intro page_used_cong) simp_all
    then show ?thesis using that by (simp add: page_used_mark [OF pmm_demo_ok]) (simp add: page_used_def)
  qed
  let ?c2 = "create_proc pmm_demo 8 3 0x7000 0x1000 s1 m1"
  obtain p2 s2 m2 where c2: "?c2 = (p2, s2, m2)" by (cases ?c2)
  have "fst (kalloc pmm_demo sizeof_Procedure m1) = 0x101000"
    by (simp add: kalloc_palloc sizeof_Procedure_def palloc_first_free [OF pmm_demo_ok]
        first_free_SomeI [of 1] used page_addr_def)
  then have p2: "p2 = 0x101000" "proc_list s2 = []" "current_proc s2 = 0"
      "EntryPoint (state (procs s2 0x101000)) = 8"
    using c2 p1 by (auto simp: create_proc_def Let_def split: prod.splits)
  obtain s3 where r3: "register_proc p1 s2 = Some s3" "proc_list s3 = [0x100000]" "current_proc s3 = 0x100000"
      "EntryPoint (state (procs s3 0x101000)) = 8"
    using p1(1) p2 by (auto simp: register_proc_def Let_def set_state_def proc_count_def MAX_PROCS_def)
  obtain s4 where r4: "register_proc p2 s3 = Some s4" "proc_list s4 = [0x100000, 0x101000]"
      "current_proc s4 = 0x100000" "EntryPoint (state (procs s4 0x101000)) = 8"
    using p2(1) r3 by (auto simp: register_proc_def Let_def set_state_def proc_count_def MAX_PROCS_def)
  have d2: "region (0x7000 + 0x1000 - 8 :: u64) 8 \<inter> bitmap_region pmm_demo = {}"
    by (auto simp: bitmap_region_def region_disjoint Int_commute)
  have "sched_step pmm_demo ({}, ?s0, \<lambda>_. 0) ({p1}, s1, m1)"
    using sched_step.create [OF c1 d, where C = "{}"] p1 by simp
  moreover have "sched_step pmm_demo ({p1}, s1, m1) ({p1, p2}, s2, m2)"
    using sched_step.create [OF c2 d2, where C = "{p1}"] p2 by (simp add: insert_commute)
  moreover have "sched_step pmm_demo ({p1, p2}, s2, m2) ({p2}, s3, m2)"
    using sched_step.register [OF _ r3(1), where C = "{p1, p2}" and pm = pmm_demo and m = m2] p1(1) p2(1) by simp
  moreover have "sched_step pmm_demo ({p2}, s3, m2) ({}, s4, m2)"
    using sched_step.register [OF _ r4(1), where C = "{p2}" and pm = pmm_demo and m = m2] by simp
  ultimately have "(sched_step pmm_demo)\<^sup>*\<^sup>* ({}, ?s0, \<lambda>_. 0) ({}, s4, m2)"
    by (meson converse_rtranclp_into_rtranclp rtranclp.rtrancl_refl)
  then show ?thesis by (rule that [OF _ r4(2-4)])
qed

text \<open>C5: In every state the kernel can reach by creating processes, registering each once,
  switching, and running code that respects the allocator, the scheduler is consistent: the
  registered processes are distinct, not null and in allocated pages, at most \<^verbatim>\<open>MAX_PROCS\<close> many, and
  exactly the current one is running while all others are ready.\<close>

theorem scheduler_invariant:
  assumes "pmm_fits pm" and "(sched_step pm)\<^sup>*\<^sup>* ({}, scheduler_init s0, m0) (C, s, m)"
  shows "distinct (proc_list s) \<and> 0 \<notin> set (proc_list s) \<and> proc_count s \<le> 1024 \<and>
    set (proc_list s) \<subseteq> pmm_live pm m \<and>
    (proc_list s = [] \<longleftrightarrow> current_proc s = 0) \<and>
    (\<forall>p \<in> set (proc_list s).
       proc_state (procs s p) = (if p = current_proc s then PROC_RUNNING else PROC_READY))"
proof -
  have s: "system_ok pm (C, s, m)" by (rule reachable_ok [OF assms])
  then have ok: "sched_ok s" by (rule system_okD)
  show ?thesis
    using sched_okD(1-3,6) [OF ok] sched_ok_null [OF ok] system_okD(3) [OF s] by (simp add: MAX_PROCS_def)
qed

theorem scheduler_invariant_witness:
  "\<exists>(s :: sched) m. proc_list s = [0x100000, 0x101000] \<and> proc_state (procs s 0x101000) = PROC_READY \<and>
     set (proc_list s) \<subseteq> pmm_live pmm_demo m"
proof -
  from sched_demo_reachable obtain s m where
    r: "(sched_step pmm_demo)\<^sup>*\<^sup>* ({}, scheduler_init sched_demo, \<lambda>_. 0) ({}, s, m)"
    and s: "proc_list s = [0x100000, 0x101000]" "current_proc s = 0x100000" by blast
  from scheduler_invariant [OF pmm_demo_fits r] s
  have "proc_state (procs s 0x101000) = PROC_READY \<and> set (proc_list s) \<subseteq> pmm_live pmm_demo m" by auto
  with s(1) show ?thesis by blast
qed

text \<open>C4: The scheduler is round robin: each switch hands the processor to the next process in the
  order of registration, cyclically, whatever the processes do in between; so in any \<open>n\<close>
  consecutive switches every one of the \<open>n\<close> processes gets its turn.\<close>

theorem round_robin:
  assumes "sched_ok s" and "proc_list s ! i = current_proc s" and "i < proc_count s"
  shows "current_proc (switch_many xs s) = proc_list s ! ((i + length xs) mod proc_count s) \<and>
    proc_list (switch_many xs s) = proc_list s \<and>
    (proc_count s \<le> length xs \<longrightarrow>
      (\<forall>p \<in> set (proc_list s). \<exists>k < length xs. current_proc (switch_many (take k xs) s) = p))"
proof -
  have i: "current_at s i" using assms by (simp add: current_at_def)
  note c = switch_many_current [OF assms(1) i]
  have turn: "\<exists>k < length xs. current_proc (switch_many (take k xs) s) = p"
    if "proc_count s \<le> length xs" "p \<in> set (proc_list s)" for p
  proof -
    from that(2) obtain j where j: "j < proc_count s" "p = proc_list s ! j"
      by (auto simp: in_set_conv_nth proc_count_def)
    from offset_mod_ex [OF j(1) assms(3)] obtain k
      where k: "k < proc_count s" "(i + k) mod proc_count s = j" by blast
    from k(1) that(1) have l: "length (take k xs) = k" "k < length xs" by simp_all
    from c [of "take k xs"] have "current_proc (switch_many (take k xs) s) = proc_list s ! j"
      unfolding l(1) k(2) current_at_def by metis
    with l(2) j(2) show ?thesis by blast
  qed
  show ?thesis using c [of xs] turn by (auto simp: current_at_def)
qed

theorem round_robin_witness:
  "let xs = replicate 4 (zero_regs, \<lambda>_. 0) in
    current_proc (switch_many xs sched_demo) = 0x3000 \<and>
    (\<exists>k < 4. current_proc (switch_many (take k xs) sched_demo) = 0x1000)"
proof -
  define xs :: "(RegisterState \<times> mem) list" where "xs = replicate 4 (zero_regs, \<lambda>_. 0)"
  have "length xs = 4" by (simp add: xs_def)
  with round_robin [of sched_demo 1 xs] sched_demo_ok show ?thesis
    unfolding xs_def [symmetric] Let_def by (simp add: current_at_def)
qed







text \<open>A full table: registration is silently ignored.\<close>

lemma register_proc_full: "MAX_PROCS \<le> proc_count s \<Longrightarrow> register_proc p s = Some s"
  by (simp add: register_proc_def)

lemma register_proc_null: "proc_count s < MAX_PROCS \<Longrightarrow> register_proc 0 s = None"
  by (simp add: register_proc_def)

end
