(* ===== verification/Keyboard.thy ===== *)
theory Keyboard
  imports Serial CString
begin

text \<open>
  Model of the PS/2 keyboard driver, \<^verbatim>\<open>src/ASNU/src/Drivers/PS2Keyboard/driver.c\<close>: the
  decoder of scan codes, which runs in the interrupt handler, the ring buffer it fills, and the
  readers that empty it. The buffer is indexed by 16-bit words, of which only those below
  \<^verbatim>\<open>KBD_BUF_SIZE\<close> are used.

  While \<^verbatim>\<open>kbd_getc\<close> waits, interrupts arrive. What arrives is the script \<open>irqs\<close>: the scan codes
  that come in before the first poll, before the second, and so on; after the script nothing
  arrives, so that waiting for ever is the result \<open>None\<close>.
\<close>

section \<open>State\<close>

definition KBD_BUF_SIZE :: nat where
  "KBD_BUF_SIZE = 65535"

text \<open>\<open>kbd_extended\<close> and \<open>kbd_ch\<close> are the statics of \<^verbatim>\<open>KeyboardDriverMain\<close>.\<close>

record kbd =
  kbd_drvr_buf :: "u16 \<Rightarrow> char"
  kbd_buf_head :: u16
  kbd_buf_tail :: u16
  buffering_read :: bool
  cursor_read :: u32
  kbd_shift :: u8
  kbd_caps :: u8
  kbd_extended :: bool
  kbd_ch :: char

text \<open>\<^verbatim>\<open>(i + 1) % KBD_BUF_SIZE\<close>, computed in \<^verbatim>\<open>int\<close>.\<close>

definition next_index :: "u16 \<Rightarrow> u16" where
  "next_index i = ucast ((ucast i + 1 :: u32) mod of_nat KBD_BUF_SIZE)"

section \<open>The ring buffer\<close>

definition OverflowKbdBfr :: "kbd \<Rightarrow> kbd" where
  "OverflowKbdBfr s = s\<lparr>kbd_buf_head := 0, kbd_buf_tail := 0,
     kbd_drvr_buf := (\<lambda>i. if unat i < KBD_BUF_SIZE then NUL else kbd_drvr_buf s i)\<rparr>"

definition InitKeyboardDriver :: "kbd \<Rightarrow> kbd" where
  "InitKeyboardDriver s = s\<lparr>kbd_buf_head := 0, kbd_buf_tail := 0\<rparr>"

definition KbdPushback :: "char \<Rightarrow> kbd \<Rightarrow> kbd" where
  "KbdPushback c s =
     (if c = CHR 0x08 \<and> cursor_read s = 0 then s
      else
        let nxt = next_index (kbd_buf_head s)
        in if nxt \<noteq> kbd_buf_tail s
           then s\<lparr>kbd_drvr_buf := (kbd_drvr_buf s)(kbd_buf_head s := c), kbd_buf_head := nxt\<rparr>
           else OverflowKbdBfr s)"

definition KbdFlushCheck :: "char \<Rightarrow> kbd \<Rightarrow> kbd" where
  "KbdFlushCheck chr s = KbdPushback chr s"

section \<open>Scan codes\<close>

text \<open>The tables of 128 characters, up to their last entry that is not 0.\<close>

definition USLayoutNrml :: string where
  "USLayoutNrml = [NUL] @ ''`1234567890-='' @ [CHR 0x08, CHR 0x09] @ ''qwertyuiop[]'' @ [CHR 0x0A, NUL]
     @ ''asdfghjkl;'' @ [CHR 0x27, CHR 0x60, NUL, CHR 0x5C] @ ''zxcvbnm,./'' @ [NUL, CHR ''*'', NUL, CHR '' '']
     @ replicate 21 NUL @ [CHR ''-'', NUL, NUL, NUL, CHR ''+'']"

definition USLayoutCaps :: string where
  "USLayoutCaps = [NUL] @ ''`1234567890-='' @ [CHR 0x08, CHR 0x09] @ ''QWERTYUIOP[]'' @ [CHR 0x0A, NUL]
     @ ''ASDFGHJKL;'' @ [CHR 0x27, NUL, NUL, CHR 0x5C] @ ''ZXCVBNM,./'' @ [NUL, CHR ''*'', NUL, CHR '' '']
     @ replicate 21 NUL @ [CHR ''-'', NUL, NUL, NUL, CHR ''+'']"

definition USLayoutShft :: string where
  "USLayoutShft = [NUL] @ ''~!@#$%^&*()_+'' @ [CHR 0x08, CHR 0x09] @ ''QWERTYUIOP{}'' @ [CHR 0x0A, NUL]
     @ ''ASDFGHJKL:'' @ [CHR 0x22, CHR 0x60, NUL, CHR ''|''] @ ''ZXCVBNM<>?'' @ [NUL, CHR ''*'', NUL, CHR '' '']
     @ replicate 21 NUL @ [CHR ''-'', NUL, NUL, NUL, CHR ''+'']"

definition layout_char :: "string \<Rightarrow> u8 \<Rightarrow> char" where
  "layout_char t scancode = (if unat scancode < length t then t ! unat scancode else NUL)"

definition lower_letters :: string where
  "lower_letters = ''abcdefghijklmnopqrstuvwxyz''"

definition KeyboardDriverMain :: "u8 \<Rightarrow> kbd \<Rightarrow> kbd" where
  "KeyboardDriverMain scancode s =
     (if scancode = 0xE0 then s\<lparr>kbd_extended := True\<rparr>
      else if kbd_extended s then
        (if scancode AND 0x80 \<noteq> 0 then s\<lparr>kbd_extended := False\<rparr>
         else if buffering_read s then s\<lparr>kbd_extended := False\<rparr>
         else s\<lparr>kbd_extended := False\<rparr>)
      else if scancode AND 0x80 \<noteq> 0 then
        (let key = scancode AND 0x7F
         in if key = 0x2A \<or> key = 0x36 then s\<lparr>kbd_shift := 0\<rparr> else s)
      else if scancode = 0x2A \<or> scancode = 0x36 then s\<lparr>kbd_shift := 1\<rparr>
      else if scancode = 0x3A then s\<lparr>kbd_caps := (if kbd_caps s = 0 then 1 else 0)\<rparr>
      else
        let nrml = layout_char USLayoutNrml scancode;
            ch = (if kbd_shift s \<noteq> 0 then layout_char USLayoutShft scancode
                  else if kbd_caps s \<noteq> 0 \<and> nrml \<in> set lower_letters
                  then layout_char USLayoutCaps scancode
                  else nrml);
            s1 = s\<lparr>kbd_ch := ch\<rparr>
        in if ch \<noteq> NUL then KbdFlushCheck ch s1 else s1)"

section \<open>Readers\<close>

text \<open>\<^verbatim>\<open>while (kbd_buf_head == kbd_buf_tail);\<close> with the interrupts that arrive before each poll.\<close>

fun kbd_wait :: "u8 list list \<Rightarrow> kbd \<Rightarrow> (kbd \<times> u8 list list) option" where
  "kbd_wait [] s = (if kbd_buf_head s = kbd_buf_tail s then None else Some (s, []))"
| "kbd_wait (codes # irqs) s =
     (let s1 = fold KeyboardDriverMain codes s
      in if kbd_buf_head s1 = kbd_buf_tail s1 then kbd_wait irqs s1 else Some (s1, irqs))"

definition kbd_getc ::
  "u8 list list \<Rightarrow> kbd \<Rightarrow> string \<Rightarrow> (char \<times> kbd \<times> string \<times> u8 list list) option" where
  "kbd_getc irqs s con =
     do {
       (s1, irqs1) \<leftarrow> kbd_wait irqs (s\<lparr>buffering_read := True\<rparr>);
       let c = kbd_drvr_buf s1 (kbd_buf_tail s1);
       let s2 = s1\<lparr>kbd_buf_tail := next_index (kbd_buf_tail s1), buffering_read := False,
                   cursor_read := cursor_read s1 + 1\<rparr>;
       (n, con1) \<leftarrow> printk ''%c'' [VInt (scast (of_char c :: u8))] con;
       Some (c, s2, con1, irqs1)
     }"

text \<open>
  The body of \<^verbatim>\<open>kbd_getc\<close> when codes arrive between its reading \<^verbatim>\<open>kbd_buf_tail\<close> and its storing
  the new value: the character and the store are those of the old value.
\<close>

definition getc_interrupted :: "u8 list \<Rightarrow> kbd \<Rightarrow> char \<times> kbd" where
  "getc_interrupted codes s =
     (let c = kbd_drvr_buf s (kbd_buf_tail s);
          nxt = next_index (kbd_buf_tail s);
          s1 = fold KeyboardDriverMain codes s
      in (c, s1\<lparr>kbd_buf_tail := nxt\<rparr>))"

text \<open>
  \<^verbatim>\<open>out[i]\<close> with a signed 32-bit index. The characters read are stored as bytes. The main loop
  ends with the line or with the space; it runs for ever when the line never ends.
\<close>

definition out_index :: "u64 \<Rightarrow> u32 \<Rightarrow> u64" where
  "out_index out i = out + scast i"

partial_function (option) gets_loop ::
  "u64 \<Rightarrow> u32 \<Rightarrow> u32 \<Rightarrow> u8 list list \<Rightarrow> kbd \<Rightarrow> string \<Rightarrow> mem
    \<Rightarrow> (u32 \<times> u8 list list \<times> kbd \<times> string \<times> mem) option" where
  "gets_loop out maxlen rd irqs s con m =
     (if sint rd < sint (maxlen - 1) then
        do {
          (c, s1, con1, irqs1) \<leftarrow> kbd_getc irqs s con;
          if c = CHR 0x0A \<or> c = NUL then Some (rd, irqs1, s1, con1, m)
          else if c = CHR 0x08 then
            gets_loop out maxlen (rd - 1) irqs1 s1 con1 (m(out_index out (rd - 1) := 0))
          else
            gets_loop out maxlen (rd + 1) irqs1 s1 con1 (m(out_index out rd := of_char c))
        }
      else Some (rd, irqs, s, con, m))"

definition kbd_gets ::
  "u64 \<Rightarrow> u32 \<Rightarrow> u8 list list \<Rightarrow> kbd \<Rightarrow> string \<Rightarrow> mem
    \<Rightarrow> (u32 \<times> u8 list list \<times> kbd \<times> string \<times> mem) option" where
  "kbd_gets out maxlen irqs s con m =
     do {
       (n0, con0) \<leftarrow> printk (CHR 0x1B # ''[?25h'') [] con;
       let m0 = fold (\<lambda>i m. m(out_index out (of_nat i) := 0)) [0..<nat (sint maxlen)] m;
       (rd, irqs1, s1, con1, m1) \<leftarrow> gets_loop out maxlen 0 irqs s con0 m0;
       n \<leftarrow> strlen m1 out;
       let tmprd = n;
       let rd1 = (if tmprd \<noteq> rd then tmprd else rd);
       (n1, con2) \<leftarrow> printk (CHR 0x1B # ''[?25l'') [] con1;
       Some (rd1, irqs1, s1, con2, m1)
     }"

end
