(* ===== verification/Fifo.thy ===== *)
theory Fifo
  imports Prelude
begin

text \<open>
  The contract between a buffer of bounded capacity and the code that fills and empties it: an
  interrupt handler puts elements in, a reader takes them out. An element the buffer does not
  accept is dropped; an element put into a full buffer empties it, as
  \<^verbatim>\<open>OverflowKbdBfr\<close> does.
\<close>

locale bounded_fifo =
  fixes put :: "'c \<Rightarrow> 's \<Rightarrow> 's"
    and pop :: "'s \<Rightarrow> 'c \<times> 's"
    and ok :: "'s \<Rightarrow> bool"
    and accepts :: "'s \<Rightarrow> 'c \<Rightarrow> bool"
    and queue :: "'s \<Rightarrow> 'c list"
    and cap :: nat
  assumes put_ok: "ok s \<Longrightarrow> ok (put c s)"
    and pop_ok: "ok s \<Longrightarrow> ok (snd (pop s))"
    and put_queue: "ok s \<Longrightarrow> queue (put c s) =
      (if \<not> accepts s c then queue s else if length (queue s) < cap then queue s @ [c] else [])"
    and pop_queue: "ok s \<Longrightarrow> queue s \<noteq> [] \<Longrightarrow>
      fst (pop s) = hd (queue s) \<and> queue (snd (pop s)) = tl (queue s)"
    and put_accepts: "accepts (put c s) d = accepts s d"
    and queue_bound: "ok s \<Longrightarrow> length (queue s) \<le> cap"

text \<open>Taking several elements.\<close>

fun pop_many :: "('s \<Rightarrow> 'c \<times> 's) \<Rightarrow> nat \<Rightarrow> 's \<Rightarrow> 'c list \<times> 's" where
  "pop_many pop 0 s = ([], s)"
| "pop_many pop (Suc n) s =
     (case pop s of (c, s1) \<Rightarrow> case pop_many pop n s1 of (cs, s2) \<Rightarrow> (c # cs, s2))"

context bounded_fifo
begin

lemma put_many_ok: "ok s \<Longrightarrow> ok (fold put cs s)"
  by (induction cs arbitrary: s) (simp_all add: put_ok)

lemma put_many_queue:
  assumes "ok s" and "\<forall>c \<in> set cs. accepts s c" and "length (queue s) + length cs \<le> cap"
  shows "queue (fold put cs s) = queue s @ cs"
  using assms
proof (induction cs arbitrary: s)
  case (Cons c cs)
  have "queue (put c s) = queue s @ [c]" using Cons.prems by (simp add: put_queue)
  with Cons.IH [of "put c s"] Cons.prems show ?case by (simp add: put_ok put_accepts)
qed simp

lemma pop_many_queue:
  assumes "ok s" and "n \<le> length (queue s)"
  shows "fst (pop_many pop n s) = take n (queue s) \<and> queue (snd (pop_many pop n s)) = drop n (queue s) \<and>
    ok (snd (pop_many pop n s))"
  using assms
proof (induction n arbitrary: s)
  case (Suc n)
  obtain c s1 where p: "pop s = (c, s1)" by (cases "pop s")
  from Suc.prems have ne: "queue s \<noteq> []" by auto
  with p Suc.prems(1) have q: "c = hd (queue s)" "queue s1 = tl (queue s)" "ok s1"
    using pop_queue [OF Suc.prems(1) ne] pop_ok [OF Suc.prems(1)] by simp_all
  with Suc.IH [of s1] Suc.prems(2) p ne show ?case
    by (cases "queue s") (simp_all add: split_beta)
qed simp

text \<open>What is put in comes out, in the same order, after what was there.\<close>

lemma first_in_first_out:
  assumes "ok s" and "\<forall>c \<in> set cs. accepts s c" and "length (queue s) + length cs \<le> cap"
  shows "fst (pop_many pop (length (queue s) + length cs) (fold put cs s)) = queue s @ cs"
  using pop_many_queue [OF put_many_ok [OF assms(1)], of "length (queue s) + length cs" cs]
  by (simp add: put_many_queue [OF assms])

end

end
