(* ===== verification/Keyboard_Spec.thy ===== *)
theory Keyboard_Spec
  imports Keyboard Fifo
begin

text \<open>
  Correctness of the keyboard driver: the ring buffer is a bounded queue, the decoder of scan
  codes a small state machine in front of it, and \<^verbatim>\<open>kbd_gets\<close> returns the lines that were
  typed.
\<close>

section \<open>The ring buffer is a queue\<close>

definition kbd_ok :: "kbd \<Rightarrow> bool" where
  "kbd_ok s \<longleftrightarrow> unat (kbd_buf_head s) < KBD_BUF_SIZE \<and> unat (kbd_buf_tail s) < KBD_BUF_SIZE"

definition kbd_count :: "kbd \<Rightarrow> nat" where
  "kbd_count s = (unat (kbd_buf_head s) + KBD_BUF_SIZE - unat (kbd_buf_tail s)) mod KBD_BUF_SIZE"

definition typed_ahead :: "kbd \<Rightarrow> string" where
  "typed_ahead s = map (\<lambda>i. kbd_drvr_buf s (of_nat ((unat (kbd_buf_tail s) + i) mod KBD_BUF_SIZE)))
     [0..<kbd_count s]"

lemma unat_next_index: "unat (next_index i) = (unat i + 1) mod KBD_BUF_SIZE"
proof -
  have i: "unat i < 2 ^ 16" using unsigned_less [of i] by simp
  then have "unat (ucast i + 1 :: u32) = unat i + 1"
    by (simp add: unat_word_ariths unsigned_ucast_eq take_bit_nat_eq_self)
  moreover have "(unat i + 1) mod 65535 < 2 ^ 16" by (rule less_trans [of _ 65535]) simp_all
  ultimately show ?thesis
    by (simp add: next_index_def KBD_BUF_SIZE_def unsigned_ucast_eq unat_mod take_bit_nat_eq_self)
qed

lemma next_index_less: "unat (next_index i) < KBD_BUF_SIZE"
  by (simp add: unat_next_index KBD_BUF_SIZE_def)

lemma typed_ahead_length [simp]: "length (typed_ahead s) = kbd_count s"
  by (simp add: typed_ahead_def)

lemma kbd_count_less: "kbd_count s < KBD_BUF_SIZE"
  by (simp add: kbd_count_def KBD_BUF_SIZE_def)

lemma kbd_count_zero: "kbd_ok s \<Longrightarrow> kbd_count s = 0 \<longleftrightarrow> kbd_buf_head s = kbd_buf_tail s"
proof -
  assume ok: "kbd_ok s"
  have "(h + n - t) mod n = 0 \<longleftrightarrow> h = t" if "h < n" "t < n" for h t n :: nat
    using that by (cases "t \<le> h") (auto simp: le_mod_geq mod_if)
  then show ?thesis using ok by (simp add: kbd_count_def kbd_ok_def word_unat_eq_iff)
qed

text \<open>The fields the queue does not depend on.\<close>

lemma typed_ahead_cong [simp]:
  "typed_ahead (s\<lparr>buffering_read := b\<rparr>) = typed_ahead s"
  "typed_ahead (s\<lparr>cursor_read := n\<rparr>) = typed_ahead s"
  "typed_ahead (s\<lparr>kbd_shift := w\<rparr>) = typed_ahead s"
  "typed_ahead (s\<lparr>kbd_caps := w\<rparr>) = typed_ahead s"
  "typed_ahead (s\<lparr>kbd_extended := b\<rparr>) = typed_ahead s"
  "typed_ahead (s\<lparr>kbd_ch := c\<rparr>) = typed_ahead s"
  by (simp_all add: typed_ahead_def kbd_count_def)

lemma kbd_ok_cong [simp]:
  "kbd_ok (s\<lparr>buffering_read := b\<rparr>) = kbd_ok s"
  "kbd_ok (s\<lparr>cursor_read := n\<rparr>) = kbd_ok s"
  "kbd_ok (s\<lparr>kbd_shift := w\<rparr>) = kbd_ok s"
  "kbd_ok (s\<lparr>kbd_caps := w\<rparr>) = kbd_ok s"
  "kbd_ok (s\<lparr>kbd_extended := b\<rparr>) = kbd_ok s"
  "kbd_ok (s\<lparr>kbd_ch := c\<rparr>) = kbd_ok s"
  by (simp_all add: kbd_ok_def)

definition kbd_pop :: "kbd \<Rightarrow> char \<times> kbd" where
  "kbd_pop s = (kbd_drvr_buf s (kbd_buf_tail s), s\<lparr>kbd_buf_tail := next_index (kbd_buf_tail s)\<rparr>)"

text \<open>A backspace is accepted once something has been read.\<close>

definition kbd_accepts :: "kbd \<Rightarrow> char \<Rightarrow> bool" where
  "kbd_accepts s c \<longleftrightarrow> c \<noteq> CHR 0x08 \<or> cursor_read s \<noteq> 0"

lemma ring_index_arith:
  fixes h t n :: nat
  assumes "h < n" and "t < n"
  shows "((h + 1) mod n = t) \<longleftrightarrow> (h + n - t) mod n = n - 1"
    and "(h + 1) mod n \<noteq> t \<Longrightarrow> ((h + 1) mod n + n - t) mod n = (h + n - t) mod n + 1"
    and "h \<noteq> t \<Longrightarrow> (h + n - (t + 1) mod n) mod n + 1 = (h + n - t) mod n"
    and "(t + (h + n - t) mod n) mod n = h"
proof -
  have m: "(h + n - t) mod n = (if t \<le> h then h - t else h + n - t)"
    using assms by (cases "t \<le> h") (auto simp: le_mod_geq)
  have s: "(k + 1) mod n = (if k + 1 = n then 0 else k + 1)" if "k < n" for k using that by auto
  show "((h + 1) mod n = t) \<longleftrightarrow> (h + n - t) mod n = n - 1"
    unfolding m s [OF assms(1)] using assms by auto
  show "((h + 1) mod n + n - t) mod n = (h + n - t) mod n + 1" if "(h + 1) mod n \<noteq> t"
    using that assms unfolding m s [OF assms(1)] by (auto simp: le_mod_geq)
  show "(h + n - (t + 1) mod n) mod n + 1 = (h + n - t) mod n" if "h \<noteq> t"
    using that assms unfolding m s [OF assms(2)] by (auto simp: le_mod_geq)
  show "(t + (h + n - t) mod n) mod n = h"
    using assms unfolding m by auto
qed

lemma KbdPushback_ok: "kbd_ok s \<Longrightarrow> kbd_ok (KbdPushback c s)"
  using next_index_less
  by (auto simp: KbdPushback_def kbd_ok_def OverflowKbdBfr_def Let_def KBD_BUF_SIZE_def)

lemma ring_index_u16: "kbd_ok s \<Longrightarrow> (of_nat (i mod KBD_BUF_SIZE) :: u16) = kbd_buf_head s \<longleftrightarrow>
    i mod KBD_BUF_SIZE = unat (kbd_buf_head s)"
proof -
  have "i mod KBD_BUF_SIZE < 2 ^ 16"
    unfolding KBD_BUF_SIZE_def by (rule less_trans [of _ 65535]) simp_all
  then show ?thesis by (auto simp: word_unat_eq_iff unat_of_nat)
qed

lemma mod_add_inject:
  assumes "i < n" and "j < n" and "t < n"
  shows "(t + i) mod n = (t + j) mod n \<longleftrightarrow> i = (j :: nat)"
proof -
  have "(t + k) mod n = (if t + k < n then t + k else t + k - n)" if "k < n" for k
    using that assms(3) by (auto simp: le_mod_geq)
  then show ?thesis using assms by auto
qed

lemma ring_full:
  "kbd_ok s \<Longrightarrow> next_index (kbd_buf_head s) = kbd_buf_tail s \<longleftrightarrow> kbd_count s = KBD_BUF_SIZE - 1"
  using ring_index_arith(1) [of "unat (kbd_buf_head s)" KBD_BUF_SIZE "unat (kbd_buf_tail s)"]
  by (simp add: word_unat_eq_iff unat_next_index kbd_count_def kbd_ok_def)

lemma KbdPushback_tail:
  "kbd_ok s \<Longrightarrow> kbd_count s < KBD_BUF_SIZE - 1 \<Longrightarrow> kbd_buf_tail (KbdPushback c s) = kbd_buf_tail s"
  using ring_full [of s] by (auto simp: KbdPushback_def Let_def)

lemma KbdPushback_queue:
  assumes ok: "kbd_ok s"
  shows "typed_ahead (KbdPushback c s) =
    (if \<not> kbd_accepts s c then typed_ahead s
     else if length (typed_ahead s) < KBD_BUF_SIZE - 1 then typed_ahead s @ [c] else [])"
proof (cases "kbd_accepts s c")
  case False
  then show ?thesis by (simp add: KbdPushback_def kbd_accepts_def)
next
  case True
  let ?h = "unat (kbd_buf_head s)" and ?t = "unat (kbd_buf_tail s)" and ?n = KBD_BUF_SIZE
  have ht: "?h < ?n" "?t < ?n" using ok by (simp_all add: kbd_ok_def)
  note arith = ring_index_arith [OF ht]
  have full: "next_index (kbd_buf_head s) = kbd_buf_tail s \<longleftrightarrow> kbd_count s = ?n - 1"
    by (rule ring_full [OF ok])
  show ?thesis
  proof (cases "kbd_count s = ?n - 1")
    case full': True
    then have "KbdPushback c s = OverflowKbdBfr s"
      using True full by (auto simp: KbdPushback_def kbd_accepts_def Let_def)
    then show ?thesis using True full' by (simp add: OverflowKbdBfr_def typed_ahead_def kbd_count_def)
  next
    case False
    with kbd_count_less [of s] have lt: "kbd_count s < ?n - 1" by simp
    let ?s = "KbdPushback c s"
    have s: "?s = s\<lparr>kbd_drvr_buf := (kbd_drvr_buf s)(kbd_buf_head s := c),
        kbd_buf_head := next_index (kbd_buf_head s)\<rparr>"
      using True False full by (auto simp: KbdPushback_def kbd_accepts_def Let_def)
    have count: "kbd_count ?s = kbd_count s + 1"
      using arith(2) False full by (simp add: s kbd_count_def unat_next_index word_unat_eq_iff)
    have at: "kbd_drvr_buf ?s (of_nat ((?t + i) mod ?n)) =
        (if i = kbd_count s then c else kbd_drvr_buf s (of_nat ((?t + i) mod ?n)))" if "i \<le> kbd_count s" for i
    proof -
      have h: "(?t + kbd_count s) mod ?n = ?h" using arith(4) by (simp add: kbd_count_def)
      have "(?t + i) mod ?n = ?h \<longleftrightarrow> i = kbd_count s"
        using that kbd_count_less [of s] mod_add_inject [OF _ _ ht(2), of i "kbd_count s"] by (simp add: h)
      then show ?thesis by (simp add: s ring_index_u16 [OF ok])
    qed
    have "typed_ahead ?s = map (\<lambda>i. kbd_drvr_buf ?s (of_nat ((?t + i) mod ?n))) ([0..<kbd_count s] @ [kbd_count s])"
      unfolding typed_ahead_def count by (simp add: s)
    also have "\<dots> = typed_ahead s @ [c]"
      unfolding map_append typed_ahead_def by (intro arg_cong2 [where f = append] map_cong) (simp_all add: at)
    finally show ?thesis using True lt by simp
  qed
qed

lemma kbd_pop_queue:
  assumes ok: "kbd_ok s" and ne: "typed_ahead s \<noteq> []"
  shows "fst (kbd_pop s) = hd (typed_ahead s) \<and> typed_ahead (snd (kbd_pop s)) = tl (typed_ahead s)"
proof -
  let ?h = "unat (kbd_buf_head s)" and ?t = "unat (kbd_buf_tail s)" and ?n = KBD_BUF_SIZE
  have ht: "?h < ?n" "?t < ?n" using ok by (simp_all add: kbd_ok_def)
  have pos: "0 < kbd_count s" using ne by (simp add: typed_ahead_def)
  then have "?h \<noteq> ?t" using kbd_count_zero [OF ok] by (simp add: word_unat_eq_iff)
  then have count: "kbd_count s = kbd_count (snd (kbd_pop s)) + 1"
    using ring_index_arith(3) [OF ht] by (simp add: kbd_count_def kbd_pop_def unat_next_index)
  let ?f = "\<lambda>i. kbd_drvr_buf s (of_nat ((?t + i) mod ?n))"
  have "typed_ahead s = ?f 0 # map (\<lambda>i. ?f (Suc i)) [0..<kbd_count (snd (kbd_pop s))]"
    unfolding typed_ahead_def count by (simp add: upt_conv_Cons map_Suc_upt [symmetric] o_def del: upt_Suc)
  moreover have "(\<lambda>i. ?f (Suc i)) = (\<lambda>i. kbd_drvr_buf s (of_nat ((unat (next_index (kbd_buf_tail s)) + i) mod ?n)))"
    by (simp add: unat_next_index mod_simps)
  ultimately have "typed_ahead s = ?f 0 # typed_ahead (snd (kbd_pop s))"
    by (simp add: typed_ahead_def kbd_pop_def)
  moreover have "?f 0 = fst (kbd_pop s)" using ht(2) by (simp add: kbd_pop_def)
  ultimately show ?thesis by simp
qed

interpretation ring: bounded_fifo KbdPushback kbd_pop kbd_ok kbd_accepts typed_ahead "KBD_BUF_SIZE - 1"
proof (unfold_locales, goal_cases)
  case (2 s)
  then show ?case using next_index_less by (simp add: kbd_pop_def kbd_ok_def)
next
  case (5 c s d)
  show ?case by (simp add: kbd_accepts_def KbdPushback_def OverflowKbdBfr_def Let_def)
next
  case (6 s)
  show ?case using kbd_count_less [of s] by (simp add: KBD_BUF_SIZE_def)
qed (simp_all add: KbdPushback_ok KbdPushback_queue kbd_pop_queue)

section \<open>The decoder\<close>

text \<open>
  The decoder as a state machine: whether a shift key is down, whether caps lock is on, and
  whether the last code announced an extended key.
\<close>

type_synonym kbd_mode = "bool \<times> bool \<times> bool"

definition mode :: "kbd \<Rightarrow> kbd_mode" where
  "mode s = (kbd_shift s \<noteq> 0, kbd_caps s \<noteq> 0, kbd_extended s)"

definition key_char :: "bool \<Rightarrow> bool \<Rightarrow> u8 \<Rightarrow> char" where
  "key_char sh cap code =
     (if sh then layout_char USLayoutShft code
      else if cap \<and> layout_char USLayoutNrml code \<in> set lower_letters then layout_char USLayoutCaps code
      else layout_char USLayoutNrml code)"

fun decode :: "kbd_mode \<Rightarrow> u8 \<Rightarrow> kbd_mode \<times> string" where
  "decode (sh, cap, ext) code =
     (if code = 0xE0 then ((sh, cap, True), [])
      else if ext then ((sh, cap, False), [])
      else if code = 0xAA \<or> code = 0xB6 then ((False, cap, False), [])
      else if code AND 0x80 \<noteq> 0 then ((sh, cap, False), [])
      else if code = 0x2A \<or> code = 0x36 then ((True, cap, False), [])
      else if code = 0x3A then ((sh, \<not> cap, False), [])
      else ((sh, cap, False), if key_char sh cap code = NUL then [] else [key_char sh cap code]))"

fun typed :: "kbd_mode \<Rightarrow> u8 list \<Rightarrow> string" where
  "typed md [] = []"
| "typed md (code # codes) = snd (decode md code) @ typed (fst (decode md code)) codes"

lemma bit7_code:
  assumes "code AND 0x80 \<noteq> (0 :: u8)"
  shows "code = (code AND 0x7F) OR 0x80"
proof -
  have b: "bit (0x80 :: u8) n \<longleftrightarrow> n = 7" for n
    using bit_exp_iff [of 7 n, where 'a = u8] by auto
  have "bit code 7" using assms and_exp_eq_0_iff_not_bit [of code 7] by simp
  then have "code AND 0x80 = 0x80" by (intro bit_eqI) (auto simp only: b bit_and_iff)
  moreover have "(0x7F OR 0x80 :: u8) = - 1" by simp
  then have "code = code AND (0x7F OR 0x80)" by (simp only: bit.conj_one_right)
  ultimately show ?thesis by (simp only: bit.conj_disj_distrib)
qed
lemma release_codes:
  "code AND 0x80 \<noteq> 0 \<Longrightarrow> (code AND 0x7F = 0x2A \<longleftrightarrow> code = (0xAA :: u8))"
  "code AND 0x80 \<noteq> 0 \<Longrightarrow> (code AND 0x7F = 0x36 \<longleftrightarrow> code = (0xB6 :: u8))"
  using bit7_code [of code] by auto


lemma KbdPushback_fields [simp]:
  "cursor_read (KbdPushback c s) = cursor_read s" "mode (KbdPushback c s) = mode s"
  "buffering_read (KbdPushback c s) = buffering_read s"
  by (simp_all add: KbdPushback_def OverflowKbdBfr_def mode_def Let_def)

lemma mode_ch [simp]: "mode (s\<lparr>kbd_ch := c\<rparr>) = mode s"
  "mode (s\<lparr>buffering_read := b\<rparr>) = mode s" "mode (s\<lparr>cursor_read := n\<rparr>) = mode s"
  "mode (s\<lparr>kbd_buf_tail := i\<rparr>) = mode s"
  by (simp_all add: mode_def)

lemma key_char_main:
  "(if kbd_shift s \<noteq> 0 then layout_char USLayoutShft code
    else if kbd_caps s \<noteq> 0 \<and> layout_char USLayoutNrml code \<in> set lower_letters
    then layout_char USLayoutCaps code else layout_char USLayoutNrml code) =
   key_char (kbd_shift s \<noteq> 0) (kbd_caps s \<noteq> 0) code"
  by (simp add: key_char_def)

lemma KeyboardDriverMain_cases:
  obtains (silent) "mode (KeyboardDriverMain code s) = fst (decode (mode s) code)"
      "snd (decode (mode s) code) = []" "cursor_read (KeyboardDriverMain code s) = cursor_read s"
      "kbd_ok (KeyboardDriverMain code s) = kbd_ok s"
      "kbd_buf_tail (KeyboardDriverMain code s) = kbd_buf_tail s"
      "typed_ahead (KeyboardDriverMain code s) = typed_ahead s"
  | (key) c where "decode (mode s) code = (mode s, [c])"
      "KeyboardDriverMain code s = KbdPushback c (s\<lparr>kbd_ch := c\<rparr>)"
proof -
  let ?sh = "kbd_shift s \<noteq> 0" and ?cap = "kbd_caps s \<noteq> 0"
  consider (e0) "code = 0xE0" | (ext) "code \<noteq> 0xE0" "kbd_extended s"
    | (release) "code \<noteq> 0xE0" "\<not> kbd_extended s" "code AND 0x80 \<noteq> 0"
    | (shift) "code = 0x2A \<or> code = 0x36" "\<not> kbd_extended s"
    | (caps) "code = 0x3A" "\<not> kbd_extended s"
    | (char) "code \<noteq> 0xE0" "\<not> kbd_extended s" "code AND 0x80 = 0" "code \<noteq> 0x2A" "code \<noteq> 0x36" "code \<noteq> 0x3A"
    by blast
  then show ?thesis
  proof cases
    case e0
    show ?thesis by (rule silent) (simp_all add: e0 KeyboardDriverMain_def mode_def)
  next
    case ext
    show ?thesis by (rule silent) (simp_all add: ext KeyboardDriverMain_def mode_def)
  next
    case release
    then show ?thesis
      by (intro silent) (auto simp: KeyboardDriverMain_def mode_def release_codes Let_def)
  next
    case shift
    then show ?thesis by (intro silent) (auto simp: KeyboardDriverMain_def mode_def)
  next
    case caps
    then show ?thesis by (intro silent) (auto simp: KeyboardDriverMain_def mode_def)
  next
    case char
    then have "code \<noteq> 0xAA" "code \<noteq> 0xB6" by auto
    with char have d: "decode (mode s) code =
        (mode s, if key_char ?sh ?cap code = NUL then [] else [key_char ?sh ?cap code])"
      by (simp add: mode_def)
    have k: "KeyboardDriverMain code s =
        (let s1 = s\<lparr>kbd_ch := key_char ?sh ?cap code\<rparr>
         in if key_char ?sh ?cap code \<noteq> NUL then KbdPushback (key_char ?sh ?cap code) s1 else s1)"
      unfolding KeyboardDriverMain_def Let_def key_char_main KbdFlushCheck_def
      using char by simp
    show ?thesis
    proof (cases "key_char ?sh ?cap code = NUL")
      case True
      show ?thesis by (rule silent) (simp_all add: d k True)
    next
      case False
      show ?thesis by (rule key) (use False in \<open>simp_all add: d k\<close>)
    qed
  qed
qed

text \<open>Decoding many codes.\<close>

definition last_mode :: "kbd_mode \<Rightarrow> u8 list \<Rightarrow> kbd_mode" where
  "last_mode md codes = fold (\<lambda>code md. fst (decode md code)) codes md"

lemma typed_append: "typed md (xs @ ys) = typed md xs @ typed (last_mode md xs) ys"
  by (induction xs arbitrary: md) (simp_all add: last_mode_def)

lemma typed_length: "length (typed md codes) \<le> length codes"
proof (induction codes arbitrary: md)
  case (Cons code codes)
  have "length (snd (decode md code)) \<le> 1" by (cases md) simp
  with Cons.IH [of "fst (decode md code)"] show ?case by simp
qed simp

lemma KeyboardDriverMain_fold:
  assumes "kbd_ok s" and "\<forall>c \<in> set (typed (mode s) codes). kbd_accepts s c"
    and "length (typed_ahead s) + length (typed (mode s) codes) < KBD_BUF_SIZE"
  shows "typed_ahead (fold KeyboardDriverMain codes s) = typed_ahead s @ typed (mode s) codes \<and>
    kbd_ok (fold KeyboardDriverMain codes s) \<and>
    mode (fold KeyboardDriverMain codes s) = last_mode (mode s) codes \<and>
    kbd_buf_tail (fold KeyboardDriverMain codes s) = kbd_buf_tail s \<and>
    cursor_read (fold KeyboardDriverMain codes s) = cursor_read s"
  using assms
proof (induction codes arbitrary: s)
  case Nil
  then show ?case by (simp add: last_mode_def)
next
  case (Cons code codes)
  let ?s = "KeyboardDriverMain code s"
  have a: "kbd_accepts ?s c = kbd_accepts s c" if "cursor_read ?s = cursor_read s" for c
    using that by (simp add: kbd_accepts_def)
  show ?case
  proof (cases rule: KeyboardDriverMain_cases [of code s])
    case silent
    with Cons.IH [of ?s] Cons.prems a show ?thesis by (simp add: last_mode_def)
  next
    case (key c)
    let ?t = "s\<lparr>kbd_ch := c\<rparr>"
    have "typed_ahead ?s = typed_ahead s @ [c]"
      using ring.put_queue [of ?t c] Cons.prems key by (simp add: kbd_accepts_def)
    moreover have "kbd_ok ?s" using Cons.prems(1) key(2) by (simp add: KbdPushback_ok)
    moreover have "mode ?s = mode s" "cursor_read ?s = cursor_read s" using key(2) by simp_all
    moreover have "kbd_count ?t = kbd_count s" by (simp add: kbd_count_def)
    then have "kbd_buf_tail ?s = kbd_buf_tail s"
      using Cons.prems(1,3) key KbdPushback_tail [of ?t c] by simp
    ultimately show ?thesis
      using Cons.IH [of ?s] Cons.prems a key(1) by (simp add: last_mode_def)
  qed
qed

section \<open>Reading what was typed\<close>

text \<open>What the reader will still see: what is in the buffer and what the interrupts of the
  script will add to it.\<close>

definition stream :: "u8 list list \<Rightarrow> kbd \<Rightarrow> string" where
  "stream irqs s = typed_ahead s @ typed (mode s) (concat irqs)"

definition readable :: "u8 list list \<Rightarrow> kbd \<Rightarrow> bool" where
  "readable irqs s \<longleftrightarrow> kbd_ok s \<and> length (stream irqs s) < KBD_BUF_SIZE \<and>
     CHR 0x08 \<notin> set (typed (mode s) (concat irqs))"

lemma kbd_wait_stream:
  assumes "readable irqs s"
  shows "case kbd_wait irqs s of
      None \<Rightarrow> stream irqs s = []
    | Some (s1, irqs1) \<Rightarrow> readable irqs1 s1 \<and> stream irqs1 s1 = stream irqs s \<and>
        typed_ahead s1 \<noteq> [] \<and> cursor_read s1 = cursor_read s"
  using assms
proof (induction irqs s rule: kbd_wait.induct)
  case (1 s)
  then show ?case
    using kbd_count_zero [of s] by (auto simp: readable_def stream_def simp flip: length_0_conv)
next
  case (2 codes irqs s)
  let ?s = "fold KeyboardDriverMain codes s"
  have r: "kbd_ok s" "length (typed_ahead s) + length (typed (mode s) codes) < KBD_BUF_SIZE"
    "\<forall>c \<in> set (typed (mode s) codes). kbd_accepts s c"
    using 2(2) by (auto simp: readable_def stream_def typed_append kbd_accepts_def)
  note f = KeyboardDriverMain_fold [OF r(1,3,2)]
  then have st: "stream irqs ?s = stream (codes # irqs) s"
    by (simp add: stream_def typed_append)
  with f 2(2) have rd: "readable irqs ?s" by (simp add: readable_def typed_append)
  show ?case
  proof (cases "kbd_buf_head ?s = kbd_buf_tail ?s")
    case True
    with 2(1) [OF refl True rd] st f show ?thesis by (simp split: option.splits prod.splits)
  next
    case False
    with f have "typed_ahead ?s \<noteq> []"
      using kbd_count_zero [of ?s] by (metis length_0_conv typed_ahead_length)
    with False rd st f show ?thesis by simp
  qed
qed

lemma kbd_getc_stream:
  assumes "readable irqs s"
  shows "case stream irqs s of
      [] \<Rightarrow> kbd_getc irqs s con = None
    | c # cs \<Rightarrow> \<exists>s1 irqs1. kbd_getc irqs s con = Some (c, s1, con @ (if c = NUL then [] else [c]), irqs1) \<and>
        readable irqs1 s1 \<and> stream irqs1 s1 = cs \<and> cursor_read s1 = cursor_read s + 1"
proof -
  let ?s0 = "s\<lparr>buffering_read := True\<rparr>"
  have r0: "readable irqs ?s0" and st0: "stream irqs ?s0 = stream irqs s"
    using assms by (simp_all add: readable_def stream_def)
  note w = kbd_wait_stream [OF r0, unfolded st0]
  show ?thesis
  proof (cases "kbd_wait irqs ?s0")
    case None
    with w show ?thesis by (simp add: kbd_getc_def)
  next
    case (Some p)
    then obtain s1 irqs1 where k: "kbd_wait irqs ?s0 = Some (s1, irqs1)" by (cases p) simp
    with w have s1: "readable irqs1 s1" "stream irqs1 s1 = stream irqs s" "typed_ahead s1 \<noteq> []"
      "cursor_read s1 = cursor_read s" by simp_all
    then have ok: "kbd_ok s1" by (simp add: readable_def)
    note pq = ring.pop_queue [OF ok s1(3)]
    define s2 where "s2 = s1\<lparr>kbd_buf_tail := next_index (kbd_buf_tail s1), buffering_read := False,
      cursor_read := cursor_read s1 + 1\<rparr>"
    have q: "typed_ahead s2 = tl (typed_ahead s1)" "mode s2 = mode s1" "kbd_ok s2"
      using pq ring.pop_ok [OF ok] by (simp_all add: s2_def kbd_pop_def)
    obtain c cs where c: "typed_ahead s1 = c # cs" using s1(3) by (cases "typed_ahead s1") auto
    with pq have ch: "kbd_drvr_buf s1 (kbd_buf_tail s1) = c" by (simp add: kbd_pop_def)
    have "stream irqs s = c # stream irqs1 s2" using s1(2) q c by (simp add: stream_def)
    moreover from this s1 q have "readable irqs1 s2" by (simp add: readable_def)
    moreover have "kbd_getc irqs s con = Some (c, s2, con @ (if c = NUL then [] else [c]), irqs1)"
      by (simp add: kbd_getc_def k ch printk_char s2_def)
    ultimately show ?thesis using s1(4) by (simp add: s2_def)
  qed
qed

definition write_text :: "u64 \<Rightarrow> nat \<Rightarrow> string \<Rightarrow> mem \<Rightarrow> mem" where
  "write_text out k t m = (\<lambda>a. if k \<le> unat (a - out) \<and> unat (a - out) < k + length t
     then of_char (t ! (unat (a - out) - k)) else m a)"

lemma write_text_Nil [simp]: "write_text out k [] m = m"
  by (intro ext) (auto simp: write_text_def)

lemma write_text_Cons: "k < 2 ^ 32 \<Longrightarrow>
  write_text out (Suc k) cs (m(out + of_nat k := of_char c)) = write_text out k (c # cs) m"
proof -
  assume k: "k < 2 ^ 32"
  have "a = out + of_nat k \<longleftrightarrow> unat (a - out) = k" for a
  proof
    assume "a = out + of_nat k"
    then show "unat (a - out) = k" using k by (simp add: unat_of_nat_u64)
  next
    assume "unat (a - out) = k"
    then have "a - out = of_nat k" by auto
    then show "a = out + of_nat k" by (simp add: diff_eq_eq add.commute)
  qed
  then show ?thesis
    by (intro ext) (auto simp: write_text_def nth_Cons' Suc_le_eq)
qed

lemma out_index_of_nat: "k < 2 ^ 31 \<Longrightarrow> out_index out (of_nat k) = out + of_nat k"
  using sint_small [of k] by (simp add: out_index_def signed_of_nat signed_take_bit_int_eq_self)

definition plain_char :: "char \<Rightarrow> bool" where
  "plain_char c \<longleftrightarrow> c \<noteq> CHR 0x0A \<and> c \<noteq> NUL \<and> c \<noteq> CHR 0x08"

lemma gets_loop_line:
  assumes "readable irqs s" and "stream irqs s = cs @ CHR 0x0A # rest" and "\<forall>c \<in> set cs. plain_char c"
    and "k \<le> n" and "n < 2 ^ 31" and "length cs < n - k"
  shows "\<exists>irqs1 s1. gets_loop out (of_nat n + 1) (of_nat k) irqs s con m =
      Some (of_nat (k + length cs), irqs1, s1, con @ cs @ [CHR 0x0A], write_text out k cs m) \<and>
    readable irqs1 s1 \<and> stream irqs1 s1 = rest"
  using assms
proof (induction cs arbitrary: irqs s k con m)
  case Nil
  obtain s1 irqs1 where g: "kbd_getc irqs s con = Some (CHR 0x0A, s1, con @ [CHR 0x0A], irqs1)"
    and r: "readable irqs1 s1" "stream irqs1 s1 = rest"
    using kbd_getc_stream [OF Nil(1), of con] Nil(2) by (auto simp: NUL_def)
  from g r Nil show ?case by (subst gets_loop.simps) (simp add: sint_small)
next
  case (Cons c cs)
  obtain s1 irqs1 where g: "kbd_getc irqs s con = Some (c, s1, con @ [c], irqs1)"
    and r: "readable irqs1 s1" "stream irqs1 s1 = cs @ CHR 0x0A # rest"
    using kbd_getc_stream [OF Cons.prems(1), of con] Cons.prems(2,3) by (auto simp: plain_char_def)
  have k: "k < 2 ^ 32" "k < 2 ^ 31" using Cons.prems(4-6) by simp_all
  have "of_nat k + 1 = (of_nat (Suc k) :: u32)" by simp
  moreover have "\<exists>irqs2 s2. gets_loop out (of_nat n + 1) (of_nat (Suc k)) irqs1 s1 (con @ [c])
        (m(out + of_nat k := of_char c)) = Some (of_nat (Suc k + length cs), irqs2, s2,
          (con @ [c]) @ cs @ [CHR 0x0A], write_text out (Suc k) cs (m(out + of_nat k := of_char c))) \<and>
      readable irqs2 s2 \<and> stream irqs2 s2 = rest"
    by (rule Cons.IH [OF r]) (use Cons.prems(3-6) in simp_all)
  ultimately show ?case
    using Cons.prems g k
    by (subst gets_loop.simps)
      (simp add: sint_small plain_char_def out_index_of_nat write_text_Cons del: of_nat_Suc)
qed

text \<open>A line that does not fit is cut: the loop stops when the buffer is full.\<close>

lemma gets_loop_cut:
  assumes "readable irqs s" and "stream irqs s = cs @ rest" and "\<forall>c \<in> set cs. plain_char c"
    and "k \<le> n" and "n < 2 ^ 31" and "length cs = n - k"
  shows "\<exists>irqs1 s1. gets_loop out (of_nat n + 1) (of_nat k) irqs s con m =
      Some (of_nat n, irqs1, s1, con @ cs, write_text out k cs m) \<and>
    readable irqs1 s1 \<and> stream irqs1 s1 = rest"
  using assms
proof (induction cs arbitrary: irqs s k con m)
  case Nil
  then show ?case by (subst gets_loop.simps) (simp add: sint_small)
next
  case (Cons c cs)
  obtain s1 irqs1 where g: "kbd_getc irqs s con = Some (c, s1, con @ [c], irqs1)"
    and r: "readable irqs1 s1" "stream irqs1 s1 = cs @ rest"
    using kbd_getc_stream [OF Cons.prems(1), of con] Cons.prems(2,3) by (auto simp: plain_char_def)
  have k: "k < 2 ^ 32" "k < 2 ^ 31" "k < n" using Cons.prems(4-6) by simp_all
  have "of_nat k + 1 = (of_nat (Suc k) :: u32)" by simp
  moreover have "\<exists>irqs2 s2. gets_loop out (of_nat n + 1) (of_nat (Suc k)) irqs1 s1 (con @ [c])
        (m(out + of_nat k := of_char c)) = Some (of_nat n, irqs2, s2,
          (con @ [c]) @ cs, write_text out (Suc k) cs (m(out + of_nat k := of_char c))) \<and>
      readable irqs2 s2 \<and> stream irqs2 s2 = rest"
    by (rule Cons.IH [OF r]) (use Cons.prems(3-6) in simp_all)
  ultimately show ?case
    using Cons.prems g k
    by (subst gets_loop.simps)
      (simp add: sint_small plain_char_def out_index_of_nat write_text_Cons del: of_nat_Suc)
qed

text \<open>Both at once: \<open>n\<close> is the number of characters there is space for.\<close>

lemma gets_loop_text:
  assumes r: "readable irqs s" and st: "stream irqs s = cs @ CHR 0x0A # rest"
    and cs: "\<forall>c \<in> set cs. plain_char c" and n: "n < 2 ^ 31"
  shows "\<exists>irqs1 s1. gets_loop out (of_nat n + 1) 0 irqs s con m =
      Some (of_nat (min n (length cs)), irqs1, s1,
        con @ take n (cs @ [CHR 0x0A]), write_text out 0 (take n cs) m) \<and>
    readable irqs1 s1 \<and> stream irqs1 s1 = drop n (cs @ [CHR 0x0A]) @ rest"
proof (cases "length cs < n")
  case True
  then show ?thesis using gets_loop_line [OF r st cs, of 0 n out con m] n by simp
next
  case False
  have "stream irqs s = take n cs @ drop n cs @ CHR 0x0A # rest" using st by (metis append_assoc append_take_drop_id)
  with False gets_loop_cut [OF r this, of 0 n out con m] cs n show ?thesis
    by (auto dest: in_set_takeD simp: min_absorb1)
qed

lemma zero_buffer:
  "k < 2 ^ 31 \<Longrightarrow> fold (\<lambda>i m. m(out_index out (of_nat i) := 0)) [0..<k] m =
    (\<lambda>a. if a \<in> region out k then 0 else (m :: mem) a)"
proof (induction k)
  case (Suc k)
  have "region out (Suc k) = insert (out + of_nat k) (region out k)" using Suc.prems by (intro region_Suc) simp
  with Suc show ?case by (auto simp: out_index_of_nat fun_eq_iff)
qed simp

lemma printk_plain:
  assumes "CHR ''%'' \<notin> set t" and "NUL \<notin> set t"
  shows "printk t [] con = Some (of_nat (length t), con @ t)"
proof -
  have "format_text t [] = Some t" using format_text_append_literal [OF assms(2,1), of "[]" "[]"] by simp
  moreover have "\<forall>c \<in> set t. c \<noteq> NUL" using assms(2) by blast
  then have "filter (\<lambda>c. c \<noteq> NUL) t = t" by (simp only: filter_id_conv)
  ultimately show ?thesis by (simp only: printk_text option.map)
qed

lemma of_char_nonzero: "c \<noteq> NUL \<Longrightarrow> of_char c \<noteq> (0 :: u8)"
proof
  assume "c \<noteq> NUL" and z: "of_char c = (0 :: u8)"
  have "c = char_of (unat (of_char c :: u8))" by (rule char_of_byte [symmetric])
  also have "\<dots> = NUL" unfolding z by (simp add: NUL_def char_of_def)
  finally show False using \<open>c \<noteq> NUL\<close> by simp
qed

text \<open>The buffer after the line was written over zeros.\<close>

lemma line_buffer:
  fixes out cs n m
  defines "m1 \<equiv> write_text out 0 (take n cs) (\<lambda>a. if a \<in> region out (n + 1) then 0 else m a)"
  assumes n: "n < 2 ^ 31"
  shows "\<And>i. i < n + 1 \<Longrightarrow> m1 (out + of_nat i) = (if i < min n (length cs) then of_char (cs ! i) else 0)"
    and "\<And>a. a \<notin> region out (n + 1) \<Longrightarrow> m1 a = m a"
    and "\<forall>c \<in> set cs. c \<noteq> NUL \<Longrightarrow> strlen m1 out = Some (of_nat (min n (length cs)))"
proof -
  show byte: "m1 (out + of_nat i) = (if i < min n (length cs) then of_char (cs ! i) else 0)"
    if "i < n + 1" for i
  proof -
    have "i < 2 ^ 64" using that n by simp
    then show ?thesis using that by (simp add: m1_def write_text_def unat_of_nat_u64 region_offset)
  qed
  show "m1 a = m a" if "a \<notin> region out (n + 1)" for a
    using that by (simp add: m1_def write_text_def region_def)
  show "strlen m1 out = Some (of_nat (min n (length cs)))" if "\<forall>c \<in> set cs. c \<noteq> NUL"
  proof -
    have l: "length (map of_char (take n cs) :: u8 list) = min n (length cs)" by simp
    have "cstr m1 out (map of_char (take n cs))"
      unfolding cstr_iff_nth l
    proof (intro conjI allI impI)
      fix i assume i: "i < min n (length cs)"
      then show "m1 (out + of_nat i) = map of_char (take n cs) ! i" by (simp add: byte)
      have "cs ! i \<noteq> NUL" using i that by simp
      then show "map of_char (take n cs) ! i \<noteq> (0 :: u8)" using i by (simp add: of_char_nonzero)
    next
      show "m1 (out + of_nat (min n (length cs))) = 0" by (simp add: byte)
    qed
    then show ?thesis using strlen_cstr [of m1 out "map of_char (take n cs)"] n by (simp add: min.commute)
  qed
qed

section \<open>Properties\<close>

definition kbd_demo :: kbd where
  "kbd_demo = \<lparr>kbd_drvr_buf = \<lambda>_. NUL, kbd_buf_head = 0, kbd_buf_tail = 0, buffering_read = False,
     cursor_read = 0, kbd_shift = 0, kbd_caps = 0, kbd_extended = False, kbd_ch = NUL\<rparr>"



text \<open>
  The specification of the interrupt side: the decoder, and a queue that a character joins
  unless it is a backspace before anything was read, and that is emptied when it is full.
\<close>

definition kbd_spec :: "bool \<Rightarrow> u8 \<Rightarrow> kbd_mode \<times> string \<Rightarrow> kbd_mode \<times> string" where
  "kbd_spec started code = (\<lambda>(md, q). (fst (decode md code),
     case snd (decode md code) of
       [] \<Rightarrow> q
     | c # _ \<Rightarrow> if c = CHR 0x08 \<and> \<not> started then q else if length q < 65534 then q @ [c] else []))"

text \<open>C13: The interrupt side of the driver refines its specification: after any sequence of scan
  codes, the state of the decoder (shift, caps lock, extended key) and the queue of characters
  are those the specification computes, with the ring buffer in bounds; a character that arrives
  when 65534 are waiting empties the queue.\<close>

theorem keyboard_refinement:
  assumes "kbd_ok s"
  shows "kbd_ok (fold KeyboardDriverMain codes s) \<and>
    (mode (fold KeyboardDriverMain codes s), typed_ahead (fold KeyboardDriverMain codes s)) =
      fold (kbd_spec (cursor_read s \<noteq> 0)) codes (mode s, typed_ahead s)"
  using assms
proof (induction codes arbitrary: s)
  case (Cons code codes)
  let ?s = "KeyboardDriverMain code s"
  have "kbd_ok ?s \<and> cursor_read ?s = cursor_read s \<and>
      (mode ?s, typed_ahead ?s) = kbd_spec (cursor_read s \<noteq> 0) code (mode s, typed_ahead s)"
  proof (cases rule: KeyboardDriverMain_cases [of code s])
    case silent
    with Cons.prems show ?thesis by (simp add: kbd_spec_def)
  next
    case (key c)
    then show ?thesis
      using Cons.prems ring.put_queue [of "s\<lparr>kbd_ch := c\<rparr>" c] ring.put_ok [of "s\<lparr>kbd_ch := c\<rparr>" c]
      by (simp add: kbd_spec_def kbd_accepts_def KBD_BUF_SIZE_def)
  qed
  with Cons.IH [of ?s] show ?case by simp
qed simp

theorem keyboard_refinement_witness:
  "typed_ahead (fold KeyboardDriverMain [0x2A, 0x1E, 0xAA, 0x1E, 0x0E] kbd_demo) = ''Aa''"
proof -
  have ok: "kbd_ok kbd_demo" by (simp add: kbd_demo_def kbd_ok_def KBD_BUF_SIZE_def)
  have st: "mode kbd_demo = (False, False, False)" "typed_ahead kbd_demo = []" "cursor_read kbd_demo = 0"
    by (simp_all add: kbd_demo_def mode_def typed_ahead_def kbd_count_def KBD_BUF_SIZE_def)
  from keyboard_refinement [OF ok, of "[0x2A, 0x1E, 0xAA, 0x1E, 0x0E]"] show ?thesis
    by (simp add: st kbd_spec_def key_char_def layout_char_def USLayoutNrml_def USLayoutShft_def
        NUL_def lower_letters_def)
qed

text \<open>Backspaces are not bounded below: a backspace at the beginning of a line moves the index to
  -1, and \<^verbatim>\<open>kbd_gets\<close> stores a zero in the byte before the caller's buffer.\<close>

theorem kbd_gets_underflow:
  assumes "kbd_ok s" and "typed_ahead s = [CHR 0x08, CHR 0x0A]" and "0 < n" and "n < 2 ^ 31 - 1"
  shows "\<exists>irqs1 s1 con1 m1. kbd_gets out (of_nat (n + 1)) [] s con m = Some (0, irqs1, s1, con1, m1) \<and>
    out - 1 \<notin> region out (n + 1) \<and> m1 (out - 1) = 0"
proof -
  define m0 where "m0 = (\<lambda>a. if a \<in> region out (n + 1) then 0 else m a)"
  define m1 where "m1 = m0(out - 1 := 0)"
  define w where "w = (of_nat (n + 1) :: u32)"
  have r: "readable [] s" and st: "stream [] s = [CHR 0x08, CHR 0x0A]"
    using assms(1,2) by (simp_all add: readable_def stream_def KBD_BUF_SIZE_def)
  define con0 where "con0 = con @ CHR 0x1B # ''[?25h''"
  obtain s1 irqs1 where g1: "kbd_getc [] s con0 = Some (CHR 0x08, s1, con0 @ [CHR 0x08], irqs1)"
    and r1: "readable irqs1 s1" "stream irqs1 s1 = [CHR 0x0A]"
    using kbd_getc_stream [OF r, of con0] st by (auto simp: NUL_def)
  obtain s2 irqs2 con2 where g2: "kbd_getc irqs1 s1 (con0 @ [CHR 0x08]) = Some (CHR 0x0A, s2, con2, irqs2)"
    using kbd_getc_stream [OF r1(1), of "con0 @ [CHR 0x08]"] r1(2) by (auto simp: NUL_def)
  have w1: "w - 1 = of_nat n" by (simp add: w_def)
  have sn: "sint (of_nat n :: u32) = int n" using assms(4) by (intro sint_small) simp
  have "sint w = int (n + 1)" unfolding w_def using assms(4) by (intro sint_small) simp
  then have k: "nat (sint w) = n + 1" by simp
  have z: "fold (\<lambda>i m. m(out_index out (of_nat i) := 0)) [0..<n + 1] m = m0"
    unfolding m0_def by (rule zero_buffer) (use assms(4) in simp)
  have minus: "out_index out (- 1) = out - 1" by (simp add: out_index_def)
  have "gets_loop out w (- 1) irqs1 s1 (con0 @ [CHR 0x08]) m1 = Some (- 1, irqs2, s2, con2, m1)"
    by (subst gets_loop.simps) (simp add: w1 sn g2)
  then have g: "gets_loop out w 0 [] s con0 m0 = Some (- 1, irqs2, s2, con2, m1)"
    using assms(3) by (subst gets_loop.simps) (simp add: w1 sn g1 minus m1_def NUL_def)
  have "m1 out = 0" by (simp add: m1_def m0_def)
  then have "strlen m1 out = Some 0" unfolding strlen_def by (subst strlen_loop.simps) simp
  then have "\<exists>con3. kbd_gets out w [] s con m = Some (0, irqs2, s2, con3, m1)"
    using g unfolding kbd_gets_def Let_def k z
    by (simp add: printk_plain NUL_def con0_def)
  moreover have "out - 1 \<notin> region out (n + 1)"
    using assms(4) by (simp add: region_def unsigned_minus_1_eq_mask mask_eq_exp_minus_1)
  moreover have "m1 (out - 1) = 0" by (simp add: m1_def)
  ultimately show ?thesis unfolding w_def by blast
qed

theorem kbd_gets_underflow_witness:
  "\<exists>irqs1 s1 con1 m1. kbd_gets 0x1000 (of_nat (7 + 1)) []
      (kbd_demo\<lparr>kbd_drvr_buf := (\<lambda>_. CHR 0x0A)(0 := CHR 0x08), kbd_buf_head := 2\<rparr>) [] (\<lambda>_. 7) =
    Some (0, irqs1, s1, con1, m1) \<and> m1 0xFFF = 0"
proof -
  let ?s = "kbd_demo\<lparr>kbd_drvr_buf := (\<lambda>_. CHR 0x0A)(0 := CHR 0x08), kbd_buf_head := 2\<rparr>"
  have "kbd_ok ?s" by (simp add: kbd_demo_def kbd_ok_def KBD_BUF_SIZE_def)
  moreover have "typed_ahead ?s = [CHR 0x08, CHR 0x0A]"
    by (simp add: typed_ahead_def kbd_count_def KBD_BUF_SIZE_def kbd_demo_def upt_rec)
  ultimately show ?thesis using kbd_gets_underflow [of ?s 7 4096 "[]" "\<lambda>_. 7"] by auto
qed



end
