(* ===== verification/PIC.thy ===== *)
theory PIC
  imports Machine
begin

text \<open>
  The part of \<^verbatim>\<open>src/ASNU/src/IDT/idt.c\<close> that programs the two interrupt controllers, and what
  their documentation says the controllers make of it: the specification is the state of a
  controller as a function of the bytes written to its two ports.
\<close>

section \<open>Operations\<close>

definition PIC1 :: u16 where "PIC1 = 0x20"
definition PIC2 :: u16 where "PIC2 = 0xA0"
definition PIC1_COMMAND :: u16 where "PIC1_COMMAND = PIC1"
definition PIC1_DATA :: u16 where "PIC1_DATA = PIC1 + 1"
definition PIC2_COMMAND :: u16 where "PIC2_COMMAND = PIC2"
definition PIC2_DATA :: u16 where "PIC2_DATA = PIC2 + 1"
definition PIC_EOI :: u8 where "PIC_EOI = 0x20"
definition ICW1_ICW4 :: u8 where "ICW1_ICW4 = 0x01"
definition ICW1_INIT :: u8 where "ICW1_INIT = 0x10"
definition ICW4_8086 :: u8 where "ICW4_8086 = 0x01"

lemmas pic_ports = PIC1_COMMAND_def PIC1_DATA_def PIC2_COMMAND_def PIC2_DATA_def PIC1_def PIC2_def
lemmas pic_codes = PIC_EOI_def ICW1_ICW4_def ICW1_INIT_def ICW4_8086_def

definition idt_pic_send_eoi :: "u8 \<Rightarrow> machine \<Rightarrow> machine" where
  "idt_pic_send_eoi irq k =
     outb PIC1_COMMAND PIC_EOI (if 8 \<le> irq then outb PIC2_COMMAND PIC_EOI k else k)"

definition idt_pic_remap :: "u32 \<Rightarrow> u32 \<Rightarrow> machine \<Rightarrow> machine" where
  "idt_pic_remap offset1 offset2 k0 =
     (let k1 = IOWait (outb PIC1_COMMAND (ICW1_INIT OR ICW1_ICW4) k0);
          k2 = IOWait (outb PIC2_COMMAND (ICW1_INIT OR ICW1_ICW4) k1);
          k3 = IOWait (outb PIC1_DATA (ucast offset1) k2);
          k4 = IOWait (outb PIC2_DATA (ucast offset2) k3);
          k5 = IOWait (outb PIC1_DATA 4 k4);
          k6 = IOWait (outb PIC2_DATA 2 k5);
          k7 = IOWait (outb PIC1_DATA ICW4_8086 k6);
          k8 = IOWait (outb PIC2_DATA ICW4_8086 k7)
      in outb PIC2_DATA 0 (outb PIC1_DATA 0 k8))"

text \<open>\<^verbatim>\<open>1 << IRQline\<close> is an \<^verbatim>\<open>int\<close>: undefined, \<open>None\<close>, from 32 on.\<close>

definition irq_port :: "u8 \<Rightarrow> u16 \<times> u8" where
  "irq_port IRQline = (if IRQline < 8 then (PIC1_DATA, IRQline) else (PIC2_DATA, IRQline - 8))"

definition irq_bit :: "u8 \<Rightarrow> u32 option" where
  "irq_bit line = (if line < 32 then Some (push_bit (unat line) 1) else None)"

definition KiIrqSetMask :: "u8 \<Rightarrow> machine \<Rightarrow> machine option" where
  "KiIrqSetMask IRQline k =
     (case irq_port IRQline of (port, line) \<Rightarrow>
        (case inb port k of (v, k1) \<Rightarrow>
           map_option (\<lambda>b. outb port (ucast (ucast v OR b)) k1) (irq_bit line)))"

definition idt_irq_clear_mask :: "u8 \<Rightarrow> machine \<Rightarrow> machine option" where
  "idt_irq_clear_mask IRQline k =
     (case irq_port IRQline of (port, line) \<Rightarrow>
        (case inb port k of (v, k1) \<Rightarrow>
           map_option (\<lambda>b. outb port (ucast (ucast v AND NOT b)) k1) (irq_bit line)))"

section \<open>The controllers\<close>

text \<open>
  An 8259A controller: \<open>icw\<close> is the initialisation word the data port expects next (0: none, the
  data port is the mask), \<open>eois\<close> counts the non-specific end-of-interrupt commands.
\<close>

record pic8259 =
  icw :: nat
  single_mode :: bool
  wants_icw4 :: bool
  vector_base :: u8
  cascade :: u8
  icw4 :: u8
  imr :: u8
  eois :: nat

definition pic_command :: "u8 \<Rightarrow> pic8259 \<Rightarrow> pic8259" where
  "pic_command d p =
     (if d AND 0x10 \<noteq> 0 then p\<lparr>icw := 2, single_mode := (d AND 0x02 \<noteq> 0), wants_icw4 := (d AND 0x01 \<noteq> 0), imr := 0\<rparr>
      else if d AND 0x18 = 0 \<and> d AND 0xE0 = 0x20 then p\<lparr>eois := eois p + 1\<rparr>
      else p)"

definition pic_data :: "u8 \<Rightarrow> pic8259 \<Rightarrow> pic8259" where
  "pic_data d p =
     (if icw p = 2 then p\<lparr>vector_base := d AND 0xF8,
         icw := (if \<not> single_mode p then 3 else if wants_icw4 p then 4 else 0)\<rparr>
      else if icw p = 3 then p\<lparr>cascade := d, icw := (if wants_icw4 p then 4 else 0)\<rparr>
      else if icw p = 4 then p\<lparr>icw4 := d, icw := 0\<rparr>
      else p\<lparr>imr := d\<rparr>)"

fun pic_step :: "io \<Rightarrow> pic8259 \<times> pic8259 \<Rightarrow> pic8259 \<times> pic8259" where
  "pic_step (Out8 port d) (a, b) =
     (if port = 0x20 then (pic_command d a, b)
      else if port = 0x21 then (pic_data d a, b)
      else if port = 0xA0 then (a, pic_command d b)
      else if port = 0xA1 then (a, pic_data d b)
      else (a, b))"
| "pic_step _ ps = ps"

text \<open>A controller before its initialisation.\<close>

definition pic_reset :: pic8259 where
  "pic_reset = \<lparr>icw = 0, single_mode = False, wants_icw4 = False, vector_base = 0, cascade = 0, icw4 = 0,
     imr = 0, eois = 0\<rparr>"

text \<open>The traces hold the newest access first.\<close>

definition pics :: "pic8259 \<times> pic8259 \<Rightarrow> io list \<Rightarrow> pic8259 \<times> pic8259" where
  "pics ps t = foldr pic_step t ps"

lemma pics_Cons [simp]: "pics ps (e # t) = pic_step e (pics ps t)"
  by (simp add: pics_def)

text \<open>Reading a data port of an initialised controller returns its mask.\<close>

definition reads_mask :: "pic8259 \<times> pic8259 \<Rightarrow> machine \<Rightarrow> bool" where
  "reads_mask ps k \<longleftrightarrow> (\<forall>t. (icw (fst (pics ps t)) = 0 \<longrightarrow> ucast (dev k t 0x21) = imr (fst (pics ps t))) \<and>
     (icw (snd (pics ps t)) = 0 \<longrightarrow> ucast (dev k t 0xA1) = imr (snd (pics ps t))))"

lemma dev_outb [simp]: "dev (outb p b k) = dev k" "dev (IOWait k) = dev k"
  by (simp_all add: outb_def IOWait_def)

lemma trace_outb [simp]: "trace (outb p b k) = Out8 p b # trace k" "trace (IOWait k) = Out8 0x80 0 # trace k"
  by (simp_all add: outb_def IOWait_def)

lemma fst_inb [simp]: "fst (inb p k) = ucast (dev k (trace k) p)"
  "trace (snd (inb p k)) = In8 p # trace k" "dev (snd (inb p k)) = dev k"
  by (simp_all add: inb_def)

section \<open>What the controllers are programmed to\<close>

lemma remap_pics:
  "pics ps (trace (idt_pic_remap o1 o2 k)) =
    ((fst (pics ps (trace k)))\<lparr>icw := 0, single_mode := False, wants_icw4 := True,
        vector_base := ucast o1 AND 0xF8, cascade := 4, icw4 := 1, imr := 0\<rparr>,
     (snd (pics ps (trace k)))\<lparr>icw := 0, single_mode := False, wants_icw4 := True,
        vector_base := ucast o2 AND 0xF8, cascade := 2, icw4 := 1, imr := 0\<rparr>)"
  by (cases "pics ps (trace k)")
    (simp add: idt_pic_remap_def Let_def pic_ports pic_codes pic_command_def pic_data_def)

lemma dev_remap [simp]: "dev (idt_pic_remap o1 o2 k) = dev k"
  by (simp add: idt_pic_remap_def Let_def)

lemma eoi_pics:
  "pics ps (trace (idt_pic_send_eoi irq k)) = (case pics ps (trace k) of (a, b) \<Rightarrow>
     (a\<lparr>eois := eois a + 1\<rparr>, if 8 \<le> irq then b\<lparr>eois := eois b + 1\<rparr> else b))"
  by (cases "pics ps (trace k)")
    (simp add: idt_pic_send_eoi_def pic_ports pic_codes pic_command_def)

section \<open>Masks\<close>

definition irq_enabled :: "pic8259 \<times> pic8259 \<Rightarrow> nat \<Rightarrow> bool" where
  "irq_enabled ps irq = (if irq < 8 then \<not> bit (imr (fst ps)) irq else \<not> bit (imr (snd ps)) (irq - 8))"

definition pics_ready :: "pic8259 \<times> pic8259 \<Rightarrow> bool" where
  "pics_ready ps \<longleftrightarrow> icw (fst ps) = 0 \<and> icw (snd ps) = 0"

text \<open>Two states of the controllers that differ only in their masks.\<close>

definition same_setup :: "pic8259 \<times> pic8259 \<Rightarrow> pic8259 \<times> pic8259 \<Rightarrow> bool" where
  "same_setup ps qs \<longleftrightarrow> (fst ps)\<lparr>imr := 0\<rparr> = (fst qs)\<lparr>imr := 0\<rparr> \<and> (snd ps)\<lparr>imr := 0\<rparr> = (snd qs)\<lparr>imr := 0\<rparr>"

lemma same_setup_imr [simp]:
  "same_setup (a\<lparr>imr := x\<rparr>, b) (a, b)" "same_setup (a, b\<lparr>imr := x\<rparr>) (a, b)" "same_setup ps ps"
  by (simp_all add: same_setup_def)

lemma same_setup_trans: "same_setup ps qs \<Longrightarrow> same_setup qs rs \<Longrightarrow> same_setup ps rs"
  by (simp add: same_setup_def)

lemma same_setup_fields:
  assumes "same_setup ps qs"
  shows "icw (fst ps) = icw (fst qs)" "icw (snd ps) = icw (snd qs)"
    "vector_base (fst ps) = vector_base (fst qs)" "vector_base (snd ps) = vector_base (snd qs)"
    "cascade (fst ps) = cascade (fst qs)" "cascade (snd ps) = cascade (snd qs)"
    "eois (fst ps) = eois (fst qs)" "eois (snd ps) = eois (snd qs)"
proof -
  have e: "(fst ps)\<lparr>imr := 0\<rparr> = (fst qs)\<lparr>imr := 0\<rparr>" "(snd ps)\<lparr>imr := 0\<rparr> = (snd qs)\<lparr>imr := 0\<rparr>"
    using assms by (simp_all add: same_setup_def)
  show "icw (fst ps) = icw (fst qs)" "icw (snd ps) = icw (snd qs)"
    using e [THEN arg_cong, of icw] by simp_all
  show "vector_base (fst ps) = vector_base (fst qs)" "vector_base (snd ps) = vector_base (snd qs)"
    using e [THEN arg_cong, of vector_base] by simp_all
  show "cascade (fst ps) = cascade (fst qs)" "cascade (snd ps) = cascade (snd qs)"
    using e [THEN arg_cong, of cascade] by simp_all
  show "eois (fst ps) = eois (fst qs)" "eois (snd ps) = eois (snd qs)"
    using e [THEN arg_cong, of eois] by simp_all
qed

lemma bit_line: "bit (push_bit n (1 :: u32)) i \<longleftrightarrow> i = n \<and> i < 32"
  by (auto simp: bit_exp_iff)

lemma bit_mask_set:
  assumes "n < 8" and "i < 8"
  shows "bit (ucast (ucast (v :: u8) OR push_bit n (1 :: u32)) :: u8) i \<longleftrightarrow> bit v i \<or> i = n"
  using assms by (simp add: bit_ucast_iff bit_or_iff bit_line del: push_bit_of_1)

lemma bit_mask_clear:
  assumes "n < 8" and "i < 8"
  shows "bit (ucast (ucast (v :: u8) AND NOT (push_bit n (1 :: u32))) :: u8) i \<longleftrightarrow> bit v i \<and> i \<noteq> n"
  using assms by (simp add: bit_ucast_iff bit_and_iff bit_not_iff bit_line del: push_bit_of_1)

text \<open>Reading a mask, changing it and writing it back, on either controller.\<close>

lemma irq_update:
  assumes k: "reads_mask ps k" "pics_ready (pics ps (trace k))" and irq: "irq < (16 :: u8)"
    and f: "\<forall>v i n. i < 8 \<longrightarrow> n < 8 \<longrightarrow> bit (f v (push_bit n 1)) i = g (bit v i) (i = n)"
    and g: "\<forall>b. g b False = b"
    and op: "op irq k = (case irq_port irq of (port, line) \<Rightarrow> case inb port k of (v, k1) \<Rightarrow>
        map_option (\<lambda>b. outb port (f v b) k1) (irq_bit line))"
  shows "\<exists>k'. op irq k = Some k' \<and> reads_mask ps k' \<and> pics_ready (pics ps (trace k')) \<and>
    same_setup (pics ps (trace k')) (pics ps (trace k)) \<and>
    (\<forall>j < 16. irq_enabled (pics ps (trace k')) j \<longleftrightarrow>
       (if j = unat irq then \<not> g (\<not> irq_enabled (pics ps (trace k)) j) True
        else irq_enabled (pics ps (trace k)) j))"
proof -
  obtain a b where ab: "pics ps (trace k) = (a, b)" by (cases "pics ps (trace k)")
  have r: "ucast (dev k (trace k) 0x21) = imr a"
    using k ab unfolding reads_mask_def pics_ready_def by (metis fst_conv)
  have r': "ucast (dev k (trace k) 0xA1) = imr b"
    using k ab unfolding reads_mask_def pics_ready_def by (metis snd_conv)
  have u: "unat irq < 16" using irq by (simp add: word_less_nat_alt)
  have d: "reads_mask ps k'" if "dev k' = dev k" for k' using that k(1) by (simp add: reads_mask_def)
  show ?thesis
  proof (cases "irq < 8")
    case True
    then have n: "unat irq < 8" by (simp add: word_less_nat_alt)
    have l: "irq < 32" using True by (rule less_trans) simp
    define k' where "k' = outb 0x21 (f (imr a) (push_bit (unat irq) 1)) (snd (inb 0x21 k))"
    have e: "op irq k = Some k'"
      using True l by (simp add: op irq_port_def irq_bit_def pic_ports k'_def split_beta r)
    have p: "pics ps (trace k') = (a\<lparr>imr := f (imr a) (push_bit (unat irq) 1)\<rparr>, b)"
      using k(2) ab by (simp add: k'_def pic_data_def pics_ready_def)
    have "irq_enabled (pics ps (trace k')) j \<longleftrightarrow>
       (if j = unat irq then \<not> g (\<not> irq_enabled (a, b) j) True else irq_enabled (a, b) j)" for j
    proof (cases "j < 8")
      case True
      with n f have "bit (f (imr a) (push_bit (unat irq) 1)) j = g (bit (imr a) j) (j = unat irq)" by blast
      with True g show ?thesis by (simp add: p irq_enabled_def del: push_bit_of_1)
    next
      case False
      with n show ?thesis by (simp add: p irq_enabled_def)
    qed
    moreover have "pics_ready (pics ps (trace k'))" using k(2) ab by (simp add: p pics_ready_def)
    moreover have "reads_mask ps k'" by (rule d) (simp add: k'_def)
    moreover have "same_setup (pics ps (trace k')) (pics ps (trace k))" by (simp add: p ab)
    ultimately show ?thesis using e ab by simp
  next
    case False
    then have n: "8 \<le> unat irq" by (simp add: word_less_nat_alt not_less)
    then have m: "unat (irq - 8) = unat irq - 8" using False by (simp add: unat_sub_if' not_less word_le_nat_alt)
    have l: "irq - 8 < 32" using u m by (simp add: word_less_nat_alt)
    define k' where "k' = outb 0xA1 (f (imr b) (push_bit (unat irq - 8) 1)) (snd (inb 0xA1 k))"
    have e: "op irq k = Some k'"
      using False l by (simp add: op irq_port_def irq_bit_def pic_ports k'_def split_beta r' m)
    have p: "pics ps (trace k') = (a, b\<lparr>imr := f (imr b) (push_bit (unat irq - 8) 1)\<rparr>)"
      using k(2) ab by (simp add: k'_def pic_data_def pics_ready_def)
    have "irq_enabled (pics ps (trace k')) j \<longleftrightarrow>
       (if j = unat irq then \<not> g (\<not> irq_enabled (a, b) j) True else irq_enabled (a, b) j)" if "j < 16" for j
    proof (cases "j < 8")
      case True
      with n show ?thesis by (simp add: p irq_enabled_def)
    next
      case False
      then have e: "j - 8 = unat irq - 8 \<longleftrightarrow> j = unat irq" using n by linarith
      from False that u have "j - 8 < 8" "unat irq - 8 < 8" by linarith+
      with f have "bit (f (imr b) (push_bit (unat irq - 8) 1)) (j - 8) =
          g (bit (imr b) (j - 8)) (j - 8 = unat irq - 8)" by blast
      with False g show ?thesis by (simp add: p irq_enabled_def e del: push_bit_of_1)
    qed
    moreover have "pics_ready (pics ps (trace k'))" using k(2) ab by (simp add: p pics_ready_def)
    moreover have "reads_mask ps k'" by (rule d) (simp add: k'_def)
    moreover have "same_setup (pics ps (trace k')) (pics ps (trace k))" by (simp add: p ab)
    ultimately show ?thesis using e ab by simp
  qed
qed

lemma irq_clear_mask_enables:
  assumes "reads_mask ps k" "pics_ready (pics ps (trace k))" and "irq < (16 :: u8)"
  shows "\<exists>k'. idt_irq_clear_mask irq k = Some k' \<and> reads_mask ps k' \<and> pics_ready (pics ps (trace k')) \<and>
    same_setup (pics ps (trace k')) (pics ps (trace k)) \<and>
    (\<forall>j < 16. irq_enabled (pics ps (trace k')) j \<longleftrightarrow> j = unat irq \<or> irq_enabled (pics ps (trace k)) j)"
proof -
  have "\<exists>k'. idt_irq_clear_mask irq k = Some k' \<and> reads_mask ps k' \<and> pics_ready (pics ps (trace k')) \<and>
    same_setup (pics ps (trace k')) (pics ps (trace k)) \<and>
    (\<forall>j < 16. irq_enabled (pics ps (trace k')) j \<longleftrightarrow>
       (if j = unat irq then \<not> (\<not> irq_enabled (pics ps (trace k)) j \<and> \<not> True)
        else irq_enabled (pics ps (trace k)) j))"
    by (rule irq_update [OF assms]) (simp_all add: bit_mask_clear idt_irq_clear_mask_def del: push_bit_of_1)
  then show ?thesis by auto
qed

lemma irq_set_mask_disables:
  assumes "reads_mask ps k" "pics_ready (pics ps (trace k))" and "irq < (16 :: u8)"
  shows "\<exists>k'. KiIrqSetMask irq k = Some k' \<and> reads_mask ps k' \<and> pics_ready (pics ps (trace k')) \<and>
    same_setup (pics ps (trace k')) (pics ps (trace k)) \<and>
    (\<forall>j < 16. irq_enabled (pics ps (trace k')) j \<longleftrightarrow> j \<noteq> unat irq \<and> irq_enabled (pics ps (trace k)) j)"
proof -
  have "\<exists>k'. KiIrqSetMask irq k = Some k' \<and> reads_mask ps k' \<and> pics_ready (pics ps (trace k')) \<and>
    same_setup (pics ps (trace k')) (pics ps (trace k)) \<and>
    (\<forall>j < 16. irq_enabled (pics ps (trace k')) j \<longleftrightarrow>
       (if j = unat irq then \<not> (\<not> irq_enabled (pics ps (trace k)) j \<or> True)
        else irq_enabled (pics ps (trace k)) j))"
    by (rule irq_update [OF assms]) (simp_all add: bit_mask_set KiIrqSetMask_def del: push_bit_of_1)
  then show ?thesis by auto
qed

end
