(* ===== verification/IDT.thy ===== *)
theory IDT
  imports PIC VMM Keyboard
begin

text \<open>
  Model of \<^verbatim>\<open>src/ASNU/src/IDT/idt.c\<close> without the interrupt controllers: the descriptor table,
  the handlers of exceptions and of the keyboard, and the initialisation. The table is a total
  function on vectors; addresses the linker chooses are parameters. The register \<^verbatim>\<open>CR2\<close> is the
  argument \<open>CR2\<close> of the exception handler, which either halts for ever or returns.
\<close>

section \<open>Descriptors\<close>

record idt_entry =
  isr_low :: u16
  kernel_cs :: u16
  ist :: u8
  attributes :: u8
  isr_mid :: u16
  isr_high :: u32
  entry_reserved :: u32

text \<open>\<open>loaded_idt\<close> and \<open>int_flag\<close> are the processor's: the table register and the interrupt flag.\<close>

record idt_state =
  idt :: "u8 \<Rightarrow> idt_entry"
  vectors :: "u8 \<Rightarrow> bool"
  idtr_limit :: u16
  idtr_base :: u64
  loaded_idt :: "(u16 \<times> u64) option"
  int_flag :: bool

record link_addresses =
  addr_idt :: u64
  isr_stub_table :: "u8 \<Rightarrow> u64"
  addr_pit_handler :: u64
  addr_keyboard_handler :: u64

definition IDT_MAX_DESCRIPTORS :: nat where "IDT_MAX_DESCRIPTORS = 256"
definition GDT_OFFSET_KERNEL_CODE :: u16 where "GDT_OFFSET_KERNEL_CODE = 0x08"
definition sizeof_idt_entry :: nat where "sizeof_idt_entry = 16"

definition idt_set_desc :: "u8 \<Rightarrow> u64 \<Rightarrow> u8 \<Rightarrow> idt_state \<Rightarrow> idt_state" where
  "idt_set_desc vector isr flags s =
     s\<lparr>idt := (idt s)(vector := \<lparr>isr_low = ucast (isr AND 0xFFFF),
         kernel_cs = GDT_OFFSET_KERNEL_CODE, ist = 0, attributes = flags,
         isr_mid = ucast (drop_bit 16 isr AND 0xFFFF),
         isr_high = ucast (drop_bit 32 isr AND 0xFFFFFFFF), entry_reserved = 0\<rparr>)\<rparr>"

definition idt_init_exceptions :: "link_addresses \<Rightarrow> idt_state \<Rightarrow> idt_state" where
  "idt_init_exceptions la s =
     fold (\<lambda>i s. let vector = of_nat i; s1 = idt_set_desc vector (isr_stub_table la vector) 0x8E s
                 in s1\<lparr>vectors := (vectors s1)(vector := True)\<rparr>) [0..<32] s"

definition idt_init :: "link_addresses \<Rightarrow> idt_state \<Rightarrow> machine \<Rightarrow> (idt_state \<times> machine) option" where
  "idt_init la s k =
     do {
       let s1 = s\<lparr>idtr_base := addr_idt la,
                  idtr_limit := of_nat (sizeof_idt_entry * IDT_MAX_DESCRIPTORS - 1)\<rparr>;
       let s2 = idt_init_exceptions la s1;
       let k1 = idt_pic_remap 0x20 0x28 k;
       let s3 = idt_set_desc 0x20 (addr_pit_handler la) 0x8E s2;
       let s4 = idt_set_desc 0x21 (addr_keyboard_handler la) 0x8E s3;
       let k2 = outb PIC2_DATA 0xFF (outb PIC1_DATA 0xFC k1);
       k3 \<leftarrow> idt_irq_clear_mask 0 k2;
       k4 \<leftarrow> idt_irq_clear_mask 1 k3;
       let s5 = s4\<lparr>int_flag := False\<rparr>;
       let s6 = s5\<lparr>loaded_idt := Some (idtr_limit s5, idtr_base s5)\<rparr>;
       Some (s6\<lparr>int_flag := True\<rparr>, k4)
     }"

section \<open>Handlers\<close>

definition printk_k :: "string \<Rightarrow> varg list \<Rightarrow> machine \<Rightarrow> machine option" where
  "printk_k fmt va k = map_option (\<lambda>(n, con). k\<lparr>console := con\<rparr>) (printk fmt va (console k))"

definition LFCR :: string where "LFCR = [CHR 0x0A, CHR 0x0D]"

text \<open>The table has 16 entries, of which the ones between are null pointers.\<close>

definition PageFaultErrorCodeStrings :: "nat \<Rightarrow> string option" where
  "PageFaultErrorCodeStrings i =
     (if i = 0 then Some ''Present violation''
      else if i = 1 then Some ''Write access''
      else if i = 2 then Some ''User-mode access''
      else if i = 3 then Some ''Reserved bit violation''
      else if i = 4 then Some ''Instruction fetch''
      else if i = 5 then Some ''Protection-key violation''
      else if i = 15 then Some ''SGX access violation''
      else None)"

fun fault_lines :: "u64 \<Rightarrow> nat list \<Rightarrow> machine \<Rightarrow> machine option" where
  "fault_lines err [] k = Some k"
| "fault_lines err (b # bs) k =
     do {
       k1 \<leftarrow> (if err AND push_bit b 1 \<noteq> 0 \<and> b < 16
              then case PageFaultErrorCodeStrings b of
                     None \<Rightarrow> Some k
                   | Some msg \<Rightarrow> printk_k (''  - %s'' @ LFCR) [VStr msg] k
              else Some k);
       fault_lines err bs k1
     }"

definition PrintPageFaultError :: "u64 \<Rightarrow> machine \<Rightarrow> machine option" where
  "PrintPageFaultError err k = fault_lines err [0..<64] k"

text \<open>The rows of \<^verbatim>\<open>char error_codes[32][128]\<close> beyond the listed ones are empty strings.\<close>

definition error_codes :: "nat \<Rightarrow> string" where
  "error_codes i = (let t = [''Division by 0'', ''Reserved1'', ''NMI Interrupt'', ''Breakpoint (INT3)'',
      ''Overflow (INTO)'', ''Bounds range exceeded (BOUND)'', ''Invalid opcode (UD2)'',
      ''Device not available (WAIT/FWAIT)'', ''Double fault'', ''Coprocessor segment overrun'',
      ''Invalid TSS'', ''Segment not present'', ''Stack-segment fault'',
      ''General protection fault (GPFault)'', ''Page fault'', ''Reserved2'', ''x87 FPU error'',
      ''Alignment check'', ''SIMD Floating-Point Exception'', ''Reserved3'']
     in if i < length t then t ! i else [])"

definition PANIC_HEAD :: string where
  "PANIC_HEAD = CHR 0x1B # ''[1;91m{ PANIC }'' @ [CHR 0x09] @ ''IDT Exception occurred'' @ LFCR @ [CHR 0x09, CHR 0x09]"

datatype outcome = Halted | Resumed

definition exception_handler ::
  "PmmFile \<Rightarrow> u64 \<Rightarrow> u64 \<Rightarrow> u32 \<Rightarrow> u64 \<Rightarrow> mem \<Rightarrow> machine \<Rightarrow> (outcome \<times> mem \<times> machine) option" where
  "exception_handler pm root CR2 exception err_code m k =
     (if sint exception < 0 \<or> sint exception > 31 then
        do {
          k1 \<leftarrow> printk_k (PANIC_HEAD @ ''Unknown exception (%d) - Assuming software interrupt'' @ LFCR
                 @ CHR 0x1B # ''[0m'') [VInt (ucast exception)] k;
          Some (Halted, m, k1)
        }
      else
        do {
          k1 \<leftarrow> serial_fwrite (PANIC_HEAD @ ''%s'' @ LFCR @ CHR 0x1B # ''[0m'')
                 [VStr (error_codes (unat exception))] k;
          if exception = 14 then
            do {
              k2 \<leftarrow> serial_fwrite (''Exception is a #PAGEFAULT'' @ LFCR) [] k1;
              k3 \<leftarrow> serial_fwrite (''CR2: 0x%016X'' @ LFCR) [VInt CR2] k2;
              k4 \<leftarrow> PrintPageFaultError err_code k3;
              if CR2 = 0 \<or> CR2 < 0x1000 then
                do {
                  k5 \<leftarrow> serial_fwrite (''CR2 is null or too low. Cannot recover.'' @ LFCR @ ''Halting...'' @ LFCR) [] k4;
                  Some (Halted, m, k5)
                }
              else
                do {
                  k5 \<leftarrow> serial_fwrite (''Attempting to identity-map faulting address: %p'' @ LFCR) [VInt CR2] k4;
                  m1 \<leftarrow> mmap pm root CR2 CR2 (PAGE_PRESENT OR PAGE_RW) m;
                  k6 \<leftarrow> serial_fwrite (''Mapped. Returning to continue execution.'' @ LFCR) [] k5;
                  Some (Resumed, m1, k6)
                }
            }
          else Some (Halted, m, k1)
        })"

definition idt_keyboard_handler :: "kbd \<Rightarrow> machine \<Rightarrow> kbd \<times> machine" where
  "idt_keyboard_handler s k =
     (case inb 0x60 k of (sc, k1) \<Rightarrow>
        (KeyboardDriverMain sc s, outb 0x20 0x20 (idt_pic_send_eoi 1 k1)))"

end
