(* ===== verification/IDT_Spec.thy ===== *)
theory IDT_Spec
  imports IDT VMM_Spec
begin

text \<open>
  Correctness of the interrupt set-up: what a descriptor encodes, where the interrupts arrive
  once \<^verbatim>\<open>idt_init\<close> has run, and what becomes of an exception.
\<close>

section \<open>Descriptors\<close>

text \<open>The address a gate jumps to.\<close>

definition gate_target :: "idt_entry \<Rightarrow> u64" where
  "gate_target e = ucast (isr_low e) OR push_bit 16 (ucast (isr_mid e)) OR push_bit 32 (ucast (isr_high e))"

lemma gate_parts:
  "(ucast (ucast (isr AND 0xFFFF) :: u16) :: u64) OR
     push_bit 16 (ucast (ucast (drop_bit 16 isr AND 0xFFFF) :: u16)) OR
     push_bit 32 (ucast (ucast (drop_bit 32 isr AND 0xFFFFFFFF) :: u32)) = (isr :: u64)"
proof -
  have m: "(0xFFFF :: u64) = mask 16" "(0xFFFFFFFF :: u64) = mask 32" by (simp_all add: mask_eq_exp_minus_1)
  show ?thesis
    unfolding m
  proof (rule bit_eqI)
    fix n :: nat
    consider "n < 16" | "16 \<le> n" "n < 32" | "32 \<le> n" by linarith
    then show "bit ((ucast (ucast (isr AND mask 16) :: u16) :: u64) OR
        push_bit 16 (ucast (ucast (drop_bit 16 isr AND mask 16) :: u16)) OR
        push_bit 32 (ucast (ucast (drop_bit 32 isr AND mask 32) :: u32))) n = bit isr n"
      by cases (auto simp: bit_simps dest: bit_imp_possible_bit)
  qed
qed

lemma idt_set_desc_idt:
  "idt (idt_set_desc v isr fl s) w =
    (if w = v then \<lparr>isr_low = ucast (isr AND 0xFFFF), kernel_cs = 8, ist = 0, attributes = fl,
       isr_mid = ucast (drop_bit 16 isr AND 0xFFFF), isr_high = ucast (drop_bit 32 isr AND 0xFFFFFFFF),
       entry_reserved = 0\<rparr> else idt s w)"
  by (simp add: idt_set_desc_def GDT_OFFSET_KERNEL_CODE_def)

lemma idt_set_desc_gate [simp]:
  "gate_target (idt (idt_set_desc v isr fl s) w) = (if w = v then isr else gate_target (idt s w))"
  "attributes (idt (idt_set_desc v isr fl s) w) = (if w = v then fl else attributes (idt s w))"
  "kernel_cs (idt (idt_set_desc v isr fl s) w) = (if w = v then 8 else kernel_cs (idt s w))"
  by (simp_all add: idt_set_desc_idt gate_target_def gate_parts)

lemma idt_set_desc_fields [simp]:
  "loaded_idt (idt_set_desc v isr fl s) = loaded_idt s" "int_flag (idt_set_desc v isr fl s) = int_flag s"
  "idtr_limit (idt_set_desc v isr fl s) = idtr_limit s" "idtr_base (idt_set_desc v isr fl s) = idtr_base s"
  "vectors (idt_set_desc v isr fl s) = vectors s"
  by (simp_all add: idt_set_desc_def)

text \<open>A gate for kernel code that disables interrupts on entry, present, for ring 0.\<close>

definition kernel_gate :: "idt_entry \<Rightarrow> u64 \<Rightarrow> bool" where
  "kernel_gate e isr \<longleftrightarrow> gate_target e = isr \<and> attributes e = 0x8E \<and> kernel_cs e = 8"

definition exceptions_upto :: "link_addresses \<Rightarrow> nat \<Rightarrow> idt_state \<Rightarrow> idt_state" where
  "exceptions_upto la n s =
     fold (\<lambda>i s. let vector = of_nat i; s1 = idt_set_desc vector (isr_stub_table la vector) 0x8E s
                 in s1\<lparr>vectors := (vectors s1)(vector := True)\<rparr>) [0..<n] s"

lemma u8_less_Suc: "n < 256 \<Longrightarrow> unat (v :: u8) < Suc n \<longleftrightarrow> v = of_nat n \<or> unat v < n"
  by (auto simp: less_Suc_eq word_unat_eq_iff unat_of_nat)

lemma exceptions_upto:
  "n \<le> 32 \<Longrightarrow> (unat v < n \<longrightarrow> kernel_gate (idt (exceptions_upto la n s) v) (isr_stub_table la v)) \<and>
    (n \<le> unat v \<longrightarrow> idt (exceptions_upto la n s) v = idt s v) \<and>
    (vectors (exceptions_upto la n s) v \<longleftrightarrow> unat v < n \<or> vectors s v) \<and>
    idtr_limit (exceptions_upto la n s) = idtr_limit s \<and> idtr_base (exceptions_upto la n s) = idtr_base s"
proof (induction n)
  case 0
  then show ?case by (simp add: exceptions_upto_def)
next
  case (Suc n)
  let ?s = "exceptions_upto la n s" and ?v = "of_nat n :: u8"
  have e: "exceptions_upto la (Suc n) s =
      (idt_set_desc ?v (isr_stub_table la ?v) 0x8E ?s)\<lparr>vectors := (vectors ?s)(?v := True)\<rparr>"
    by (simp add: exceptions_upto_def Let_def)
  have n: "n < 256" "unat ?v = n" using Suc.prems by (simp_all add: unat_of_nat)
  show ?case
    using Suc n unfolding e
    by (auto simp: kernel_gate_def idt_set_desc_idt u8_less_Suc gate_target_def gate_parts)
qed

lemma idt_init_exceptions_upto: "idt_init_exceptions la s = exceptions_upto la 32 s"
  by (simp add: idt_init_exceptions_def exceptions_upto_def)

section \<open>Handlers\<close>

lemma printk_k_fits:
  assumes "i2s_ok k" and "format_text fmt va \<noteq> None"
  shows "\<exists>k'. printk_k fmt va k = Some k' \<and> i2s_ok k'"
  using assms by (auto simp: printk_k_def printk_text i2s_ok_def)

lemma format_text_s:
  assumes "NUL \<notin> set p" and "CHR ''%'' \<notin> set p"
  shows "format_text (p @ CHR ''%'' # CHR ''s'' # q) (VStr v # va) \<noteq> None \<longleftrightarrow> format_text q va \<noteq> None"
  by (auto simp: format_text_append_literal [OF assms] directive_text_def specifier_text_def parse_width_def
      parse_precision_def parse_length_def peek_def is_digit_def int_specifier_def NUL_def Let_def
      split: option.splits)

lemma fault_lines_Some:
  "i2s_ok k \<Longrightarrow> \<exists>k'. fault_lines err bs k = Some k' \<and> i2s_ok k'"
proof (induction bs arbitrary: k)
  case (Cons b bs)
  have "format_text (''  - %s'' @ LFCR) [VStr msg] \<noteq> None" for msg
    using format_text_s [of "''  - ''" LFCR msg "[]"] by (simp add: LFCR_def NUL_def)
  then have p: "\<exists>k'. printk_k (''  - %s'' @ LFCR) [VStr msg] k = Some k' \<and> i2s_ok k'" for msg
    by (rule printk_k_fits [OF Cons.prems])
  show ?case
  proof (cases "err AND push_bit b 1 \<noteq> 0 \<and> b < 16 \<and> PageFaultErrorCodeStrings b \<noteq> None")
    case True
    then obtain msg where m: "PageFaultErrorCodeStrings b = Some msg" by blast
    obtain k1 where "printk_k (''  - %s'' @ LFCR) [VStr msg] k = Some k1" "i2s_ok k1"
      using p by blast
    with True m Cons.IH [of k1] show ?thesis by simp
  next
    case False
    with Cons.IH [OF Cons.prems] show ?thesis by (auto split: option.splits)
  qed
qed simp

lemma exception_formats [log_formats]:
  "fits (PANIC_HEAD @ ''%s'' @ LFCR @ CHR 0x1B # ''[0m'') [VStr t]"
  "fits (''Exception is a #PAGEFAULT'' @ LFCR) []"
  "fits (''CR2: 0x%016X'' @ LFCR) [VInt v]"
  "fits (''CR2 is null or too low. Cannot recover.'' @ LFCR @ ''Halting...'' @ LFCR) []"
  "fits (''Attempting to identity-map faulting address: %p'' @ LFCR) [VInt v]"
  "fits (''Mapped. Returning to continue execution.'' @ LFCR) []"
  by (simp_all add: fits_simps PANIC_HEAD_def LFCR_def)

lemma format_text_d:
  assumes "NUL \<notin> set p" and "CHR ''%'' \<notin> set p"
  shows "format_text (p @ CHR ''%'' # CHR ''d'' # q) (VInt v # va) \<noteq> None \<longleftrightarrow> format_text q va \<noteq> None"
  by (auto simp: format_text_append_literal [OF assms] directive_text_def specifier_text_def parse_width_def
      parse_precision_def parse_length_def peek_def is_digit_def int_specifier_def NUL_def Let_def
      split: option.splits)

lemma unknown_exception_format:
  "format_text (PANIC_HEAD @ ''Unknown exception (%d) - Assuming software interrupt'' @ LFCR @ CHR 0x1B # ''[0m'')
    [VInt v] \<noteq> None"
proof -
  let ?p = "PANIC_HEAD @ ''Unknown exception (''"
  let ?q = "'') - Assuming software interrupt'' @ LFCR @ CHR 0x1B # ''[0m''"
  have p: "NUL \<notin> set ?p" "CHR ''%'' \<notin> set ?p" by (simp_all add: PANIC_HEAD_def LFCR_def NUL_def)
  have "format_text ?q [] = Some ?q" by (simp add: LFCR_def NUL_def)
  then show ?thesis using format_text_d [OF p, of ?q v "[]"] by simp
qed

definition recoverable :: "u32 \<Rightarrow> u64 \<Rightarrow> bool" where
  "recoverable exception CR2 \<longleftrightarrow> exception = 14 \<and> 0x1000 \<le> CR2"

lemma exception_halts:
  assumes "i2s_ok k" and "\<not> recoverable exception CR2"
  shows "\<exists>r. exception_handler pm root CR2 exception err m k = Some r \<and>
    fst r = Halted \<and> fst (snd r) = m \<and> i2s_ok (snd (snd r))"
proof (cases "sint exception < 0 \<or> sint exception > 31")
  case True
  then show ?thesis
    using printk_k_fits [OF assms(1) unknown_exception_format, of "ucast exception"]
    by (auto simp: exception_handler_def)
next
  case False
  have low: "CR2 = 0 \<or> CR2 < 0x1000" if "exception = 14" using assms(2) that by (auto simp: recoverable_def)
  show ?thesis
  proof (cases "exception = 14")
    case True
    have "\<exists>r. (PrintPageFaultError err k3 \<bind> (\<lambda>k4. serial_fwrite
        (''CR2 is null or too low. Cannot recover.'' @ LFCR @ ''Halting...'' @ LFCR) [] k4 \<bind>
        (\<lambda>k5. Some (Halted, m, k5)))) = Some r \<and> fst r = Halted \<and> fst (snd r) = m \<and> i2s_ok (snd (snd r))"
      if k3: "i2s_ok k3" for k3
    proof -
      obtain k4 where k4: "PrintPageFaultError err k3 = Some k4" "i2s_ok k4"
        using fault_lines_Some [OF k3] by (auto simp: PrintPageFaultError_def)
      show ?thesis
        unfolding k4(1) bind.bind_lunit by (rule log_bind [OF k4(2) exception_formats(4)]) simp
    qed
    then show ?thesis
      unfolding exception_handler_def if_not_P [OF False] if_P [OF True] if_P [OF low [OF True]]
      by (intro log_bind assms(1) log_formats)
  next
    case other: False
    show ?thesis
      unfolding exception_handler_def if_not_P [OF False] if_not_P [OF other]
      by (rule log_bind [OF assms(1) exception_formats(1)]) simp
  qed
qed

lemma exception_recovers:
  assumes "i2s_ok k" and "recoverable exception CR2"
    and "mmap pm root CR2 CR2 (PAGE_PRESENT OR PAGE_RW) m = Some m1"
  shows "\<exists>r. exception_handler pm root CR2 exception err m k = Some r \<and>
    fst r = Resumed \<and> fst (snd r) = m1 \<and> i2s_ok (snd (snd r))"
proof -
  have ex: "exception = 14" "\<not> (CR2 = 0 \<or> CR2 < 0x1000)" using assms(2) by (auto simp: recoverable_def not_less)
  have rng: "\<not> (sint exception < 0 \<or> sint exception > 31)" by (simp add: ex)
  have "\<exists>r. (PrintPageFaultError err k3 \<bind> (\<lambda>k4. serial_fwrite
      (''Attempting to identity-map faulting address: %p'' @ LFCR) [VInt CR2] k4 \<bind> (\<lambda>k5.
      mmap pm root CR2 CR2 (PAGE_PRESENT OR PAGE_RW) m \<bind> (\<lambda>m1.
      serial_fwrite (''Mapped. Returning to continue execution.'' @ LFCR) [] k5 \<bind>
      (\<lambda>k6. Some (Resumed, m1, k6)))))) = Some r \<and> fst r = Resumed \<and> fst (snd r) = m1 \<and> i2s_ok (snd (snd r))"
    if k3: "i2s_ok k3" for k3
  proof -
    obtain k4 where k4: "PrintPageFaultError err k3 = Some k4" "i2s_ok k4"
      using fault_lines_Some [OF k3] by (auto simp: PrintPageFaultError_def)
    show ?thesis
      unfolding k4(1) assms(3) bind.bind_lunit
      by (rule log_bind [OF k4(2) exception_formats(5)], rule log_bind [OF _ exception_formats(6)]) simp_all
  qed
  then show ?thesis
    unfolding exception_handler_def if_not_P [OF rng] if_P [OF ex(1)] if_not_P [OF ex(2)]
    by (intro log_bind assms(1) log_formats)
qed

lemma idt_init_ok:
  assumes "reads_mask ps k"
  shows "\<exists>s' k'. idt_init la s k = Some (s', k') \<and>
    (let (a, b) = pics ps (trace k')
     in icw a = 0 \<and> icw b = 0 \<and> vector_base a = 0x20 \<and> vector_base b = 0x28 \<and> cascade a = 4 \<and> cascade b = 2) \<and>
    (\<forall>j < 16. irq_enabled (pics ps (trace k')) j \<longleftrightarrow> j = 0 \<or> j = 1) \<and>
    kernel_gate (idt s' 0x20) (addr_pit_handler la) \<and> kernel_gate (idt s' 0x21) (addr_keyboard_handler la) \<and>
    (\<forall>v < 32. kernel_gate (idt s' v) (isr_stub_table la v)) \<and>
    (\<forall>v > 0x21. idt s' v = idt s v) \<and> loaded_idt s' = Some (4095, addr_idt la) \<and> int_flag s'"
proof -
  let ?k1 = "idt_pic_remap 0x20 0x28 k"
  define k2 where "k2 = outb PIC2_DATA 0xFF (outb PIC1_DATA 0xFC ?k1)"
  have ab: "pics ps (trace k2) = ((fst (pics ps (trace ?k1)))\<lparr>imr := 0xFC\<rparr>, (snd (pics ps (trace ?k1)))\<lparr>imr := 0xFF\<rparr>)"
    by (simp add: k2_def remap_pics pic_ports pic_data_def)
  have rd: "reads_mask ps k2" using assms by (simp add: k2_def reads_mask_def)
  have "pics_ready (pics ps (trace k2))" by (simp add: ab pics_ready_def remap_pics)
  from irq_clear_mask_enables [OF rd this, of 0] obtain k3 where
    k3: "idt_irq_clear_mask 0 k2 = Some k3" "reads_mask ps k3" "pics_ready (pics ps (trace k3))"
      "same_setup (pics ps (trace k3)) (pics ps (trace k2))"
      "\<forall>j < 16. irq_enabled (pics ps (trace k3)) j \<longleftrightarrow> j = 0 \<or> irq_enabled (pics ps (trace k2)) j"
    by auto
  from irq_clear_mask_enables [OF k3(2,3), of 1] obtain k4 where
    k4: "idt_irq_clear_mask 1 k3 = Some k4" "same_setup (pics ps (trace k4)) (pics ps (trace k3))"
      "\<forall>j < 16. irq_enabled (pics ps (trace k4)) j \<longleftrightarrow> j = 1 \<or> irq_enabled (pics ps (trace k3)) j"
    by auto
  have su: "same_setup (pics ps (trace k4)) (pics ps (trace k2))"
    using k4(2) k3(4) by (rule same_setup_trans)
  have masks: "irq_enabled (pics ps (trace k2)) j \<longleftrightarrow> j = 0 \<or> j = 1" if "j < 16" for j
  proof -
    have "j \<in> set [0..<16]" using that by simp
    then show ?thesis by (auto simp: upt_rec irq_enabled_def ab)
  qed
  define s' where "s' = (idt_set_desc 0x21 (addr_keyboard_handler la) 0x8E (idt_set_desc 0x20 (addr_pit_handler la) 0x8E
      (idt_init_exceptions la (s\<lparr>idtr_base := addr_idt la, idtr_limit := 4095\<rparr>))))
      \<lparr>int_flag := True, loaded_idt := Some (4095, addr_idt la)\<rparr>"
  have fields: "idtr_limit (idt_init_exceptions la s0) = idtr_limit s0" "idtr_base (idt_init_exceptions la s0) = idtr_base s0"
    for s0 using exceptions_upto [of 32 _ la s0] by (simp_all add: idt_init_exceptions_upto)
  have "idt_init la s k = Some (s', k4)"
    using k3(1) k4(1)
    by (simp add: idt_init_def k2_def s'_def fields sizeof_idt_entry_def IDT_MAX_DESCRIPTORS_def Let_def)
  moreover have "let (a, b) = pics ps (trace k4)
     in icw a = 0 \<and> icw b = 0 \<and> vector_base a = 0x20 \<and> vector_base b = 0x28 \<and> cascade a = 4 \<and> cascade b = 2"
    using same_setup_fields [OF su] by (simp add: ab remap_pics split_beta)
  moreover have "\<forall>j < 16. irq_enabled (pics ps (trace k4)) j \<longleftrightarrow> j = 0 \<or> j = 1"
    using masks k3(5) k4(3) by auto
  moreover have "kernel_gate (idt s' v) (isr_stub_table la v)" if "v < 32" for v
  proof -
    have v: "unat v < 32" "v \<noteq> 0x20" "v \<noteq> 0x21" using that by (auto simp: word_less_nat_alt)
    then show ?thesis
      using exceptions_upto [of 32 v la "s\<lparr>idtr_base := addr_idt la, idtr_limit := 4095\<rparr>"]
      by (simp add: s'_def idt_init_exceptions_upto kernel_gate_def)
  qed
  moreover have "idt s' v = idt s v" if "v > 0x21" for v
  proof -
    have v: "32 \<le> unat v" "v \<noteq> 0x20" "v \<noteq> 0x21" using that by (auto simp: word_less_nat_alt)
    then show ?thesis
      using exceptions_upto [of 32 v la "s\<lparr>idtr_base := addr_idt la, idtr_limit := 4095\<rparr>"]
      by (simp add: s'_def idt_init_exceptions_upto idt_set_desc_idt)
  qed
  moreover have "kernel_gate (idt s' 0x20) (addr_pit_handler la)" "kernel_gate (idt s' 0x21) (addr_keyboard_handler la)"
    "loaded_idt s' = Some (4095, addr_idt la)" "int_flag s'"
    by (simp_all add: s'_def kernel_gate_def)
  ultimately show ?thesis by blast
qed

section \<open>Properties\<close>

text \<open>A descriptor encodes its handler: \<^verbatim>\<open>idt_set_desc\<close> splits the address over three fields from
  which the processor puts together exactly that address, with the flags and the code segment
  asked for, and leaves all other vectors alone.\<close>

theorem idt_set_desc_roundtrip:
  "gate_target (idt (idt_set_desc v isr fl s) v) = isr \<and> attributes (idt (idt_set_desc v isr fl s) v) = fl \<and>
   kernel_cs (idt (idt_set_desc v isr fl s) v) = 0x08 \<and>
   (\<forall>w. w \<noteq> v \<longrightarrow> idt (idt_set_desc v isr fl s) w = idt s w)"
  by (simp add: idt_set_desc_idt) (simp add: gate_target_def gate_parts)

theorem idt_set_desc_roundtrip_witness:
  "\<forall>s0. idt (idt_set_desc 7 0x1234 0x8E s0) 8 = idt s0 8 \<and>
    gate_target (idt (idt_set_desc 7 0x1234 0x8E s0) 7) = 0x1234"
  using idt_set_desc_roundtrip [of 7 "0x1234" "0x8E"] by simp

text \<open>C12: After \<^verbatim>\<open>idt_init\<close> the interrupts arrive where they should: the controllers are initialised
  with IRQ 0 to 15 on the vectors from \<^verbatim>\<open>0x20\<close> on, apart from the 32 exceptions; of these lines
  only the timer and the keyboard are enabled, and the gates of their vectors lead to their
  handlers, as the first 32 gates lead to the exception stubs; the loaded table covers all 256
  gates, and interrupts are on. (Reading a data port is assumed to return the mask, as the
  controllers do.)\<close>

theorem idt_init_routes:
  assumes "reads_mask ps k"
  shows "\<exists>s' k'. idt_init la s k = Some (s', k') \<and>
    (let (a, b) = pics ps (trace k')
     in icw a = 0 \<and> icw b = 0 \<and> vector_base a = 0x20 \<and> vector_base b = 0x28 \<and> cascade a = 4 \<and> cascade b = 2) \<and>
    (\<forall>j < 16. irq_enabled (pics ps (trace k')) j \<longleftrightarrow> j = 0 \<or> j = 1) \<and>
    kernel_gate (idt s' 0x20) (addr_pit_handler la) \<and> kernel_gate (idt s' 0x21) (addr_keyboard_handler la) \<and>
    (\<forall>v < 32. kernel_gate (idt s' v) (isr_stub_table la v)) \<and>
    (\<forall>v > 0x21. idt s' v = idt s v) \<and> loaded_idt s' = Some (4095, addr_idt la) \<and> int_flag s'"
  using assms by (rule idt_init_ok)

text \<open>A machine whose ports answer for controllers that start from \<open>pic_reset\<close>.\<close>

definition pic_machine :: machine where
  "pic_machine = boot_machine\<lparr>dev := (\<lambda>t p. ucast (imr (
     if p = 0x21 then fst (pics (pic_reset, pic_reset) t) else snd (pics (pic_reset, pic_reset) t))))\<rparr>"

lemma pic_machine_reads: "reads_mask (pic_reset, pic_reset) pic_machine"
proof -
  have "(ucast (ucast (x :: u8) :: u32) :: u8) = x" for x
    by (rule bit_eqI) (auto simp: bit_simps)
  then show ?thesis by (simp add: reads_mask_def pic_machine_def)
qed

definition link_demo :: link_addresses where
  "link_demo = \<lparr>addr_idt = 0x1000, isr_stub_table = (\<lambda>v. 0x2000 + ucast v), addr_pit_handler = 0x3000,
     addr_keyboard_handler = 0x4000\<rparr>"

theorem idt_init_routes_witness:
  "\<forall>s0. \<exists>s' k'. idt_init link_demo s0 pic_machine = Some (s', k') \<and>
    irq_enabled (pics (pic_reset, pic_reset) (trace k')) 1 \<and>
    \<not> irq_enabled (pics (pic_reset, pic_reset) (trace k')) 2 \<and>
    kernel_gate (idt s' 0x21) 0x4000"
proof
  fix s0
  from idt_init_routes [OF pic_machine_reads, of link_demo s0]
  obtain s' k' where r: "idt_init link_demo s0 pic_machine = Some (s', k')"
    and e: "\<forall>j < 16. irq_enabled (pics (pic_reset, pic_reset) (trace k')) j \<longleftrightarrow> j = 0 \<or> j = 1"
    and g: "kernel_gate (idt s' 0x21) (addr_keyboard_handler link_demo)" by blast
  have "addr_keyboard_handler link_demo = 0x4000" by (simp add: link_demo_def)
  with r e g show "\<exists>s' k'. idt_init link_demo s0 pic_machine = Some (s', k') \<and>
    irq_enabled (pics (pic_reset, pic_reset) (trace k')) 1 \<and>
    \<not> irq_enabled (pics (pic_reset, pic_reset) (trace k')) 2 \<and> kernel_gate (idt s' 0x21) 0x4000" by auto
qed



text \<open>The keyboard handler reports the end of its interrupt twice.\<close>

lemma keyboard_handler_eois:
  "pics ps (trace (snd (idt_keyboard_handler s k))) =
    (case pics ps (trace k) of (a, b) \<Rightarrow> (a\<lparr>eois := eois a + 2\<rparr>, b))"
  by (cases "pics ps (trace k)") (simp add: idt_keyboard_handler_def split_beta eoi_pics pic_command_def word_le_nat_alt)

end
