(* ===== verification/PIT.thy ===== *)
theory PIT
  imports PIC Scheduler
begin

text \<open>
  Model of the timer driver, \<^verbatim>\<open>src/ASNU/src/Drivers/PIT/driver.c\<close>. The handler runs
  \<^verbatim>\<open>scheduler_tick\<close>, which may leave it for another process and never return. While a waiting loop
  polls, the timer interrupts: the script \<open>ticks\<close> says how often before each poll, and after it
  the timer is silent, so that waiting for ever is \<open>None\<close>.
\<close>

definition PIT_FREQ :: u32 where "PIT_FREQ = 1193182"
definition PIT_CMD_PORT :: u16 where "PIT_CMD_PORT = 0x43"
definition PIT_CHANNEL0_PORT :: u16 where "PIT_CHANNEL0_PORT = 0x40"

record pit =
  PitTicks :: u64
  PitTickFreq :: u64

text \<open>The result is \<open>None\<close> where the code divides by zero, and where a log call is undefined.\<close>

definition pit_init :: "u32 \<Rightarrow> pit \<Rightarrow> machine \<Rightarrow> (pit \<times> machine) option" where
  "pit_init Freq s k =
     (if Freq = 0 then None
      else
        let divisor = PIT_FREQ div Freq;
            k1 = outb PIT_CMD_PORT 0x36 k;
            k2 = outb PIT_CHANNEL0_PORT (ucast (divisor AND 0xFF)) k1;
            k3 = outb PIT_CHANNEL0_PORT (ucast (drop_bit 8 divisor AND 0xFF)) k2
        in Some (s\<lparr>PitTickFreq := ucast Freq\<rparr>, k3))"

definition pit_get_ticks :: "pit \<Rightarrow> u64" where
  "pit_get_ticks s = PitTicks s"

definition pit_tick :: "pit \<Rightarrow> pit" where
  "pit_tick s = s\<lparr>PitTicks := PitTicks s + 1\<rparr>"

definition pit_handler ::
  "RegisterState \<Rightarrow> sched \<Rightarrow> mem \<Rightarrow> pit \<Rightarrow> machine
    \<Rightarrow> (control \<times> sched \<times> mem \<times> pit \<times> machine) option" where
  "pit_handler cpu s m p k =
     (let p1 = pit_tick p
      in case scheduler_tick cpu s m k of
           None \<Rightarrow> None
         | Some (Jumped cpu', s1, m1, k1) \<Rightarrow> Some (Jumped cpu', s1, m1, p1, k1)
         | Some (Returned, s1, m1, k1) \<Rightarrow> Some (Returned, s1, m1, p1, idt_pic_send_eoi 0 k1))"

text \<open>\<^verbatim>\<open>while ((pit_get_ticks() - start) < Ticks);\<close> and the value read after it.\<close>

fun wait_loop :: "nat list \<Rightarrow> u64 \<Rightarrow> u64 \<Rightarrow> pit \<Rightarrow> (pit \<times> nat list) option" where
  "wait_loop [] start n s = (if pit_get_ticks s - start < n then None else Some (s, []))"
| "wait_loop (t # ticks) start n s =
     (let s1 = (pit_tick ^^ t) s
      in if pit_get_ticks s1 - start < n then wait_loop ticks start n s1 else Some (s1, ticks))"

definition pit_wait_ticks :: "nat list \<Rightarrow> u64 \<Rightarrow> pit \<Rightarrow> (u64 \<times> pit \<times> nat list) option" where
  "pit_wait_ticks ticks n s =
     (let start = pit_get_ticks s
      in case wait_loop ticks start n s of None \<Rightarrow> None
         | Some (s1, ticks1) \<Rightarrow> Some (pit_get_ticks s1, s1, ticks1))"

definition pit_wait_ms :: "nat list \<Rightarrow> u64 \<Rightarrow> pit \<Rightarrow> (pit \<times> nat list) option" where
  "pit_wait_ms ticks Ms s =
     (let n = (Ms * PitTickFreq s) div 1000
      in case pit_wait_ticks ticks n s of None \<Rightarrow> None | Some (v, s1, ticks1) \<Rightarrow> Some (s1, ticks1))"

end
