(* ===== verification/PIT_Spec.thy ===== *)
theory PIT_Spec
  imports PIT Scheduler_Spec
begin

text \<open>
  Correctness of the timer: the rate it is programmed to, waiting across the wrap-around of the
  tick counter, and what a tick does to the scheduler and to the interrupt controller.
\<close>

section \<open>The programmed rate\<close>

text \<open>
  What the 8254 counts from: in mode 3 with both bytes, the bytes written to the channel's port
  after the command, low byte first (the trace is newest first).
\<close>

definition pit_reload :: "io list \<Rightarrow> u16 option" where
  "pit_reload t = (case t of
     Out8 p2 hi # Out8 p1 lo # Out8 p0 c # _ \<Rightarrow>
       if p0 = 0x43 \<and> c = 0x36 \<and> p1 = 0x40 \<and> p2 = 0x40 then Some (push_bit 8 (ucast hi) OR ucast lo) else None
   | _ \<Rightarrow> None)"

lemma low_bytes:
  "(push_bit 8 (ucast (ucast (drop_bit 8 d AND 0xFF :: u32) :: u8)) OR ucast (ucast (d AND 0xFF) :: u8) :: u16) = ucast d"
proof -
  have m: "(0xFF :: u32) = mask 8" by (simp add: mask_eq_exp_minus_1)
  show ?thesis
    unfolding m
  proof (rule bit_eqI)
    fix n :: nat
    consider "n < 8" | "8 \<le> n" by linarith
    then show "bit (push_bit 8 (ucast (ucast (drop_bit 8 d AND mask 8 :: u32) :: u8)) OR
        ucast (ucast (d AND mask 8) :: u8) :: u16) n = bit (ucast d :: u16) n"
      by cases (auto simp: bit_simps)
  qed
qed

lemma pit_init_reload:
  "Freq \<noteq> 0 \<Longrightarrow> \<exists>s' k'. pit_init Freq s k = Some (s', k') \<and>
    pit_reload (trace k') = Some (ucast (PIT_FREQ div Freq)) \<and> PitTickFreq s' = ucast Freq \<and> PitTicks s' = PitTicks s"
  by (simp add: pit_init_def pit_reload_def Let_def PIT_CMD_PORT_def PIT_CHANNEL0_PORT_def low_bytes)

section \<open>Waiting\<close>

lemma pit_ticks_power: "PitTicks ((pit_tick ^^ t) s) = PitTicks s + of_nat t"
  by (induction t) (simp_all add: pit_tick_def)

lemma wait_loop_spec:
  assumes "PitTicks s = start + of_nat d" and "d + sum_list ticks < 2 ^ 64"
  shows "case wait_loop ticks start n s of
      None \<Rightarrow> d + sum_list ticks < unat n
    | Some (s1, rest) \<Rightarrow> \<exists>j. rest = drop j ticks \<and> j \<le> length ticks \<and> (ticks \<noteq> [] \<longrightarrow> 0 < j) \<and>
        unat n \<le> d + sum_list (take j ticks) \<and> (\<forall>i. 0 < i \<and> i < j \<longrightarrow> d + sum_list (take i ticks) < unat n) \<and>
        PitTicks s1 = start + of_nat (d + sum_list (take j ticks))"
  using assms
proof (induction ticks start n s arbitrary: d rule: wait_loop.induct)
  case (1 start n s)
  then show ?case by (auto simp: pit_get_ticks_def word_less_nat_alt unat_of_nat_u64)
next
  case (2 t ticks start n s)
  let ?s = "(pit_tick ^^ t) s"
  have p: "PitTicks ?s = start + of_nat (d + t)" using "2.prems"(1) by (simp add: pit_ticks_power)
  have lt: "pit_get_ticks ?s - start < n \<longleftrightarrow> d + t < unat n"
    using "2.prems"(2) by (simp add: pit_get_ticks_def p word_less_nat_alt unat_of_nat_u64 del: of_nat_add)
  show ?case
  proof (cases "d + t < unat n")
    case True
    note IH = "2.IH" [OF refl _ p, unfolded lt]
    have r: "wait_loop (t # ticks) start n s = wait_loop ticks start n ?s" using True lt by simp
    show ?thesis
    proof (cases "wait_loop ticks start n ?s")
      case None
      with IH True "2.prems"(2) r show ?thesis by (simp add: add.assoc)
    next
      case (Some q)
      then obtain s1 rest where w: "wait_loop ticks start n ?s = Some (s1, rest)" by (cases q) simp
      with IH True "2.prems"(2) obtain j where j: "rest = drop j ticks" "j \<le> length ticks"
        "unat n \<le> d + t + sum_list (take j ticks)"
        "\<forall>i. 0 < i \<and> i < j \<longrightarrow> d + t + sum_list (take i ticks) < unat n"
        "PitTicks s1 = start + of_nat (d + t + sum_list (take j ticks))"
        by (auto simp: add.assoc)
      have "d + sum_list (take i (t # ticks)) < unat n" if "0 < i" "i < Suc j" for i
        using that j(4) True by (cases i; cases "i = 1") (auto simp: add.assoc)
      with r w j show ?thesis by (auto intro!: exI [of _ "Suc j"] simp: add.assoc)
    qed
  next
    case False
    then have "wait_loop (t # ticks) start n s = Some (?s, ticks)" using lt by simp
    with False p show ?thesis by (auto intro!: exI [of _ 1])
  qed
qed

section \<open>The tick\<close>

lemma tick_formats [log_formats]:
  "fits ''Scheduler ticked'' []" "fits ''Scheduler tick frequency rule met'' []"
  "fits (''Scheduler tick: %llu, current PID: %u'' @ [CHR 0x0A]) [VInt v, VInt w]"
  by (simp_all add: fits_simps)

lemma serial_pics:
  assumes "i2s_ok k" and "fits fmt va"
  shows "\<exists>k'. serial_fwrite fmt va k = Some k' \<and> i2s_ok k' \<and> pics ps (trace k') = pics ps (trace k)"
proof -
  obtain t where "serial_text fmt va = Some t" using assms(2) by (auto simp: fits_def)
  from serial_fwrite_Some [OF assms(1) this] obtain k' where k': "serial_fwrite fmt va k = Some k'" "i2s_ok k'"
    and w: "wrote (log_line k t) (k\<lparr>log_id := log_id k + 1\<rparr>) k'" by blast
  have "pics ps (map (\<lambda>c. Out8 COM1 (of_char c)) cs @ tr) = pics ps tr" for cs tr
    by (induction cs) (cases "pics ps tr"; simp add: COM1_def)+
  then have "pics ps (rev (map (\<lambda>c. Out8 COM1 (of_char c)) cs) @ tr) = pics ps tr" for cs tr
    by (metis rev_map)
  with w have "pics ps (trace k') = pics ps (trace k)" by (simp add: wrote_def send_def)
  with k' show ?thesis by blast
qed

lemma log_bind_pics:
  assumes "i2s_ok k" and "fits fmt va"
    and "\<And>k'. i2s_ok k' \<Longrightarrow> pics ps (trace k') = pics ps (trace k) \<Longrightarrow> \<exists>r. f k' = Some r \<and> Q r"
  shows "\<exists>r. serial_fwrite fmt va k \<bind> f = Some r \<and> Q r"
  using serial_pics [OF assms(1,2), of ps] assms(3) by auto

definition tick_due :: "sched \<Rightarrow> bool" where
  "tick_due s \<longleftrightarrow> (sched_ticks s + 1) mod ucast (SchedTickFreq s) = 0"

lemma sched_ok_ticks: "sched_ok (s\<lparr>sched_ticks := n\<rparr>) = sched_ok s"
  by (simp add: sched_ok_def proc_count_def)

lemma scheduler_tick_outcome:
  assumes "sched_ok s" and "SchedTickFreq s \<noteq> 0" and "i2s_ok k"
  shows "\<exists>r. scheduler_tick cpu s m k = Some r \<and>
    (fst r = Returned \<longleftrightarrow> \<not> (tick_due s \<and> 2 \<le> proc_count s)) \<and> i2s_ok (snd (snd (snd r))) \<and>
    sched_ok (fst (snd r)) \<and> sched_ticks (fst (snd r)) = sched_ticks s + 1 \<and>
    pics ps (trace (snd (snd (snd r)))) = pics ps (trace k)"
proof -
  let ?s1 = "s\<lparr>sched_ticks := sched_ticks s + 1\<rparr>"
  have ok: "sched_ok ?s1" using assms(1) by (simp only: sched_ok_ticks)
  have n: "proc_count ?s1 = proc_count s" by (simp add: proc_count_def)
  show ?thesis
  proof (cases "tick_due s")
    case False
    show ?thesis
      unfolding scheduler_tick_def Let_def
      by (rule log_bind_pics [where ps = ps, OF assms(3) tick_formats(1)])
        (use False assms ok in \<open>simp add: tick_due_def\<close>)
  next
    case due: True
    from ok show ?thesis
    proof (cases rule: context_switch_cases [where cpu = cpu and m = m])
      case stay
      have "(sched_ticks s + 1) mod ucast (SchedTickFreq s) = 0" using due by (simp add: tick_due_def)
      moreover define w :: u64 where
        "w = (if current_proc s \<noteq> 0 then ucast (pid (procs s (current_proc s))) else 0)"
      ultimately have e: "scheduler_tick cpu s m k = serial_fwrite ''Scheduler ticked'' [] k \<bind>
          (\<lambda>k1. serial_fwrite ''Scheduler tick frequency rule met'' [] k1 \<bind>
          (\<lambda>k2. serial_fwrite (''Scheduler tick: %llu, current PID: %u'' @ [CHR 0x0A])
            [VInt (sched_ticks s + 1), VInt w] k2 \<bind> (\<lambda>k3. Some (Returned, ?s1, m, k3))))"
        using assms(2) stay(1) by (simp add: scheduler_tick_def Let_def)
      show ?thesis
        unfolding e by (intro log_bind_pics [where ps = ps] assms(3) tick_formats) (use ok stay(2) n in simp_all)
    next
      case (jump i q m')
      have due': "(sched_ticks s + 1) mod ucast (SchedTickFreq s) = 0" using due by (simp add: tick_due_def)
      have "sched_ok (after_switch cpu ?s1 q)" by (rule after_switch_ok [OF ok jump(4,5)])
      moreover have "sched_ticks (after_switch cpu ?s1 q) = sched_ticks s + 1"
        by (simp add: after_switch_def Let_def)
      moreover have e: "scheduler_tick cpu s m k = serial_fwrite ''Scheduler ticked'' [] k \<bind>
          (\<lambda>k1. serial_fwrite ''Scheduler tick frequency rule met'' [] k1 \<bind>
          (\<lambda>k2. Some (Jumped (load_regs (Regs (state (procs ?s1 q))) cpu), after_switch cpu ?s1 q, m', k2)))"
        using due' assms(2) jump(6) by (simp add: scheduler_tick_def)
      ultimately show ?thesis
        unfolding e by (intro log_bind_pics [where ps = ps] assms(3) tick_formats) (use due jump(2) n in simp_all)
    qed
  qed
qed

section \<open>Properties\<close>

text \<open>For every frequency from 19 Hz on, \<^verbatim>\<open>pit_init\<close> programs the timer to count from exactly
  \<^verbatim>\<open>PIT_FREQ / Freq\<close>; below that the divisor does not fit the 16-bit counter and loses its high
  bits, as for 18 Hz, where the timer runs 88 times too fast.\<close>

theorem pit_init_rate:
  assumes "Freq \<noteq> 0"
  shows "\<exists>s' k'. pit_init Freq s k = Some (s', k') \<and> PitTickFreq s' = ucast Freq \<and>
    (\<exists>r. pit_reload (trace k') = Some r \<and> unat r = unat (PIT_FREQ div Freq) mod 2 ^ 16 \<and>
      (19 \<le> Freq \<longrightarrow> unat r = 1193182 div unat Freq))"
proof -
  obtain s' k' where r: "pit_init Freq s k = Some (s', k')" "pit_reload (trace k') = Some (ucast (PIT_FREQ div Freq))"
    "PitTickFreq s' = ucast Freq" using pit_init_reload [OF assms, of s k] by blast
  have u: "unat (ucast (PIT_FREQ div Freq) :: u16) = unat (PIT_FREQ div Freq) mod 2 ^ 16"
    by (simp add: unsigned_ucast_eq take_bit_eq_mod)
  have d: "unat (PIT_FREQ div Freq) = 1193182 div unat Freq" by (simp add: unat_div PIT_FREQ_def)
  have "1193182 div unat Freq < 2 ^ 16" if "19 \<le> Freq"
  proof -
    have "19 \<le> unat Freq" using that by (simp add: word_le_nat_alt)
    then have "1193182 div unat Freq \<le> 1193182 div 19" by (rule div_le_mono2 [rotated]) simp
    then show ?thesis by simp
  qed
  with r u d show ?thesis by auto
qed

theorem pit_init_rate_witness:
  "\<exists>s' k' r. pit_init 100 \<lparr>PitTicks = 0, PitTickFreq = 0\<rparr> boot_machine = Some (s', k') \<and>
     pit_reload (trace k') = Some r \<and> unat r = 11931"
  using pit_init_rate [of 100 "\<lparr>PitTicks = 0, PitTickFreq = 0\<rparr>" boot_machine] by auto

text \<open>C34: \<^verbatim>\<open>pit_wait_ticks\<close> is right across the wrap-around of the 64-bit tick counter: it returns,
  after the first poll at which the requested number of ticks has passed since the call and not
  before, the counter's value then; it fails to return only when too few ticks ever come.\<close>

theorem pit_wait_ticks_returns:
  assumes "sum_list ticks < 2 ^ 64"
  shows "case pit_wait_ticks ticks n s of
      None \<Rightarrow> sum_list ticks < unat n
    | Some (v, s1, rest) \<Rightarrow> \<exists>j. rest = drop j ticks \<and> unat n \<le> sum_list (take j ticks) \<and>
        (\<forall>i. 0 < i \<and> i < j \<longrightarrow> sum_list (take i ticks) < unat n) \<and>
        v = PitTicks s + of_nat (sum_list (take j ticks)) \<and> PitTicks s1 = v"
  using wait_loop_spec [of s "PitTicks s" 0 ticks n] assms
  by (auto simp: pit_wait_ticks_def pit_get_ticks_def split: option.splits)

theorem pit_wait_ticks_returns_witness:
  "\<exists>s1. pit_wait_ticks [1, 1, 2, 1] 3 \<lparr>PitTicks = - 2, PitTickFreq = 100\<rparr> = Some (2, s1, [1])"
proof -
  let ?s = "\<lparr>PitTicks = - 2, PitTickFreq = 100\<rparr>"
  have "case pit_wait_ticks [1, 1, 2, 1] 3 ?s of
      None \<Rightarrow> sum_list [1, 1, 2, 1] < unat (3 :: u64)
    | Some (v, s1, rest) \<Rightarrow> \<exists>j. rest = drop j [1, 1, 2, 1] \<and> unat (3 :: u64) \<le> sum_list (take j [1, 1, 2, 1]) \<and>
        (\<forall>i. 0 < i \<and> i < j \<longrightarrow> sum_list (take i [1, 1, 2, 1]) < unat (3 :: u64)) \<and>
        v = PitTicks ?s + of_nat (sum_list (take j [1, 1, 2, 1])) \<and> PitTicks s1 = v"
    by (rule pit_wait_ticks_returns) simp
  then obtain v s1 j where w: "pit_wait_ticks [1, 1, 2, 1] 3 ?s = Some (v, s1, drop j [1, 1, 2, 1])"
    "3 \<le> sum_list (take j [1, 1, 2, 1 :: nat])" "\<forall>i. 0 < i \<and> i < j \<longrightarrow> sum_list (take i [1, 1, 2, 1 :: nat]) < 3"
    "v = - 2 + of_nat (sum_list (take j [1, 1, 2, 1 :: nat]))"
    by (auto split: option.splits)
  have "\<not> 3 < j" using w(3) by (auto dest: spec [of _ 3])
  moreover have "j \<noteq> 0" using w(2) by (cases j) simp_all
  moreover have "j \<noteq> 1" "j \<noteq> 2" using w(2) by auto
  ultimately have "j = 3" by linarith
  with w(1,4) show ?thesis by simp
qed

text \<open>A timer interrupt counts one tick; when the scheduler's period is over and there are two
  processes, it leaves for the other one and the end of the interrupt is never reported to the
  controller, which therefore delivers no further interrupt of its priority or below; otherwise
  it returns to the interrupted code after reporting it exactly once.\<close>

theorem pit_handler_eoi:
  assumes "sched_ok s" and "SchedTickFreq s \<noteq> 0" and "i2s_ok k"
  shows "\<exists>c s' m' p' k'. pit_handler cpu s m p k = Some (c, s', m', p', k') \<and>
    PitTicks p' = PitTicks p + 1 \<and> sched_ticks s' = sched_ticks s + 1 \<and> sched_ok s' \<and>
    (if (sched_ticks s + 1) mod ucast (SchedTickFreq s) = 0 \<and> 2 \<le> proc_count s
     then c \<noteq> Returned \<and> pics ps (trace k') = pics ps (trace k)
     else c = Returned \<and> eois (fst (pics ps (trace k'))) = eois (fst (pics ps (trace k))) + 1 \<and>
          snd (pics ps (trace k')) = snd (pics ps (trace k)))"
proof -
  obtain c s' m' k' where r: "scheduler_tick cpu s m k = Some (c, s', m', k')"
    "c = Returned \<longleftrightarrow> \<not> (tick_due s \<and> 2 \<le> proc_count s)" "sched_ok s'" "sched_ticks s' = sched_ticks s + 1"
    "pics ps (trace k') = pics ps (trace k)"
    using scheduler_tick_outcome [OF assms, of cpu m ps] by auto
  show ?thesis
  proof (cases c)
    case Returned
    then have "pit_handler cpu s m p k = Some (Returned, s', m', pit_tick p, idt_pic_send_eoi 0 k')"
      by (simp add: pit_handler_def r(1) Let_def)
    moreover have "eois (fst (pics ps (trace (idt_pic_send_eoi 0 k')))) = eois (fst (pics ps (trace k))) + 1"
      "snd (pics ps (trace (idt_pic_send_eoi 0 k'))) = snd (pics ps (trace k))"
      by (simp_all add: eoi_pics r(5) split_beta)
    ultimately show ?thesis using r(2-4) Returned by (auto simp: tick_due_def pit_tick_def)
  next
    case (Jumped cpu')
    then have "pit_handler cpu s m p k = Some (Jumped cpu', s', m', pit_tick p, k')"
      by (simp add: pit_handler_def r(1) Let_def)
    then show ?thesis using r(2-5) Jumped by (auto simp: tick_due_def pit_tick_def)
  qed
qed

theorem pit_handler_eoi_witness:
  "\<exists>c s' m' p' k'. pit_handler zero_regs (sched_demo\<lparr>sched_ticks := 9\<rparr>) (\<lambda>_. 0)
      \<lparr>PitTicks = 9, PitTickFreq = 100\<rparr> boot_machine = Some (c, s', m', p', k') \<and> c \<noteq> Returned \<and>
    eois (fst (pics (pic_reset, pic_reset) (trace k'))) = 0"
proof -
  let ?s = "sched_demo\<lparr>sched_ticks := 9\<rparr>" and ?ps = "(pic_reset, pic_reset)"
  have ok: "sched_ok ?s" using sched_demo_ok(1) by (simp only: sched_ok_ticks)
  have f: "SchedTickFreq ?s \<noteq> 0" by (simp add: sched_demo_def)
  have k: "i2s_ok boot_machine" by (simp add: i2s_ok_def boot_machine_def)
  have due: "(sched_ticks ?s + 1) mod ucast (SchedTickFreq ?s) = 0 \<and> 2 \<le> proc_count ?s"
    by (simp add: sched_demo_def proc_count_def)
  have e: "eois (fst (pics ?ps (trace boot_machine))) = 0"
    by (simp add: boot_machine_def pics_def pic_reset_def)
  from pit_handler_eoi [OF ok f k, of zero_regs "\<lambda>_. 0" "\<lparr>PitTicks = 9, PitTickFreq = 100\<rparr>" ?ps]
  show ?thesis unfolding if_P [OF due] using e by metis
qed

end
