(* ===== verification/PCI.thy ===== *)
theory PCI
  imports Serial "HOL-Library.State_Monad"
begin

text \<open>
  Model of the PCI driver, \<^verbatim>\<open>src/ASNU/src/PCI/pci.c\<close>. Accesses to the configuration space
  are port accesses, sequenced by the state monad over the machine. Where a loop may not end or
  the code reads outside an array, the result is an option.
\<close>

section \<open>Configuration space\<close>

definition in32 :: "u16 \<Rightarrow> (machine, u32) state" where
  "in32 port = State (inl port)"

definition out32 :: "u16 \<Rightarrow> u32 \<Rightarrow> (machine, unit) state" where
  "out32 port v = State (\<lambda>k. ((), outl port v k))"

definition config_address :: "u8 \<Rightarrow> u8 \<Rightarrow> u8 \<Rightarrow> u8 \<Rightarrow> u32" where
  "config_address bus slot func offset =
     push_bit 16 (ucast bus) OR push_bit 11 (ucast slot) OR push_bit 8 (ucast func) OR
     (ucast offset AND 0xFC) OR 0x80000000"

definition PciConfigReadByte :: "u8 \<Rightarrow> u8 \<Rightarrow> u8 \<Rightarrow> u8 \<Rightarrow> (machine, u8) state" where
  "PciConfigReadByte bus slot func offset =
     do {
       out32 0xCF8 (config_address bus slot func offset);
       tmp \<leftarrow> in32 0xCFC;
       State_Monad.return (ucast (drop_bit (unat (offset AND 3) * 8) tmp AND 0xFF))
     }"

definition PciConfigReadWord :: "u8 \<Rightarrow> u8 \<Rightarrow> u8 \<Rightarrow> u8 \<Rightarrow> (machine, u16) state" where
  "PciConfigReadWord bus slot func offset =
     do {
       out32 0xCF8 (config_address bus slot func offset);
       tmp \<leftarrow> in32 0xCFC;
       State_Monad.return (ucast (drop_bit (unat (offset AND 2) * 8) tmp AND 0xFFFF))
     }"

definition PciConfigReadDword :: "u8 \<Rightarrow> u8 \<Rightarrow> u8 \<Rightarrow> u8 \<Rightarrow> (machine, u32) state" where
  "PciConfigReadDword bus slot func offset =
     do {
       out32 0xCF8 (config_address bus slot func offset);
       in32 0xCFC
     }"

definition PciConfigWriteDword :: "u8 \<Rightarrow> u8 \<Rightarrow> u8 \<Rightarrow> u8 \<Rightarrow> u32 \<Rightarrow> (machine, unit) state" where
  "PciConfigWriteDword bus slot func offset value =
     do {
       out32 0xCF8 (config_address bus slot func offset);
       out32 0xCFC value
     }"

definition PciCheckVendor :: "u8 \<Rightarrow> u8 \<Rightarrow> (machine, u16) state" where
  "PciCheckVendor bus slot = PciConfigReadWord bus slot 0 0"

section \<open>Devices\<close>

text \<open>
  The enumerations are stored as numbers. Short field names carry a prefix; the comment of the
  source names the field.
\<close>

record PciDevice_t =
  pci_bus :: u8
  pci_slot :: u8
  pci_function :: u8
  vendor_id :: u16
  device_id :: u16
  pci_command :: u16
  pci_status :: u16
  revision_id :: u8
  prog_if :: u8
  sub_class :: u8
  class_code :: u8
  class_type :: u32
  cache_line_size :: u8
  latency_timer :: u8
  header_type_raw :: u8
  header_type :: u32
  bist :: u8
  pci_bar :: "u32 list"
  MMIOBase :: u64
  MMIOSize :: u32
  MMIOBarIndex :: u8
  Is64BitPciDevice :: bool
  cardbus_cis_pointer :: u32
  subsystem_vendor_id :: u16
  subsystem_id :: u16
  expansion_rom_base_addr :: u32
  capabilities_pointer :: u8
  interrupt_line :: u8
  interrupt_pin :: u8
  min_grant :: u8
  max_latency :: u8

text \<open>\<^verbatim>\<open>PciDevice_t dev = {0}\<close>.\<close>

definition zero_device :: PciDevice_t where
  "zero_device = \<lparr>pci_bus = 0, pci_slot = 0, pci_function = 0, vendor_id = 0, device_id = 0, pci_command = 0,
     pci_status = 0, revision_id = 0, prog_if = 0, sub_class = 0, class_code = 0, class_type = 0,
     cache_line_size = 0, latency_timer = 0, header_type_raw = 0, header_type = 0, bist = 0,
     pci_bar = replicate 6 0, MMIOBase = 0, MMIOSize = 0, MMIOBarIndex = 0, Is64BitPciDevice = False,
     cardbus_cis_pointer = 0, subsystem_vendor_id = 0, subsystem_id = 0, expansion_rom_base_addr = 0,
     capabilities_pointer = 0, interrupt_line = 0, interrupt_pin = 0, min_grant = 0, max_latency = 0\<rparr>"

definition PCI_DEVICE_NONE :: PciDevice_t where
  "PCI_DEVICE_NONE = zero_device\<lparr>vendor_id := 0xFFFF\<rparr>"

definition PciReadFullDevice :: "u8 \<Rightarrow> u8 \<Rightarrow> u8 \<Rightarrow> (machine, PciDevice_t) state" where
  "PciReadFullDevice bus slot func =
     do {
       vid \<leftarrow> PciConfigReadWord bus slot func 0x00;
       did \<leftarrow> PciConfigReadWord bus slot func 0x02;
       cmd \<leftarrow> PciConfigReadWord bus slot func 0x04;
       sts \<leftarrow> PciConfigReadWord bus slot func 0x06;
       rev \<leftarrow> PciConfigReadByte bus slot func 0x08;
       pif \<leftarrow> PciConfigReadByte bus slot func 0x09;
       sub \<leftarrow> PciConfigReadByte bus slot func 0x0A;
       cls \<leftarrow> PciConfigReadByte bus slot func 0x0B;
       cls' \<leftarrow> PciConfigReadByte bus slot func 0x0C;
       lat \<leftarrow> PciConfigReadByte bus slot func 0x0D;
       hdr \<leftarrow> PciConfigReadByte bus slot func 0x0E;
       bst \<leftarrow> PciConfigReadByte bus slot func 0x0F;
       bars \<leftarrow> traverse_list (\<lambda>i. PciConfigReadDword bus slot func (of_nat (0x10 + i * 4))) [0..<6];
       cis \<leftarrow> PciConfigReadDword bus slot func 0x28;
       svi \<leftarrow> PciConfigReadWord bus slot func 0x2C;
       sid \<leftarrow> PciConfigReadWord bus slot func 0x2E;
       rom \<leftarrow> PciConfigReadDword bus slot func 0x30;
       cap' \<leftarrow> PciConfigReadByte bus slot func 0x34;
       irl \<leftarrow> PciConfigReadByte bus slot func 0x3C;
       irp \<leftarrow> PciConfigReadByte bus slot func 0x3D;
       mgr \<leftarrow> PciConfigReadByte bus slot func 0x3E;
       mlt \<leftarrow> PciConfigReadByte bus slot func 0x3F;
       State_Monad.return (zero_device\<lparr>pci_bus := bus, pci_slot := slot, pci_function := func, vendor_id := vid,
         device_id := did, pci_command := cmd, pci_status := sts, revision_id := rev, prog_if := pif,
         sub_class := sub, class_code := cls, class_type := ucast cls, cache_line_size := cls',
         latency_timer := lat, header_type_raw := hdr, header_type := ucast (hdr AND 0x7F), bist := bst,
         pci_bar := bars, cardbus_cis_pointer := cis, subsystem_vendor_id := svi, subsystem_id := sid,
         expansion_rom_base_addr := rom, capabilities_pointer := cap', interrupt_line := irl,
         interrupt_pin := irp, min_grant := mgr, max_latency := mlt\<rparr>)
     }"

section \<open>Searching\<close>

text \<open>
  The loops of \<^verbatim>\<open>PciFindDeviceByID\<close> and \<^verbatim>\<open>PciFindDeviceByClass\<close>, which differ in the probe
  of a present function. The bus is a \<^verbatim>\<open>uint8_t\<close> that is always below 256: the outer loop wraps
  around and only ends when a device is found.
\<close>

fun scan_funcs ::
  "(u8 \<Rightarrow> u8 \<Rightarrow> u8 \<Rightarrow> u16 \<Rightarrow> (machine, bool) state) \<Rightarrow> u8 \<Rightarrow> u8 \<Rightarrow> u8 list
    \<Rightarrow> (machine, PciDevice_t option) state" where
  "scan_funcs probe bus slot [] = State_Monad.return None"
| "scan_funcs probe bus slot (func # funcs) =
     do {
       v \<leftarrow> PciConfigReadWord bus slot func 0x00;
       if v = 0xFFFF then scan_funcs probe bus slot funcs
       else do {
         hit \<leftarrow> probe bus slot func v;
         if hit then do { pd \<leftarrow> PciReadFullDevice bus slot func; State_Monad.return (Some pd) }
         else if func = 0 then State_Monad.return None
         else scan_funcs probe bus slot funcs
       }
     }"

fun scan_slots ::
  "(u8 \<Rightarrow> u8 \<Rightarrow> u8 \<Rightarrow> u16 \<Rightarrow> (machine, bool) state) \<Rightarrow> u8 \<Rightarrow> u8 list
    \<Rightarrow> (machine, PciDevice_t option) state" where
  "scan_slots probe bus [] = State_Monad.return None"
| "scan_slots probe bus (slot # slots) =
     do {
       r \<leftarrow> scan_funcs probe bus slot (map of_nat [0..<8]);
       case r of Some pd \<Rightarrow> State_Monad.return (Some pd) | None \<Rightarrow> scan_slots probe bus slots
     }"

partial_function (option) scan_buses ::
  "(u8 \<Rightarrow> u8 \<Rightarrow> u8 \<Rightarrow> u16 \<Rightarrow> (machine, bool) state) \<Rightarrow> u8 \<Rightarrow> machine
    \<Rightarrow> (PciDevice_t \<times> machine) option" where
  "scan_buses probe bus k =
     (case run_state (scan_slots probe bus (map of_nat [0..<32])) k of
        (Some pd, k1) \<Rightarrow> Some (pd, k1)
      | (None, k1) \<Rightarrow> scan_buses probe (bus + 1) k1)"

definition probe_id :: "u16 \<Rightarrow> u16 \<Rightarrow> u8 \<Rightarrow> u8 \<Rightarrow> u8 \<Rightarrow> u16 \<Rightarrow> (machine, bool) state" where
  "probe_id vendor device bus slot func v =
     do {
       d \<leftarrow> PciConfigReadWord bus slot func 0x02;
       State_Monad.return (v = vendor \<and> d = device)
     }"

definition probe_class :: "u8 \<Rightarrow> u8 \<Rightarrow> u8 \<Rightarrow> u8 \<Rightarrow> u8 \<Rightarrow> u16 \<Rightarrow> (machine, bool) state" where
  "probe_class class_c subcl bus slot func v =
     do {
       cls \<leftarrow> PciConfigReadByte bus slot func 0x0B;
       sub \<leftarrow> PciConfigReadByte bus slot func 0x0A;
       State_Monad.return (cls = class_c \<and> (subcl = 0xFF \<or> sub = subcl))
     }"

definition PciFindDeviceByID :: "u16 \<Rightarrow> u16 \<Rightarrow> machine \<Rightarrow> (PciDevice_t \<times> machine) option" where
  "PciFindDeviceByID vendor device k = scan_buses (probe_id vendor device) 0 k"

definition PciFindDeviceByClass :: "u8 \<Rightarrow> u8 \<Rightarrow> machine \<Rightarrow> (PciDevice_t \<times> machine) option" where
  "PciFindDeviceByClass class_c subcl k = scan_buses (probe_class class_c subcl) 0 k"

definition PciFindDeviceByLocation :: "u8 \<Rightarrow> u8 \<Rightarrow> u8 \<Rightarrow> (machine, PciDevice_t) state" where
  "PciFindDeviceByLocation bus slot func =
     do {
       vendor \<leftarrow> PciConfigReadWord bus slot func 0x00;
       if vendor = 0xFFFF then State_Monad.return PCI_DEVICE_NONE
       else PciReadFullDevice bus slot func
     }"

section \<open>Memory-mapped regions\<close>

text \<open>The register of the base address with an index, of a device.\<close>

definition bar_read :: "PciDevice_t \<Rightarrow> nat \<Rightarrow> (machine, u32) state" where
  "bar_read pd i = PciConfigReadDword (pci_bus pd) (pci_slot pd) (pci_function pd) (of_nat (0x10 + i * 4))"

definition bar_write :: "PciDevice_t \<Rightarrow> nat \<Rightarrow> u32 \<Rightarrow> (machine, unit) state" where
  "bar_write pd i v = PciConfigWriteDword (pci_bus pd) (pci_slot pd) (pci_function pd) (of_nat (0x10 + i * 4)) v"

definition mmio64 :: "nat \<Rightarrow> u32 \<Rightarrow> u32 \<Rightarrow> PciDevice_t \<Rightarrow> (machine, PciDevice_t) state" where
  "mmio64 i bar bar_high pd =
     do {
       let base_low = bar AND NOT 0xF;
       let full_base = (push_bit 32 (ucast bar_high) :: u64) OR ucast base_low;
       bar_write pd i 0xFFFFFFFF;
       bar_write pd (i + 1) 0xFFFFFFFF;
       size_low \<leftarrow> bar_read pd i;
       size_high \<leftarrow> bar_read pd (i + 1);
       bar_write pd i bar;
       bar_write pd (i + 1) bar_high;
       let size_mask = (push_bit 32 (ucast size_high) :: u64) OR ucast (size_low AND NOT 0xF);
       State_Monad.return (pd\<lparr>MMIOBase := full_base, MMIOBarIndex := of_nat i, Is64BitPciDevice := True,
         MMIOSize := ucast (NOT size_mask + 1)\<rparr>)
     }"

definition mmio32 :: "nat \<Rightarrow> u32 \<Rightarrow> PciDevice_t \<Rightarrow> (machine, PciDevice_t) state" where
  "mmio32 i bar pd =
     do {
       let base_low = bar AND NOT 0xF;
       bar_write pd i 0xFFFFFFFF;
       size_mask \<leftarrow> bar_read pd i;
       bar_write pd i bar;
       State_Monad.return (pd\<lparr>MMIOBase := ucast base_low, MMIOBarIndex := of_nat i, Is64BitPciDevice := False,
         MMIOSize := NOT (size_mask AND NOT 0xF) + 1\<rparr>)
     }"

text \<open>A 64-bit register at the last index would be completed from beyond the array: \<open>None\<close>.\<close>

fun mmio_loop :: "nat list \<Rightarrow> PciDevice_t \<Rightarrow> machine \<Rightarrow> (PciDevice_t \<times> machine) option" where
  "mmio_loop [] pd k =
     Some (pd\<lparr>MMIOBase := 0, MMIOSize := 0, MMIOBarIndex := 0xFF, Is64BitPciDevice := False\<rparr>, k)"
| "mmio_loop (i # is) pd k =
     (let bar = pci_bar pd ! i
      in if bar = 0 \<or> bar AND 0x1 \<noteq> 0 then mmio_loop is pd k
         else if bar AND 0x6 = 0x4 then
           (if i + 1 < 6 then Some (run_state (mmio64 i bar (pci_bar pd ! (i + 1)) pd) k) else None)
         else Some (run_state (mmio32 i bar pd) k))"

definition PciGetDeviceMMIORegion :: "PciDevice_t \<Rightarrow> machine \<Rightarrow> (PciDevice_t \<times> machine) option" where
  "PciGetDeviceMMIORegion pd k = mmio_loop [0..<6] pd k"

section \<open>Names\<close>

text \<open>The switch statements are association lists: a value selects the first entry that has it.\<close>

definition lookup_name :: "(u16 \<times> string) list \<Rightarrow> u16 \<Rightarrow> string option" where
  "lookup_name t v = map_of t v"

definition manufacturers :: "(u16 \<times> string) list" where
  "manufacturers = [     (0x8086, ''Intel Corporation''),
     (0x10DE, ''NVIDIA Corporation''),
     (0x1002, ''Advanced Micro Devices (AMD)''),
     (0x1022, ''AMD (Advanced Micro Devices)''),
     (0x10EC, ''Realtek Semiconductor Corp.''),
     (0x14E4, ''Broadcom Inc.''),
     (0x104C, ''Texas Instruments''),
     (0x168C, ''Qualcomm Atheros''),
     (0x1969, ''Qualcomm Attansic (Atheros)''),
     (0x10B7, ''3Com Corporation''),
     (0x1217, ''O2 Micro Inc.''),
     (0x1033, ''NEC Corporation''),
     (0x1106, ''VIA Technologies, Inc.''),
     (0x10B9, ''ULi / ALi Corporation''),
     (0x10F1, ''Silicon Integrated Systems (SiS)''),
     (0x1AF4, ''Red Hat, Inc. (VirtIO)''),
     (0x1B36, ''QEMU / Red Hat, Inc.''),
     (0x15AD, ''VMware, Inc.''),
     (0x1274, ''Ensoniq (Creative)''),
     (0x1095, ''Silicon Image, Inc.''),
     (0x105A, ''Promise Technology, Inc.''),
     (0x1C5C, ''TP-Link Technologies Co., Ltd.''),
     (0x13FE, ''Kingston Technology Company, Inc.''),
     (0x1A03, ''ASPEED Technology, Inc.''),
     (0x1B4B, ''Marvell Technology Group Ltd.''),
     (0x14F1, ''Conexant Systems, Inc.''),
     (0x1000, ''LSI Logic / Symbios Logic''),
     (0x111D, ''IDT (Integrated Device Technology)''),
     (0x1912, ''Renesas Electronics Corporation''),
     (0x1AE0, ''Google LLC''),
     (0x1C58, ''ASMedia Technology Inc.''),
     (0x10A9, ''SGI (Silicon Graphics)''),
     (0x17CB, ''Skyworks Solutions, Inc.''),
     (0x11AB, ''Marvell Semiconductor, Inc.''),
     (0x1DE1, ''Tekram Technology Co., Ltd.''),
     (0x1B21, ''ASMedia Technology Inc.''),
     (0x1D6A, ''JMicron Technology Corp.''),
     (0x1E0F, ''Shenzhen Evision Semiconductor Ltd.'')]"

definition PciGetDeviceManufacturer :: "PciDevice_t \<Rightarrow> string" where
  "PciGetDeviceManufacturer pd =
     (case lookup_name manufacturers (vendor_id pd) of Some n \<Rightarrow> n | None \<Rightarrow> ''Unknown Vendor'')"

definition device_names :: "(u16 \<times> (u16 \<times> string) list) list" where
  "device_names = [
     (0x8086, [
        (0x100E, ''Intel PRO/1000 MT Desktop (82540EM)''),
        (0x10D3, ''Intel 82574L Gigabit Ethernet''),
        (0x10F5, ''Intel 82547GI Gigabit Ethernet''),
        (0x1502, ''Intel 82579LM Gigabit Ethernet''),
        (0x10FB, ''Intel 82599 10-Gigabit Ethernet''),
        (0x2922, ''Intel ICH9 SATA AHCI Controller''),
        (0x1237, ''Intel 82441FX PMC (Q35)''),
        (0x7000, ''Intel 82371SB PIIX3 ISA Bridge''),
        (0x2415, ''Intel 82801AA AC'' @ [CHR 0x27] @ ''97 Audio Controller'')]),
     (0x10EC, [
        (0x8139, ''Realtek RTL8139 Fast Ethernet''),
        (0x8168, ''Realtek RTL8111/8168/8411 PCIe Gigabit Ethernet''),
        (0x5229, ''Realtek PCI-E Card Reader'')]),
     (0x10DE, [
        (0x1C82, ''NVIDIA GeForce GTX 1050''),
        (0x1C03, ''NVIDIA GeForce GTX 1060 (6GB)''),
        (0x1C02, ''NVIDIA GeForce GTX 1060 (3GB)''),
        (0x1B80, ''NVIDIA GeForce GTX 1080''),
        (0x2486, ''NVIDIA GeForce RTX 3060'')]),
     (0x1002, [
        (0x67DF, ''AMD Radeon RX 580''),
        (0x7340, ''AMD Radeon RX 6800''),
        (0x743F, ''AMD Radeon RX 7900 XT'')]),
     (0x1AF4, [
        (0x1000, ''VirtIO Network Device''),
        (0x1001, ''VirtIO Block Device''),
        (0x1002, ''VirtIO Balloon Device''),
        (0x1003, ''VirtIO Console''),
        (0x1041, ''VirtIO SCSI Device''),
        (0x1050, ''VirtIO Input Device'')]),
     (0x15AD, [
        (0x07A0, ''VMware VMXNET3 Ethernet Controller''),
        (0x0740, ''VMware SVGA II Adapter''),
        (0x0405, ''VMware Virtual USB Host Controller'')]),
     (0x1B36, [
        (0x0001, ''QEMU Standard VGA''),
        (0x0002, ''QEMU Ethernet Controller'')]),
     (0x14E4, [
        (0x1659, ''Broadcom NetXtreme BCM5721 Gigabit Ethernet'')]),
     (0x1022, [
        (0x2000, ''AMD Lance Ethernet Controller''),
        (0x7901, ''AMD FCH SATA Controller'')])]"

text \<open>Every vendor has at most one block; a device missing from it falls through to the end.\<close>

definition PciGetDeviceName :: "PciDevice_t \<Rightarrow> string" where
  "PciGetDeviceName pd =
     (case map_of device_names (vendor_id pd) of
        None \<Rightarrow> ''Unknown Device''
      | Some t \<Rightarrow> (case lookup_name t (device_id pd) of Some n \<Rightarrow> n | None \<Rightarrow> ''Unknown Device''))"

section \<open>The list of devices\<close>

definition pci_print :: "string \<Rightarrow> varg list \<Rightarrow> machine \<Rightarrow> machine option" where
  "pci_print fmt va k = map_option (\<lambda>(n, con). k\<lparr>console := con\<rparr>) (printk fmt va (console k))"

definition PciLogDeviceInfo :: "PciDevice_t \<Rightarrow> machine \<Rightarrow> machine option" where
  "PciLogDeviceInfo pd k =
     do {
       k1 \<leftarrow> pci_print (''%s / 0x%04X / %s / %s'' @ [CHR 0x0A])
              [VStr (PciGetDeviceManufacturer pd), VInt (ucast (vendor_id pd)), VStr (PciGetDeviceName pd),
               VStr (if Is64BitPciDevice pd then ''64-bit'' else ''32-bit'')] k;
       k2 \<leftarrow> pci_print (''Class: 0x%02X / Subclass: 0x%02X / Location: B:%u S:%u F:%u'' @ [CHR 0x0A])
              [VInt (ucast (class_code pd)), VInt (ucast (sub_class pd)), VInt (ucast (pci_bus pd)),
               VInt (ucast (pci_slot pd)), VInt (ucast (pci_function pd))] k1;
       if MMIOBase pd \<noteq> 0 \<and> MMIOSize pd > 0 then
         pci_print (''MMIO Base: 0x%p / Size: 0x%X / BAR%d'' @ [CHR 0x0A])
           [VInt (MMIOBase pd), VInt (ucast (MMIOSize pd)), VInt (ucast (MMIOBarIndex pd))] k2
       else pci_print (''No MMIO region mapped'' @ [CHR 0x0A]) [] k2
     }"

text \<open>\<^verbatim>\<open>8 * 32 * 8\<close>, of which \<^verbatim>\<open>found\<close> counts the functions that are there.\<close>

fun list_funcs :: "u8 \<Rightarrow> u8 \<Rightarrow> u8 list \<Rightarrow> u32 \<Rightarrow> machine \<Rightarrow> (u32 \<times> machine) option" where
  "list_funcs bus slot [] found k = Some (found, k)"
| "list_funcs bus slot (func # funcs) found k =
     (case run_state (PciConfigReadWord bus slot func 0x00) k of (vendor, k1) \<Rightarrow>
        if vendor = 0xFFFF then list_funcs bus slot funcs found k1
        else
          (case run_state (PciReadFullDevice bus slot func) k1 of (pd, k2) \<Rightarrow>
             do {
               (pd1, k3) \<leftarrow> PciGetDeviceMMIORegion pd k2;
               k4 \<leftarrow> PciLogDeviceInfo pd1 k3;
               let found1 = found + 1;
               if func = 0 \<and> header_type_raw pd1 AND 0x80 = 0 then Some (found1, k4)
               else do {
                 k5 \<leftarrow> pci_print (''PCI scan coverage: %u/%u'' @ [CHR 0x0A])
                        [VInt (ucast found1), VInt (8 * 32 * 8)] k4;
                 list_funcs bus slot funcs found1 k5
               }
             }))"

fun list_slots :: "(u8 \<times> u8) list \<Rightarrow> u32 \<Rightarrow> machine \<Rightarrow> (u32 \<times> machine) option" where
  "list_slots [] found k = Some (found, k)"
| "list_slots ((bus, slot) # slots) found k =
     do {
       (found1, k1) \<leftarrow> list_funcs bus slot (map of_nat [0..<8]) found k;
       list_slots slots found1 k1
     }"

definition PciListDevicesAttached :: "machine \<Rightarrow> machine option" where
  "PciListDevicesAttached k =
     map_option snd (list_slots (List.product (map of_nat [0..<8]) (map of_nat [0..<32])) 0 k)"

end
