(* ===== verification/PCI_Spec.thy ===== *)
theory PCI_Spec
  imports PCI
begin

text \<open>
  Correctness of the PCI driver against a model of the configuration space: registers that a
  write changes in their writable bits. The searches return the first device that matches, and
  never return when there is none; measuring a base address register yields the size of the
  region and leaves the register as it was.
\<close>

section \<open>The configuration space\<close>

text \<open>
  The port \<^verbatim>\<open>0xCF8\<close> latches the address of the register that accesses to \<^verbatim>\<open>0xCFC\<close> go to.
  A register starts as \<open>power_on\<close> says, and a write changes the bits that are \<open>writable\<close>.
\<close>

record pci_space =
  power_on :: "u32 \<Rightarrow> u32"
  writable :: "u32 \<Rightarrow> u32"

fun latch :: "io list \<Rightarrow> u32" where
  "latch [] = 0"
| "latch (Out32 p a # t) = (if p = 0xCF8 then a else latch t)"
| "latch (_ # t) = latch t"

fun reg :: "pci_space \<Rightarrow> io list \<Rightarrow> u32 \<Rightarrow> u32" where
  "reg pc [] a = power_on pc a"
| "reg pc (Out32 p v # t) a =
     (if p = 0xCFC \<and> latch t = a then (v AND writable pc a) OR (power_on pc a AND NOT (writable pc a)) else reg pc t a)"
| "reg pc (_ # t) a = reg pc t a"

definition answers :: "pci_space \<Rightarrow> machine \<Rightarrow> bool" where
  "answers pc k \<longleftrightarrow> (\<forall>t. dev k t 0xCFC = reg pc t (latch t))"

text \<open>The machine after a read, and after a write, of the register at an address.\<close>

definition read_at :: "u32 \<Rightarrow> machine \<Rightarrow> machine" where
  "read_at a k = k\<lparr>trace := In32 0xCFC # Out32 0xCF8 a # trace k\<rparr>"

definition write_at :: "u32 \<Rightarrow> u32 \<Rightarrow> machine \<Rightarrow> machine" where
  "write_at a v k = k\<lparr>trace := Out32 0xCFC v # Out32 0xCF8 a # trace k\<rparr>"

definition regs :: "pci_space \<Rightarrow> machine \<Rightarrow> u32 \<Rightarrow> u32" where
  "regs pc k = reg pc (trace k)"

lemma answers_steps [simp]:
  "answers pc (read_at a k) = answers pc k" "answers pc (write_at a v k) = answers pc k"
  by (simp_all add: answers_def read_at_def write_at_def)

lemma regs_steps [simp]:
  "regs pc (read_at a k) = regs pc k"
  "regs pc (write_at a v k) = (regs pc k)(a := (v AND writable pc a) OR (power_on pc a AND NOT (writable pc a)))"
  by (auto simp: regs_def read_at_def write_at_def)

lemma answers_console [simp]: "answers pc (k\<lparr>console := c\<rparr>) = answers pc k" "regs pc (k\<lparr>console := c\<rparr>) = regs pc k"
  by (simp_all add: answers_def regs_def)

text \<open>The parts of a register.\<close>

definition cfg_dword :: "(u32 \<Rightarrow> u32) \<Rightarrow> u8 \<Rightarrow> u8 \<Rightarrow> u8 \<Rightarrow> u8 \<Rightarrow> u32" where
  "cfg_dword R bus slot func offset = R (config_address bus slot func offset)"

definition cfg_word :: "(u32 \<Rightarrow> u32) \<Rightarrow> u8 \<Rightarrow> u8 \<Rightarrow> u8 \<Rightarrow> u8 \<Rightarrow> u16" where
  "cfg_word R bus slot func offset =
     ucast (drop_bit (unat (offset AND 2) * 8) (R (config_address bus slot func offset)))"

definition cfg_byte :: "(u32 \<Rightarrow> u32) \<Rightarrow> u8 \<Rightarrow> u8 \<Rightarrow> u8 \<Rightarrow> u8 \<Rightarrow> u8" where
  "cfg_byte R bus slot func offset =
     ucast (drop_bit (unat (offset AND 3) * 8) (R (config_address bus slot func offset)))"

lemma ucast_low:
  "(ucast (x AND 0xFFFF :: u32) :: u16) = ucast x" "(ucast (x AND 0xFF :: u32) :: u8) = ucast x"
proof -
  have m: "(0xFFFF :: u32) = mask 16" "(0xFF :: u32) = mask 8" by (simp_all add: mask_eq_exp_minus_1)
  show "(ucast (x AND 0xFFFF :: u32) :: u16) = ucast x"
    unfolding m by (rule bit_eqI) (auto simp: bit_simps)
  show "(ucast (x AND 0xFF :: u32) :: u8) = ucast x"
    unfolding m by (rule bit_eqI) (auto simp: bit_simps)
qed

lemma run_in32:
  "answers pc k \<Longrightarrow> run_state (in32 0xCFC) (snd (run_state (out32 0xCF8 a) k)) = (regs pc k a, read_at a k)"
  by (simp add: in32_def out32_def inl_def outl_def answers_def regs_def read_at_def)

lemma run_reads:
  assumes "answers pc k"
  shows "run_state (PciConfigReadDword b s f o') k = (cfg_dword (regs pc k) b s f o', read_at (config_address b s f o') k)"
    and "run_state (PciConfigReadWord b s f o') k = (cfg_word (regs pc k) b s f o', read_at (config_address b s f o') k)"
    and "run_state (PciConfigReadByte b s f o') k = (cfg_byte (regs pc k) b s f o', read_at (config_address b s f o') k)"
  using run_in32 [OF assms, of "config_address b s f o'"]
  by (simp_all add: PciConfigReadDword_def PciConfigReadWord_def PciConfigReadByte_def split_beta
      cfg_dword_def cfg_word_def cfg_byte_def ucast_low)

lemma run_write:
  "run_state (PciConfigWriteDword b s f o' v) k = ((), write_at (config_address b s f o') v k)"
  by (simp add: PciConfigWriteDword_def out32_def outl_def write_at_def)

section \<open>Reading a device\<close>

definition device_of :: "(u32 \<Rightarrow> u32) \<Rightarrow> u8 \<Rightarrow> u8 \<Rightarrow> u8 \<Rightarrow> PciDevice_t" where
  "device_of R bus slot func = zero_device\<lparr>pci_bus := bus, pci_slot := slot, pci_function := func,
     vendor_id := cfg_word R bus slot func 0x00, device_id := cfg_word R bus slot func 0x02,
     pci_command := cfg_word R bus slot func 0x04, pci_status := cfg_word R bus slot func 0x06,
     revision_id := cfg_byte R bus slot func 0x08, prog_if := cfg_byte R bus slot func 0x09,
     sub_class := cfg_byte R bus slot func 0x0A, class_code := cfg_byte R bus slot func 0x0B,
     class_type := ucast (cfg_byte R bus slot func 0x0B), cache_line_size := cfg_byte R bus slot func 0x0C,
     latency_timer := cfg_byte R bus slot func 0x0D, header_type_raw := cfg_byte R bus slot func 0x0E,
     header_type := ucast (cfg_byte R bus slot func 0x0E AND 0x7F), bist := cfg_byte R bus slot func 0x0F,
     pci_bar := map (\<lambda>i. cfg_dword R bus slot func (of_nat (0x10 + i * 4))) [0..<6],
     cardbus_cis_pointer := cfg_dword R bus slot func 0x28,
     subsystem_vendor_id := cfg_word R bus slot func 0x2C, subsystem_id := cfg_word R bus slot func 0x2E,
     expansion_rom_base_addr := cfg_dword R bus slot func 0x30,
     capabilities_pointer := cfg_byte R bus slot func 0x34, interrupt_line := cfg_byte R bus slot func 0x3C,
     interrupt_pin := cfg_byte R bus slot func 0x3D, min_grant := cfg_byte R bus slot func 0x3E,
     max_latency := cfg_byte R bus slot func 0x3F\<rparr>"

text \<open>\<open>reads pc m k x\<close>: the operation returns \<open>x\<close> and changes neither registers nor terminal.\<close>

definition reads :: "pci_space \<Rightarrow> (machine, 'a) state \<Rightarrow> machine \<Rightarrow> 'a \<Rightarrow> bool" where
  "reads pc op k x \<longleftrightarrow> fst (run_state op k) = x \<and>
     answers pc (snd (run_state op k)) = answers pc k \<and> regs pc (snd (run_state op k)) = regs pc k \<and>
     console (snd (run_state op k)) = console k"

lemma console_read_at [simp]: "console (read_at a k) = console k"
  by (simp add: read_at_def)

lemma reads_return: "reads pc (State_Monad.return x) k x"
  by (simp add: reads_def)

lemma reads_bind:
  assumes "answers pc k" and "regs pc k = R" and "reads pc op k x"
    and "\<And>k'. answers pc k' \<Longrightarrow> regs pc k' = R \<Longrightarrow> reads pc (f x) k' y"
  shows "reads pc (op \<bind> f) k y"
proof -
  obtain k' where k': "run_state op k = (x, k')" using assms(3) by (metis reads_def prod.collapse)
  then have e: "answers pc k' = answers pc k" "regs pc k' = regs pc k" "console k' = console k"
    using assms(3) by (simp_all add: reads_def)
  with assms(1,2,4) have "reads pc (f x) k' y" by simp
  with e show ?thesis by (simp add: reads_def k')
qed

lemma reads_config:
  assumes "answers pc k"
  shows "reads pc (PciConfigReadDword b s f o') k (cfg_dword (regs pc k) b s f o')"
    and "reads pc (PciConfigReadWord b s f o') k (cfg_word (regs pc k) b s f o')"
    and "reads pc (PciConfigReadByte b s f o') k (cfg_byte (regs pc k) b s f o')"
  using assms by (simp_all add: reads_def run_reads)


lemma reads_traverse:
  assumes "answers pc k" and "regs pc k = R"
    and g: "\<And>i k'. answers pc k' \<Longrightarrow> regs pc k' = R \<Longrightarrow> reads pc (op i) k' (g i)"
  shows "reads pc (traverse_list op is) k (map g is)"
  using assms(1,2)
proof (induction "is" arbitrary: k)
  case Nil
  then show ?case by (simp add: reads_return)
next
  case (Cons i "is")
  have "reads pc (traverse_list op is \<bind> (\<lambda>ys. State_Monad.return (g i # ys))) k' (map g (i # is))"
    if "answers pc k'" "regs pc k' = R" for k'
    using that by (intro reads_bind [OF _ _ Cons.IH]) (auto simp: reads_return)
  with Cons.prems g show ?case by (auto intro!: reads_bind [OF _ _ g])
qed

lemma reads_full_device:
  assumes "answers pc k" and "regs pc k = R"
  shows "reads pc (PciReadFullDevice b s f) k (device_of R b s f)"
proof -
  have c: "reads pc (PciConfigReadDword b s f o') k (cfg_dword R b s f o')"
    "reads pc (PciConfigReadWord b s f o') k (cfg_word R b s f o')"
    "reads pc (PciConfigReadByte b s f o') k (cfg_byte R b s f o')"
    "reads pc (traverse_list (\<lambda>i. PciConfigReadDword b s f (of_nat (0x10 + i * 4))) is) k
       (map (\<lambda>i. cfg_dword R b s f (of_nat (0x10 + i * 4))) is)"
    if "answers pc k" "regs pc k = R" for k o' "is"
    using reads_config [OF that(1)] that(2) by (auto intro!: reads_traverse [OF that] dest: reads_config)
  show ?thesis
    using assms unfolding PciReadFullDevice_def
    apply -
    apply (rule reads_bind, assumption, assumption, rule c, assumption, assumption)+
    apply (simp only: device_of_def)
    apply (rule reads_return)
    done
qed

section \<open>Searching\<close>

text \<open>
  The searches over fixed registers \<open>R\<close>: \<open>M bus slot func\<close> says whether the probe matches. A
  function is absent when its vendor reads all ones.
\<close>

definition absent :: "(u32 \<Rightarrow> u32) \<Rightarrow> u8 \<Rightarrow> u8 \<Rightarrow> u8 \<Rightarrow> bool" where
  "absent R b s f \<longleftrightarrow> cfg_word R b s f 0 = 0xFFFF"

text \<open>Functions 1 to 7 are only looked at where function 0 is absent.\<close>

definition found_at :: "(u32 \<Rightarrow> u32) \<Rightarrow> (u8 \<Rightarrow> u8 \<Rightarrow> u8 \<Rightarrow> bool) \<Rightarrow> u8 \<Rightarrow> u8 \<Rightarrow> u8 \<Rightarrow> bool" where
  "found_at R M b s f \<longleftrightarrow> s < 32 \<and> f < 8 \<and> \<not> absent R b s f \<and> M b s f \<and> (f = 0 \<or> absent R b s 0)"

fun first_func :: "(u32 \<Rightarrow> u32) \<Rightarrow> (u8 \<Rightarrow> u8 \<Rightarrow> u8 \<Rightarrow> bool) \<Rightarrow> u8 \<Rightarrow> u8 \<Rightarrow> u8 list \<Rightarrow> u8 option" where
  "first_func R M b s [] = None"
| "first_func R M b s (f # fs) =
     (if absent R b s f then first_func R M b s fs
      else if M b s f then Some f
      else if f = 0 then None
      else first_func R M b s fs)"

fun first_slot :: "(u32 \<Rightarrow> u32) \<Rightarrow> (u8 \<Rightarrow> u8 \<Rightarrow> u8 \<Rightarrow> bool) \<Rightarrow> u8 \<Rightarrow> u8 list \<Rightarrow> (u8 \<times> u8) option" where
  "first_slot R M b [] = None"
| "first_slot R M b (s # slots) =
     (case first_func R M b s (map of_nat [0..<8]) of
        Some f \<Rightarrow> Some (s, f)
      | None \<Rightarrow> first_slot R M b slots)"

lemma u8_list: "n \<le> 256 \<Longrightarrow> f \<in> set (map of_nat [0..<n]) \<longleftrightarrow> unat (f :: u8) < n"
proof -
  assume n: "n \<le> 256"
  have f: "f = of_nat (unat f)" by simp
  show ?thesis
  proof
    assume "unat f < n"
    with f show "f \<in> set (map of_nat [0..<n])" by (metis atLeastLessThan_upt image_eqI lessThan_atLeast0 lessThan_iff list.set_map)
  qed (use n in \<open>auto simp: unat_of_nat\<close>)
qed

lemma eight_funcs: "map of_nat [0..<8] = (0 :: u8) # map of_nat [1..<8]" "0 \<notin> set (map of_nat [1..<8] :: u8 list)"
proof -
  show "map of_nat [0..<8] = (0 :: u8) # map of_nat [1..<8]" by (simp add: upt_rec)
  show "0 \<notin> set (map of_nat [1..<8] :: u8 list)" by (simp add: upt_rec)
qed

lemma first_func_nonzero:
  "0 \<notin> set fs \<Longrightarrow> case first_func R M b s fs of
     None \<Rightarrow> \<forall>f \<in> set fs. \<not> (\<not> absent R b s f \<and> M b s f)
   | Some f \<Rightarrow> f \<in> set fs \<and> \<not> absent R b s f \<and> M b s f"
  by (induction fs) (auto split: option.splits)

lemma first_func_all:
  assumes "s < 32"
  shows "case first_func R M b s (map of_nat [0..<8]) of
      None \<Rightarrow> \<forall>f. \<not> found_at R M b s f
    | Some f \<Rightarrow> found_at R M b s f"
proof -
  have m: "f < 8 \<longleftrightarrow> f = 0 \<or> f \<in> set (map of_nat [1..<8])" for f :: u8
    using u8_list [of 8 f] eight_funcs(1) by (simp add: word_less_nat_alt)
  note z = first_func_nonzero [OF eight_funcs(2), where R = R and M = M and b = b and s = s]
  show ?thesis
    using assms z unfolding eight_funcs(1) by (auto simp: found_at_def m split: option.splits)
qed

lemma first_slot_all:
  "\<forall>s \<in> set slots. s < 32 \<Longrightarrow> case first_slot R M b slots of
      None \<Rightarrow> \<forall>s \<in> set slots. \<forall>f. \<not> found_at R M b s f
    | Some (s, f) \<Rightarrow> s \<in> set slots \<and> found_at R M b s f"
proof (induction slots)
  case (Cons s slots)
  then show ?case using first_func_all [where R = R and M = M and b = b and s = s] by (auto split: option.splits)
qed simp

text \<open>A probe that reads registers only.\<close>

definition probes :: "pci_space \<Rightarrow> (u32 \<Rightarrow> u32) \<Rightarrow> (u8 \<Rightarrow> u8 \<Rightarrow> u8 \<Rightarrow> u16 \<Rightarrow> (machine, bool) state)
    \<Rightarrow> (u8 \<Rightarrow> u8 \<Rightarrow> u8 \<Rightarrow> bool) \<Rightarrow> bool" where
  "probes pc R probe M \<longleftrightarrow> (\<forall>k b s f. answers pc k \<longrightarrow> regs pc k = R \<longrightarrow>
     reads pc (probe b s f (cfg_word R b s f 0)) k (M b s f))"

lemma reads_word: "answers pc k \<Longrightarrow> regs pc k = R \<Longrightarrow> reads pc (PciConfigReadWord b s f o') k (cfg_word R b s f o')"
  using reads_config(2) by blast

lemma reads_byte: "answers pc k \<Longrightarrow> regs pc k = R \<Longrightarrow> reads pc (PciConfigReadByte b s f o') k (cfg_byte R b s f o')"
  using reads_config(3) by blast

lemma scan_funcs_reads:
  assumes p: "probes pc R probe M" and "answers pc k" and "regs pc k = R"
  shows "reads pc (scan_funcs probe b s fs) k (map_option (device_of R b s) (first_func R M b s fs))"
  using assms(2,3)
proof (induction fs arbitrary: k)
  case Nil
  then show ?case by (simp add: reads_return)
next
  case (Cons f fs)
  have hit: "reads pc (probe b s f (cfg_word R b s f 0)) k' (M b s f)" if "answers pc k'" "regs pc k' = R" for k'
    using p that by (simp add: probes_def)
  show ?case
  proof (simp only: scan_funcs.simps, rule reads_bind [OF Cons.prems reads_word [OF Cons.prems]])
    fix k' assume k': "answers pc k'" "regs pc k' = R"
    show "reads pc (if cfg_word R b s f 0 = 0xFFFF then scan_funcs probe b s fs
        else do {
          hit \<leftarrow> probe b s f (cfg_word R b s f 0);
          if hit then do { pd \<leftarrow> PciReadFullDevice b s f; State_Monad.return (Some pd) }
          else if f = 0 then State_Monad.return None
          else scan_funcs probe b s fs
        }) k' (map_option (device_of R b s) (first_func R M b s (f # fs)))"
    proof (cases "absent R b s f")
      case True
      then show ?thesis using Cons.IH [OF k'] by (simp add: absent_def)
    next
      case False
      have "reads pc (do {
          hit \<leftarrow> probe b s f (cfg_word R b s f 0);
          if hit then do { pd \<leftarrow> PciReadFullDevice b s f; State_Monad.return (Some pd) }
          else if f = 0 then State_Monad.return None
          else scan_funcs probe b s fs
        }) k' (map_option (device_of R b s) (first_func R M b s (f # fs)))"
      proof (rule reads_bind [OF k' hit [OF k']])
        fix k2 assume k2: "answers pc k2" "regs pc k2 = R"
        have "reads pc (do { pd \<leftarrow> PciReadFullDevice b s f; State_Monad.return (Some pd) }) k2
            (Some (device_of R b s f))"
          by (rule reads_bind [OF k2 reads_full_device [OF k2]], rule reads_return)
        then show "reads pc (if M b s f then do { pd \<leftarrow> PciReadFullDevice b s f; State_Monad.return (Some pd) }
            else if f = 0 then State_Monad.return None else scan_funcs probe b s fs) k2
            (map_option (device_of R b s) (first_func R M b s (f # fs)))"
          using False Cons.IH [OF k2] by (simp add: reads_return)
      qed
      with False show ?thesis by (simp add: absent_def)
    qed
  qed
qed

lemma scan_slots_reads:
  assumes p: "probes pc R probe M" and "answers pc k" and "regs pc k = R"
  shows "reads pc (scan_slots probe b slots) k
    (map_option (\<lambda>(s, f). device_of R b s f) (first_slot R M b slots))"
  using assms(2,3)
proof (induction slots arbitrary: k)
  case Nil
  then show ?case by (simp add: reads_return)
next
  case (Cons s slots)
  show ?case
    unfolding scan_slots.simps
  proof (rule reads_bind [OF Cons.prems scan_funcs_reads [OF p Cons.prems]])
    fix k' assume k': "answers pc k'" "regs pc k' = R"
    show "reads pc (case map_option (device_of R b s) (first_func R M b s (map of_nat [0..<8])) of
          Some pd \<Rightarrow> State_Monad.return (Some pd) | None \<Rightarrow> scan_slots probe b slots) k'
        (map_option (\<lambda>(s, f). device_of R b s f) (first_slot R M b (s # slots)))"
      using Cons.IH [OF k']
      by (cases "first_func R M b s (map of_nat [0..<8])") (simp_all add: reads_return del: upt_Suc)
  qed
qed

text \<open>The outer loop.\<close>

definition bus_hit :: "(u32 \<Rightarrow> u32) \<Rightarrow> (u8 \<Rightarrow> u8 \<Rightarrow> u8 \<Rightarrow> bool) \<Rightarrow> u8 \<Rightarrow> (u8 \<times> u8) option" where
  "bus_hit R M b = first_slot R M b (map of_nat [0..<32])"

lemma bus_hit:
  "case bus_hit R M b of None \<Rightarrow> \<forall>s f. \<not> found_at R M b s f | Some (s, f) \<Rightarrow> found_at R M b s f"
proof -
  define slots where "slots = (map of_nat [0..<32] :: u8 list)"
  have l: "s \<in> set slots \<longleftrightarrow> s < 32" for s :: u8
    unfolding slots_def by (simp only: u8_list) (simp add: word_less_nat_alt)
  then have "\<forall>s \<in> set slots. s < (32 :: u8)" by blast
  from first_slot_all [OF this, where R = R and M = M and b = b] show ?thesis
    unfolding bus_hit_def slots_def [symmetric]
    by (auto simp: l found_at_def split: option.splits)
qed

lemma scan_buses_step:
  assumes p: "probes pc R probe M" and "answers pc k" and "regs pc k = R"
  obtains (hit) s f k' where "bus_hit R M b = Some (s, f)" "scan_buses probe b k = Some (device_of R b s f, k')"
      "answers pc k'" "regs pc k' = R"
  | (miss) k' where "bus_hit R M b = None" "scan_buses probe b k = scan_buses probe (b + 1) k'"
      "answers pc k'" "regs pc k' = R"
proof -
  obtain r k' where r: "run_state (scan_slots probe b (map of_nat [0..<32])) k = (r, k')" by fastforce
  then have e: "r = map_option (\<lambda>(s, f). device_of R b s f) (bus_hit R M b)" "answers pc k'" "regs pc k' = R"
    using scan_slots_reads [OF assms, of b "map of_nat [0..<32]"] assms(2,3)
    by (simp_all add: reads_def bus_hit_def)
  show ?thesis
  proof (cases "bus_hit R M b")
    case None
    have "scan_buses probe b k = scan_buses probe (b + 1) k'"
      by (subst scan_buses.simps) (simp add: r e(1) None del: upt_Suc)
    then show ?thesis by (rule miss [OF None _ e(2,3)])
  next
    case (Some q)
    obtain s f where q: "q = (s, f)" by (cases q)
    have "scan_buses probe b k = Some (device_of R b s f, k')"
      by (subst scan_buses.simps) (simp add: r e(1) Some q del: upt_Suc)
    with Some q e(2,3) show ?thesis using hit by blast
  qed
qed

lemma scan_buses_finds:
  assumes p: "probes pc R probe M"
  shows "answers pc k \<Longrightarrow> regs pc k = R \<Longrightarrow> unat b + n < 256 \<Longrightarrow> bus_hit R M (b + of_nat n) = Some (s, f) \<Longrightarrow>
    (\<forall>i < n. bus_hit R M (b + of_nat i) = None) \<Longrightarrow>
    \<exists>k'. scan_buses probe b k = Some (device_of R (b + of_nat n) s f, k') \<and> regs pc k' = R"
proof (induction n arbitrary: b k)
  case 0
  from p 0(1,2) show ?case by (cases rule: scan_buses_step [where b = b]) (use 0 in auto)
next
  case (Suc n)
  have none: "bus_hit R M b = None" using Suc.prems(5) by (auto dest: spec [of _ 0])
  from p Suc.prems(1,2) show ?case
  proof (cases rule: scan_buses_step [where b = b])
    case hit
    with none show ?thesis by simp
  next
    case (miss k')
    have "unat (b + 1) = unat b + 1" using Suc.prems(3) by (simp add: unat_word_ariths)
    then have l: "unat (b + 1) + n < 256" using Suc.prems(3) by simp
    have s: "b + 1 + of_nat i = b + of_nat (Suc i)" for i by simp
    have "\<forall>i < n. bus_hit R M (b + 1 + of_nat i) = None" using Suc.prems(5) by (simp only: s) auto
    with Suc.IH [OF miss(3,4) l] Suc.prems(4) miss(2) show ?thesis by (simp only: s)
  qed
qed

lemma scan_buses_exists:
  assumes "scan_buses probe b k = Some r" and "probes pc R probe M" and "answers pc k" and "regs pc k = R"
  shows "\<exists>b s f. found_at R M b s f"
proof -
  let ?P = "\<lambda>q b k y. probes pc R q M \<longrightarrow> answers pc k \<longrightarrow> regs pc k = R \<longrightarrow> (\<exists>b s f. found_at R M b s f)"
  have "?P probe b k r"
  proof (rule scan_buses.raw_induct [where P = ?P, OF _ assms(1)], intro impI)
    fix scan q b k and y :: "PciDevice_t \<times> machine"
    assume IH: "\<And>q b k y. scan q b k = Some y \<Longrightarrow> ?P q b k y"
      and body: "(case run_state (scan_slots q b (map of_nat [0..<32])) k of
          (None, k1) \<Rightarrow> scan q (b + 1) k1 | (Some pd, k1) \<Rightarrow> Some (pd, k1)) = Some y"
      and k: "probes pc R q M" "answers pc k" "regs pc k = R"
    obtain x k' where x: "run_state (scan_slots q b (map of_nat [0..<32])) k = (x, k')" by fastforce
    then have e: "x = map_option (\<lambda>(s, f). device_of R b s f) (bus_hit R M b)" "answers pc k'" "regs pc k' = R"
      using scan_slots_reads [OF k, of b "map of_nat [0..<32]"] k(2,3)
      by (simp_all add: reads_def bus_hit_def)
    show "\<exists>b s f. found_at R M b s f"
    proof (cases "bus_hit R M b")
      case None
      then have "scan q (b + 1) k' = Some y" using body unfolding x e(1) by simp
      from IH [OF this] k(1) e(2,3) show ?thesis by blast
    next
      case (Some t)
      then show ?thesis using bus_hit [of R M b] by (auto split: prod.splits)
    qed
  qed
  with assms(2-4) show ?thesis by blast
qed

section \<open>Memory regions\<close>

text \<open>
  A memory base address register: its writable bits are above the four that tell the kind, and
  the others above them are zero.
\<close>

definition memory_bar :: "pci_space \<Rightarrow> u32 \<Rightarrow> bool" where
  "memory_bar pc a \<longleftrightarrow> writable pc a AND 0xF = 0 \<and> power_on pc a AND NOT (writable pc a) AND NOT 0xF = 0"

lemma reg_fixed_bits: "reg pc t a AND NOT (writable pc a) = power_on pc a AND NOT (writable pc a)"
proof (induction pc t a rule: reg.induct)
  case (2 pc p v t a)
  have "((v AND w) OR (q AND NOT w)) AND NOT w = q AND NOT w" for v w q :: u32
    by (rule bit_eqI) (auto simp: bit_simps)
  with 2 show ?case by simp
qed simp_all

lemma restore_register:
  "(regs pc k a AND writable pc a) OR (power_on pc a AND NOT (writable pc a)) = regs pc k a"
proof -
  have "(x AND w) OR (x AND NOT w) = x" for x w :: u32
    by (rule bit_eqI) (auto simp: bit_simps)
  then show ?thesis using reg_fixed_bits [of pc "trace k" a] by (metis regs_def)
qed

lemma size_register:
  assumes "memory_bar pc a"
  shows "((0xFFFFFFFF AND writable pc a) OR (power_on pc a AND NOT (writable pc a))) AND NOT 0xF = writable pc a"
proof -
  let ?w = "writable pc a" and ?p = "power_on pc a"
  have "(0xFFFFFFFF :: u32) = - 1" by simp
  then have e: "0xFFFFFFFF AND ?w = ?w" by (metis and.left_neutral)
  have "?w AND NOT 0xF = ?w"
    using assms bit.conj_disj_distrib [of ?w "0xF" "NOT 0xF"] by (simp add: memory_bar_def)
  then show ?thesis
    using assms unfolding e memory_bar_def by (simp add: bit.conj_disj_distrib2 and.assoc)
qed

definition bar_address :: "u8 \<Rightarrow> u8 \<Rightarrow> u8 \<Rightarrow> nat \<Rightarrow> u32" where
  "bar_address b s f i = config_address b s f (of_nat (0x10 + i * 4))"

lemma bar_device:
  assumes "i < 6"
  shows "pci_bar (device_of R b s f) ! i = R (bar_address b s f i)"
  using assms by (simp add: device_of_def bar_address_def cfg_dword_def)

lemma run_mmio32:
  assumes "answers pc k" and "pci_bus pd = b" "pci_slot pd = s" "pci_function pd = f"
    and "memory_bar pc (bar_address b s f i)" and bar: "bar = regs pc k (bar_address b s f i)"
  shows "\<exists>k'. run_state (mmio32 i bar pd) k =
      (pd\<lparr>MMIOBase := ucast (bar AND NOT 0xF), MMIOBarIndex := of_nat i, Is64BitPciDevice := False,
         MMIOSize := NOT (writable pc (bar_address b s f i)) + 1\<rparr>, k') \<and> regs pc k' = regs pc k"
proof -
  let ?a = "bar_address b s f i"
  have r: "run_state (mmio32 i bar pd) k =
      (pd\<lparr>MMIOBase := ucast (bar AND NOT 0xF), MMIOBarIndex := of_nat i, Is64BitPciDevice := False,
         MMIOSize := NOT (((0xFFFFFFFF AND writable pc ?a) OR (power_on pc ?a AND NOT (writable pc ?a))) AND NOT 0xF) + 1\<rparr>,
       write_at ?a bar (read_at ?a (write_at ?a 0xFFFFFFFF k)))"
    using assms(1-4) by (simp add: mmio32_def bar_write_def bar_read_def run_write run_reads cfg_dword_def
        bar_address_def Let_def del: of_nat_add of_nat_mult)
  show ?thesis
    unfolding r size_register [OF assms(5)] by (simp add: bar restore_register)
qed

lemma config_address_low: "take_bit 8 (config_address b s f o') = ucast o' AND 0xFC"
proof -
  have e: "(0x80000000 :: u32) = push_bit 31 1" by simp
  have "take_bit 8 (ucast o' :: u32) = ucast o'"
    by (rule bit_eqI) (auto simp: bit_simps dest: bit_imp_le_length)
  then have m: "take_bit 8 (ucast o' AND 0xFC :: u32) = ucast o' AND 0xFC" by simp
  have "take_bit 8 (push_bit n x) = 0" if "8 \<le> n" for n and x :: u32
    using that by (intro bit_eqI) (auto simp: bit_simps)
  then show ?thesis
    unfolding config_address_def e take_bit_or m by simp
qed

lemma bar_address_neq: "i < 5 \<Longrightarrow> bar_address b s f i \<noteq> bar_address b s f (i + 1)"
proof
  assume i: "i < 5" and "bar_address b s f i = bar_address b s f (i + 1)"
  then have "take_bit 8 (bar_address b s f i) = take_bit 8 (bar_address b s f (i + 1))" by simp
  moreover have "i = 0 \<or> i = 1 \<or> i = 2 \<or> i = 3 \<or> i = 4" using i by linarith
  ultimately show False unfolding bar_address_def config_address_low by auto
qed

lemma run_mmio64:
  assumes "answers pc k" and "pci_bus pd = b" "pci_slot pd = s" "pci_function pd = f" and i: "i < 5"
    and "memory_bar pc (bar_address b s f i)"
    and "power_on pc (bar_address b s f (i + 1)) AND NOT (writable pc (bar_address b s f (i + 1))) = 0"
    and bar: "bar = regs pc k (bar_address b s f i)" "bar_high = regs pc k (bar_address b s f (i + 1))"
  shows "\<exists>k'. run_state (mmio64 i bar bar_high pd) k =
      (pd\<lparr>MMIOBase := push_bit 32 (ucast bar_high) OR ucast (bar AND NOT 0xF), MMIOBarIndex := of_nat i,
         Is64BitPciDevice := True,
         MMIOSize := ucast (NOT (push_bit 32 (ucast (writable pc (bar_address b s f (i + 1)))) OR
           ucast (writable pc (bar_address b s f i)) :: u64) + 1)\<rparr>, k') \<and> regs pc k' = regs pc k"
proof -
  let ?a = "bar_address b s f i" and ?h = "bar_address b s f (i + 1)"
  note ne = bar_address_neq [OF i, of b s f]
  have "(0xFFFFFFFF :: u32) = - 1" by simp
  then have high: "(0xFFFFFFFF AND writable pc ?h) OR (power_on pc ?h AND NOT (writable pc ?h)) = writable pc ?h"
    by (metis and.left_neutral assms(7) or.right_neutral)
  have r: "run_state (mmio64 i bar bar_high pd) k =
      (pd\<lparr>MMIOBase := push_bit 32 (ucast bar_high) OR ucast (bar AND NOT 0xF), MMIOBarIndex := of_nat i,
         Is64BitPciDevice := True,
         MMIOSize := ucast (NOT (push_bit 32 (ucast ((0xFFFFFFFF AND writable pc ?h) OR (power_on pc ?h AND NOT (writable pc ?h)))) OR
           ucast (((0xFFFFFFFF AND writable pc ?a) OR (power_on pc ?a AND NOT (writable pc ?a))) AND NOT 0xF) :: u64) + 1)\<rparr>,
       write_at ?h bar_high (write_at ?a bar (read_at ?h (read_at ?a (write_at ?h 0xFFFFFFFF (write_at ?a 0xFFFFFFFF k))))))"
    using assms(1-4) ne by (simp add: mmio64_def bar_write_def bar_read_def run_write run_reads cfg_dword_def
        bar_address_def Let_def del: of_nat_add of_nat_mult)
  show ?thesis
    unfolding r size_register [OF assms(6)] high
    using ne by (auto simp: bar restore_register)
qed


text \<open>Which register the driver takes: the first that holds a memory address.\<close>

definition first_memory_bar :: "(u32 \<Rightarrow> u32) \<Rightarrow> u8 \<Rightarrow> u8 \<Rightarrow> u8 \<Rightarrow> nat \<Rightarrow> bool" where
  "first_memory_bar R b s f i \<longleftrightarrow> i < 6 \<and> R (bar_address b s f i) \<noteq> 0 \<and> R (bar_address b s f i) AND 1 = 0 \<and>
     (\<forall>j < i. R (bar_address b s f j) = 0 \<or> R (bar_address b s f j) AND 1 \<noteq> 0)"

lemma mmio_loop_skip:
  assumes "\<forall>j \<in> set js. pci_bar pd ! j = 0 \<or> pci_bar pd ! j AND 1 \<noteq> 0"
  shows "mmio_loop (js @ is) pd k = mmio_loop is pd k"
  using assms by (induction js) auto

lemma mmio_loop_first:
  assumes "first_memory_bar R b s f i"
  shows "mmio_loop [0..<6] (device_of R b s f) k = mmio_loop [i..<6] (device_of R b s f) k"
proof -
  have i: "i < 6" using assms by (simp add: first_memory_bar_def)
  then have "[0..<6] = [0..<i] @ [i..<6]" using upt_add_eq_append [of 0 i "6 - i"] by simp
  moreover have "\<forall>j \<in> set [0..<i]. pci_bar (device_of R b s f) ! j = 0 \<or> pci_bar (device_of R b s f) ! j AND 1 \<noteq> 0"
    using assms i by (auto simp: first_memory_bar_def bar_device)
  ultimately show ?thesis using mmio_loop_skip by metis
qed

lemma device_of_location [simp]:
  "pci_bus (device_of R b s f) = b" "pci_slot (device_of R b s f) = s" "pci_function (device_of R b s f) = f"
  by (simp_all add: device_of_def)

lemma mmio_none:
  assumes "\<forall>j < 6. R (bar_address b s f j) = 0 \<or> R (bar_address b s f j) AND 1 \<noteq> 0"
  shows "PciGetDeviceMMIORegion (device_of R b s f) k =
    Some ((device_of R b s f)\<lparr>MMIOBase := 0, MMIOSize := 0, MMIOBarIndex := 0xFF, Is64BitPciDevice := False\<rparr>, k)"
proof -
  have "\<forall>j \<in> set [0..<6]. pci_bar (device_of R b s f) ! j = 0 \<or> pci_bar (device_of R b s f) ! j AND 1 \<noteq> 0"
    using assms by (simp add: bar_device)
  from mmio_loop_skip [OF this, of "[]" k] show ?thesis by (simp add: PciGetDeviceMMIORegion_def del: upt_Suc)
qed

section \<open>Properties\<close>

text \<open>What the two searches look for.\<close>

definition id_match :: "(u32 \<Rightarrow> u32) \<Rightarrow> u16 \<Rightarrow> u16 \<Rightarrow> u8 \<Rightarrow> u8 \<Rightarrow> u8 \<Rightarrow> bool" where
  "id_match R vendor device b s f \<longleftrightarrow> cfg_word R b s f 0 = vendor \<and> cfg_word R b s f 2 = device"

definition class_match :: "(u32 \<Rightarrow> u32) \<Rightarrow> u8 \<Rightarrow> u8 \<Rightarrow> u8 \<Rightarrow> u8 \<Rightarrow> u8 \<Rightarrow> bool" where
  "class_match R c sc b s f \<longleftrightarrow> cfg_byte R b s f 0x0B = c \<and> (sc = 0xFF \<or> cfg_byte R b s f 0x0A = sc)"

lemma probes_id: "probes pc R (probe_id vendor device) (id_match R vendor device)"
  unfolding probes_def probe_id_def id_match_def
  by (intro allI impI reads_bind [OF _ _ reads_word]) (auto intro: reads_return)

lemma probes_class: "probes pc R (probe_class c sc) (class_match R c sc)"
  unfolding probes_def probe_class_def class_match_def
  by (intro allI impI reads_bind [OF _ _ reads_byte]) (auto intro: reads_return)

lemma scan_buses_result:
  assumes p: "probes pc (regs pc k) probe M" and a: "answers pc k"
  shows "case scan_buses probe 0 k of
      None \<Rightarrow> \<forall>b s f. \<not> found_at (regs pc k) M b s f
    | Some (pd, k') \<Rightarrow> \<exists>b s f. found_at (regs pc k) M b s f \<and> pd = device_of (regs pc k) b s f \<and>
        (\<forall>b' < b. \<forall>s f. \<not> found_at (regs pc k) M b' s f) \<and> regs pc k' = regs pc k"
proof (cases "\<exists>b s f. found_at (regs pc k) M b s f")
  case True
  let ?R = "regs pc k"
  let ?hit = "\<lambda>n. n < 256 \<and> bus_hit ?R M (of_nat n) \<noteq> None"
  obtain b0 s0 f0 where f0: "found_at ?R M b0 s0 f0" using True by blast
  then have "bus_hit ?R M b0 \<noteq> None" using bus_hit [of ?R M b0] by (auto split: option.splits)
  moreover have "unat b0 < 256" using unsigned_less [of b0] by simp
  ultimately have ex: "?hit (unat b0)" by simp
  define n where "n = (LEAST n. ?hit n)"
  have n: "?hit n" unfolding n_def by (rule LeastI [of ?hit, OF ex])
  then obtain s f where sf: "bus_hit ?R M (of_nat n) = Some (s, f)" by (cases "bus_hit ?R M (of_nat n)") auto
  have least: "bus_hit ?R M (of_nat i) = None" if "i < n" for i
    using that n not_less_Least [of i ?hit] unfolding n_def by fastforce
  obtain k' where k': "scan_buses probe 0 k = Some (device_of ?R (of_nat n) s f, k')" "regs pc k' = ?R"
    using scan_buses_finds [OF p a refl, of 0 n s f] n sf least by auto
  have "\<forall>s f. \<not> found_at ?R M b' s f" if "b' < of_nat n" for b'
  proof -
    have "unat b' < n" using that n by (simp add: word_less_nat_alt unat_of_nat)
    from least [OF this] show ?thesis using bus_hit [of ?R M b'] by simp
  qed
  moreover have "found_at ?R M (of_nat n) s f" using bus_hit [of ?R M "of_nat n"] sf by simp
  ultimately show ?thesis using k' by auto
next
  case False
  with scan_buses_exists [OF _ p a refl] show ?thesis by (auto split: option.splits)
qed


text \<open>A network card on bus 0, slot 3, with a region of 128 KiB, and nothing else.\<close>

definition pci_demo :: pci_space where
  "pci_demo = \<lparr>power_on = (\<lambda>a. if a = 0x80001800 then 0x100E8086 else if a = 0x80001810 then 0xFEB00000
       else if a AND 0xFFFFFF00 = 0x80001800 then 0 else 0xFFFFFFFF),
     writable = (\<lambda>a. if a = 0x80001810 then NOT (mask 17) else 0)\<rparr>"

definition pci_machine :: "pci_space \<Rightarrow> machine" where
  "pci_machine pc = boot_machine\<lparr>dev := (\<lambda>t p. reg pc t (latch t))\<rparr>"

lemma pci_machine_simps [simp]: "answers pc (pci_machine pc)" "regs pc (pci_machine pc) = power_on pc"
  by (auto simp: answers_def pci_machine_def regs_def boot_machine_def)


text \<open>C35: Measuring a 32-bit memory region is exact and leaves no trace: for the first base address
  register that is neither empty nor an I/O port, if the device decodes \<open>2 ^ n\<close> bytes there, the
  driver finds the base, the index and exactly that size, and every register of the
  configuration space is as before.\<close>

theorem pci_mmio32:
  assumes "answers pc k" and "first_memory_bar (regs pc k) b s f i"
    and "regs pc k (bar_address b s f i) AND 0x6 \<noteq> 0x4"
    and "memory_bar pc (bar_address b s f i)" and "writable pc (bar_address b s f i) = NOT (mask n)" and "n < 32"
  shows "\<exists>k'. PciGetDeviceMMIORegion (device_of (regs pc k) b s f) k =
      Some ((device_of (regs pc k) b s f)\<lparr>MMIOBase := ucast (regs pc k (bar_address b s f i) AND NOT 0xF),
        MMIOBarIndex := of_nat i, Is64BitPciDevice := False, MMIOSize := 2 ^ n\<rparr>, k') \<and>
    regs pc k' = regs pc k"
proof -
  let ?pd = "device_of (regs pc k) b s f" and ?bar = "regs pc k (bar_address b s f i)"
  have i: "i < 6" "?bar \<noteq> 0" "?bar AND 1 = 0" using assms(2) by (simp_all add: first_memory_bar_def)
  have "NOT (NOT (mask n)) + 1 = (2 ^ n :: u32)" by (simp add: mask_eq_exp_minus_1)
  with run_mmio32 [OF assms(1) _ _ _ assms(4) refl, of ?pd] assms(5) obtain k' where
    k': "run_state (mmio32 i ?bar ?pd) k = (?pd\<lparr>MMIOBase := ucast (?bar AND NOT 0xF), MMIOBarIndex := of_nat i,
      Is64BitPciDevice := False, MMIOSize := 2 ^ n\<rparr>, k')" "regs pc k' = regs pc k" by auto
  have "[i..<6] = i # [Suc i..<6]" using i(1) by (rule upt_conv_Cons)
  then have "PciGetDeviceMMIORegion ?pd k = Some (run_state (mmio32 i ?bar ?pd) k)"
    unfolding PciGetDeviceMMIORegion_def mmio_loop_first [OF assms(2)]
    using i assms(3) by (simp add: bar_device)
  with k' show ?thesis by simp
qed

theorem pci_mmio32_witness:
  "\<exists>pd k'. PciGetDeviceMMIORegion (device_of (power_on pci_demo) 0 3 0) (pci_machine pci_demo) = Some (pd, k') \<and>
    MMIOBase pd = 0xFEB00000 \<and> MMIOSize pd = 0x20000"
proof -
  have a: "bar_address 0 3 0 0 = 0x80001810" by (simp add: bar_address_def config_address_def)
  have R: "power_on pci_demo 0x80001810 = 0xFEB00000" "writable pci_demo 0x80001810 = NOT (mask 17)"
    by (simp_all add: pci_demo_def)
  have 1: "first_memory_bar (regs pci_demo (pci_machine pci_demo)) 0 3 0 0"
    "regs pci_demo (pci_machine pci_demo) (bar_address 0 3 0 0) AND 0x6 \<noteq> 0x4"
    by (simp_all add: first_memory_bar_def a R)
  have 2: "memory_bar pci_demo (bar_address 0 3 0 0)"
    by (simp add: memory_bar_def a R mask_eq_exp_minus_1)
  have 3: "writable pci_demo (bar_address 0 3 0 0) = NOT (mask 17)" by (simp add: a R)
  show ?thesis
    using pci_mmio32 [OF pci_machine_simps(1) 1 2 3] by (auto simp: a R)
qed

text \<open>C36: A 64-bit region is measured without leaving a trace as well, but its size is cut to 32 bits: a
  device with 4 GiB or more gets size 0, which the code takes for no region at all.\<close>

theorem pci_mmio64:
  assumes "answers pc k" and "first_memory_bar (regs pc k) b s f i" and "i < 5"
    and "regs pc k (bar_address b s f i) AND 0x6 = 0x4"
    and "memory_bar pc (bar_address b s f i)"
    and "power_on pc (bar_address b s f (i + 1)) AND NOT (writable pc (bar_address b s f (i + 1))) = 0"
    and "push_bit 32 (ucast (writable pc (bar_address b s f (i + 1)))) OR
      ucast (writable pc (bar_address b s f i)) = (NOT (mask n) :: u64)" and "n < 64"
  shows "\<exists>pd' k'. PciGetDeviceMMIORegion (device_of (regs pc k) b s f) k = Some (pd', k') \<and>
    MMIOBase pd' = push_bit 32 (ucast (regs pc k (bar_address b s f (i + 1)))) OR
      ucast (regs pc k (bar_address b s f i) AND NOT 0xF) \<and>
    MMIOBarIndex pd' = of_nat i \<and> Is64BitPciDevice pd' \<and>
    MMIOSize pd' = (if n < 32 then 2 ^ n else 0) \<and> regs pc k' = regs pc k"
proof -
  let ?pd = "device_of (regs pc k) b s f" and ?bar = "regs pc k (bar_address b s f i)"
  let ?high = "regs pc k (bar_address b s f (i + 1))"
  have i: "i < 6" "?bar \<noteq> 0" "?bar AND 1 = 0" using assms(2) by (simp_all add: first_memory_bar_def)
  have "NOT (NOT (mask n)) + 1 = (2 ^ n :: u64)" by (simp add: mask_eq_exp_minus_1)
  moreover have "ucast (2 ^ n :: u64) = (if n < 32 then 2 ^ n else 0 :: u32)"
  proof (cases "n < 32")
    case True
    have "ucast (2 ^ n :: u64) = (2 ^ n :: u32)"
      by (rule bit_eqI) (use True in \<open>auto simp: bit_ucast_iff bit_exp_iff\<close>)
    with True show ?thesis by simp
  next
    case False
    have "ucast (2 ^ n :: u64) = (0 :: u32)"
      by (rule bit_eqI) (use False in \<open>auto simp: bit_ucast_iff bit_exp_iff\<close>)
    with False show ?thesis by simp
  qed
  ultimately have size: "ucast (NOT (NOT (mask n)) + 1 :: u64) = (if n < 32 then 2 ^ n else 0 :: u32)" by simp
  from run_mmio64 [OF assms(1) _ _ _ assms(3,5,6) refl refl, of ?pd] obtain k' where
    k': "run_state (mmio64 i ?bar ?high ?pd) k = (?pd\<lparr>MMIOBase := push_bit 32 (ucast ?high) OR ucast (?bar AND NOT 0xF),
      MMIOBarIndex := of_nat i, Is64BitPciDevice := True, MMIOSize := if n < 32 then 2 ^ n else 0\<rparr>, k')"
    "regs pc k' = regs pc k" unfolding assms(7) size by auto
  have "[i..<6] = i # [Suc i..<6]" using i(1) by (rule upt_conv_Cons)
  then have "PciGetDeviceMMIORegion ?pd k = Some (run_state (mmio64 i ?bar ?high ?pd) k)"
    unfolding PciGetDeviceMMIORegion_def mmio_loop_first [OF assms(2)]
    using i assms(3,4) by (simp add: bar_device)
  with k' show ?thesis by simp
qed

text \<open>A device with a 64-bit region of 8 GiB.\<close>

definition pci_demo64 :: pci_space where
  "pci_demo64 = \<lparr>power_on = (\<lambda>a. if a = 0x80001800 then 0x100E8086 else if a = 0x80001810 then 0x4
       else if a = 0x80001814 then 0x2 else 0),
     writable = (\<lambda>a. if a = 0x80001814 then NOT (mask 1) else 0)\<rparr>"

theorem pci_mmio64_witness:
  "\<exists>pd k'. PciGetDeviceMMIORegion (device_of (power_on pci_demo64) 0 3 0) (pci_machine pci_demo64) = Some (pd, k') \<and>
    MMIOBase pd = 0x200000000 \<and> MMIOSize pd = 0"
proof -
  have a: "bar_address 0 3 0 0 = 0x80001810" "bar_address 0 3 0 (0 + 1) = 0x80001814"
    by (simp_all add: bar_address_def config_address_def)
  have R: "power_on pci_demo64 0x80001810 = 4" "writable pci_demo64 0x80001810 = 0"
    "power_on pci_demo64 0x80001814 = 2" "writable pci_demo64 0x80001814 = NOT (mask 1)"
    by (simp_all add: pci_demo64_def)
  have 1: "first_memory_bar (regs pci_demo64 (pci_machine pci_demo64)) 0 3 0 0" "(0 :: nat) < 5"
    "regs pci_demo64 (pci_machine pci_demo64) (bar_address 0 3 0 0) AND 0x6 = 0x4"
    by (simp_all add: first_memory_bar_def a R)
  have 2: "memory_bar pci_demo64 (bar_address 0 3 0 0)"
    "power_on pci_demo64 (bar_address 0 3 0 (0 + 1)) AND NOT (writable pci_demo64 (bar_address 0 3 0 (0 + 1))) = 0"
    by (simp_all only: memory_bar_def a R) (simp_all add: mask_eq_exp_minus_1)
  have 3: "push_bit 32 (ucast (writable pci_demo64 (bar_address 0 3 0 (0 + 1)))) OR
      ucast (writable pci_demo64 (bar_address 0 3 0 0)) = (NOT (mask 33) :: u64)" "(33 :: nat) < 64"
    by (simp_all only: a R) (simp_all add: mask_eq_exp_minus_1)
  show ?thesis
    using pci_mmio64 [OF pci_machine_simps(1) 1 2 3] by (simp only: a R pci_machine_simps) auto
qed

end
