(* ===== verification/XHCI.thy ===== *)
theory XHCI
  imports PCI IDT
begin

text \<open>
  Model of the USB host controller driver, \<^verbatim>\<open>src/ASNU/src/Drivers/XHCI/driver.c\<close>. The registers of
  the controller are reached through volatile pointers: a bus records the accesses, and the device
  is a function from the accesses so far to the answers. The event ring is memory that the device
  writes too; the handler is given its contents. \<^verbatim>\<open>KiMMap\<close> and \<^verbatim>\<open>KiPicSendEoi\<close> are called by the
  driver and defined nowhere in the repository, so they are parameters.
\<close>

section \<open>State\<close>

definition XHCI_IRQ_VECTOR :: u8 where "XHCI_IRQ_VECTOR = 0x51"
definition XHCI_CAPLENGTH :: u64 where "XHCI_CAPLENGTH = 0x00"
definition XHCI_DBOFF :: u64 where "XHCI_DBOFF = 0x14"
definition XHCI_RTSOFF :: u64 where "XHCI_RTSOFF = 0x18"
definition XHCI_USBCMD :: u32 where "XHCI_USBCMD = 0x00"
definition XHCI_USBSTS :: u32 where "XHCI_USBSTS = 0x04"
definition XHCI_DCBAAP :: u32 where "XHCI_DCBAAP = 0x30"
definition XHCI_CONFIG :: u32 where "XHCI_CONFIG = 0x38"
definition XHCI_PORTSC_BASE :: u32 where "XHCI_PORTSC_BASE = 0x400"
definition XHCI_PORT_COUNT :: u8 where "XHCI_PORT_COUNT = 8"
definition XHCI_TRB_RING_SIZE :: nat where "XHCI_TRB_RING_SIZE = 16"
definition TRB_TYPE_PORT_STATUS_CHANGE :: u32 where "TRB_TYPE_PORT_STATUS_CHANGE = 0x20"
definition TRB_TYPE_TRANSFER_EVENT :: u32 where "TRB_TYPE_TRANSFER_EVENT = 0x21"

text \<open>\<open>trb_ring\<close> is the array \<^verbatim>\<open>ring\<close> of \<^verbatim>\<open>XHCI_TRB_RING_SIZE\<close> words.\<close>

record TrbRing_t =
  trb_ring :: "u64 list"
  ring_phys :: u64
  ring_cycle :: u8
  ring_index :: u64

record ErstEntry_t =
  RingSegmentBaseAddress :: u64
  RingSegmentSize :: u32
  erst_Reserved :: u32

record xhci =
  XhciMmioBase :: u64
  XhciRuntimeBase :: u64
  XhciDoorbellBase :: u64
  XhciIrqLine :: u8
  EventRing :: TrbRing_t
  ErstTable :: ErstEntry_t
  HaveKeyboard :: u8
  HaveMouse :: u8

section \<open>Memory-mapped registers\<close>

datatype mmio = MRead8 u64 | MRead32 u64 | MWrite32 u64 u32

record bus =
  accesses :: "mmio list"
  answer :: "mmio list \<Rightarrow> u64 \<Rightarrow> u32"

definition bus_read8 :: "u64 \<Rightarrow> bus \<Rightarrow> u8 \<times> bus" where
  "bus_read8 a b = (ucast (answer b (accesses b) a), b\<lparr>accesses := MRead8 a # accesses b\<rparr>)"

definition bus_read32 :: "u64 \<Rightarrow> bus \<Rightarrow> u32 \<times> bus" where
  "bus_read32 a b = (answer b (accesses b) a, b\<lparr>accesses := MRead32 a # accesses b\<rparr>)"

definition bus_write32 :: "u64 \<Rightarrow> u32 \<Rightarrow> bus \<Rightarrow> bus" where
  "bus_write32 a v b = b\<lparr>accesses := MWrite32 a v # accesses b\<rparr>"

definition MmioWrite32 :: "xhci \<Rightarrow> u32 \<Rightarrow> u32 \<Rightarrow> bus \<Rightarrow> bus" where
  "MmioWrite32 x offset val b = bus_write32 (XhciMmioBase x + ucast offset) val b"

definition MmioRead32 :: "xhci \<Rightarrow> u32 \<Rightarrow> bus \<Rightarrow> u32 \<times> bus" where
  "MmioRead32 x offset b = bus_read32 (XhciMmioBase x + ucast offset) b"

text \<open>\<^verbatim>\<open>iman[0] |= v\<close>: a read and a write of one register.\<close>

definition or_register :: "u64 \<Rightarrow> u32 \<Rightarrow> bus \<Rightarrow> bus" where
  "or_register a v b = (case bus_read32 a b of (r, b1) \<Rightarrow> bus_write32 a (r OR v) b1)"

section \<open>The interrupt handler\<close>

definition DecodePortSpeed :: "u32 \<Rightarrow> string" where
  "DecodePortSpeed speed =
     (if speed = 1 then ''Low Speed (1.5 Mbps)''
      else if speed = 2 then ''Full Speed (12 Mbps)''
      else if speed = 3 then ''High Speed (480 Mbps)''
      else if speed = 4 then ''SuperSpeed (5 Gbps)''
      else if speed = 5 then ''SuperSpeed+ (10 Gbps)''
      else ''Unknown'')"

definition LF :: string where "LF = [CHR 0x0A]"

text \<open>Reading the ring outside its array is \<open>None\<close>.\<close>

definition ring_at :: "TrbRing_t \<Rightarrow> u64 \<Rightarrow> u64 option" where
  "ring_at r i = (if unat i < length (trb_ring r) then Some (trb_ring r ! unat i) else None)"

text \<open>
  A port status change; the flag in the result says whether the handler goes on to acknowledge the
  event, or returns at once.
\<close>

definition port_status_change :: "u64 \<Rightarrow> xhci \<Rightarrow> bus \<Rightarrow> machine \<Rightarrow> (bool \<times> xhci \<times> bus \<times> machine) option" where
  "port_status_change trb0 x b k =
     (let portId = (ucast (drop_bit 24 trb0 AND 0xFF) :: u8)
      in if portId < 1 \<or> portId > XHCI_PORT_COUNT then Some (False, x, b, k)
         else case MmioRead32 x (XHCI_PORTSC_BASE + (ucast portId - 1) * 0x10) b of (portsc, b1) \<Rightarrow>
           let speed = drop_bit 10 portsc AND 0xF; connected = (ucast (portsc AND 1) :: u8)
           in if connected = 0 then Some (True, x, b1, k)
              else do {
                k1 \<leftarrow> printk_k (''USB Device attached at port %u, detected type: %s'' @ LF)
                       [VInt (ucast portId), VStr (DecodePortSpeed speed)] k;
                if speed = 3 then
                  if HaveKeyboard x \<noteq> 0 then Some (False, x, b1, k1)
                  else do {
                    k2 \<leftarrow> printk_k (''USB-Keyboard triggered IRQ.'' @ LF) [] k1;
                    Some (True, x\<lparr>HaveKeyboard := 1\<rparr>, b1, k2)
                  }
                else if speed = 2 then
                  if HaveMouse x \<noteq> 0 then Some (False, x, b1, k1)
                  else do {
                    k2 \<leftarrow> printk_k (''USB-Mouse triggered IRQ.'' @ LF) [] k1;
                    Some (True, x\<lparr>HaveMouse := 1\<rparr>, b1, k2)
                  }
                else Some (True, x, b1, k1)
              })"

definition advance_ring :: "TrbRing_t \<Rightarrow> TrbRing_t" where
  "advance_ring r =
     (let i = (ring_index r + 1) mod of_nat XHCI_TRB_RING_SIZE
      in r\<lparr>ring_index := i, ring_cycle := (if i = 0 then ring_cycle r XOR 1 else ring_cycle r)\<rparr>)"

definition XhciIrqHandler ::
  "(u8 \<Rightarrow> machine \<Rightarrow> machine) \<Rightarrow> xhci \<Rightarrow> bus \<Rightarrow> machine \<Rightarrow> (xhci \<times> bus \<times> machine) option" where
  "XhciIrqHandler KiPicSendEoi x b k =
     do {
       trb2 \<leftarrow> ring_at (EventRing x) (ring_index (EventRing x) + 2);
       let trbType = (ucast (drop_bit 10 trb2 AND 0x3F) :: u32);
       let cycle = (ucast (trb2 AND 1) :: u8);
       if cycle \<noteq> ring_cycle (EventRing x) then Some (x, b, k)
       else do {
         trb0 \<leftarrow> ring_at (EventRing x) (ring_index (EventRing x));
         (goes_on, x1, b1, k1) \<leftarrow>
           (if trbType = TRB_TYPE_PORT_STATUS_CHANGE then port_status_change trb0 x b k
            else if trbType = TRB_TYPE_TRANSFER_EVENT then
              map_option (\<lambda>k1. (True, x, b, k1))
                (printk_k (''Transfer Event. Data = %02X'' @ LF) [VInt (ucast (ucast (trb0 AND 0xFF) :: u8))] k)
            else Some (True, x, b, k));
         if \<not> goes_on then Some (x1, b1, k1)
         else
           let x2 = x1\<lparr>EventRing := advance_ring (EventRing x1)\<rparr>;
               b2 = or_register (XhciRuntimeBase x2 + 0x20) 0x1 b1
           in Some (x2, b2, KiPicSendEoi (XhciIrqLine x2) k1)
       }
     }"

section \<open>Initialisation\<close>

text \<open>The loop that maps the window of the registers onto itself.\<close>

partial_function (option) map_window ::
  "(u64 \<Rightarrow> u64 \<Rightarrow> u64 \<Rightarrow> mem \<Rightarrow> mem option) \<Rightarrow> u64 \<Rightarrow> u64 \<Rightarrow> mem \<Rightarrow> mem option" where
  "map_window KiMMap stop addr m =
     (if addr < stop then do {
        m1 \<leftarrow> KiMMap addr addr 3 m;
        map_window KiMMap stop (addr + 0x1000) m1
      } else Some m)"

text \<open>\<^verbatim>\<open>while (MmioRead32(XHCI_USBSTS) & 1);\<close>\<close>

partial_function (option) wait_status :: "xhci \<Rightarrow> bus \<Rightarrow> bus option" where
  "wait_status x b =
     (case MmioRead32 x XHCI_USBSTS b of (v, b1) \<Rightarrow>
        if v AND 1 \<noteq> 0 then wait_status x b1 else Some b1)"

text \<open>The addresses the linker chooses.\<close>

record xhci_link =
  addr_ring :: u64
  addr_erst :: u64
  addr_irq_handler :: u64

definition program_ring :: "xhci_link \<Rightarrow> xhci \<Rightarrow> bus \<Rightarrow> xhci \<times> bus" where
  "program_ring la x b =
     (let x1 = x\<lparr>EventRing := (EventRing x)\<lparr>ring_phys := addr_ring la, ring_cycle := 1, ring_index := 0\<rparr>\<rparr>;
          x2 = x1\<lparr>ErstTable := \<lparr>RingSegmentBaseAddress = ring_phys (EventRing x1),
                    RingSegmentSize = of_nat XHCI_TRB_RING_SIZE, erst_Reserved = 0\<rparr>\<rparr>;
          erstPhys = addr_erst la;
          interrupter = XhciRuntimeBase x2 + 0x20;
          b1 = bus_write32 interrupter (ucast erstPhys) b;
          b2 = bus_write32 (interrupter + 4) (ucast (drop_bit 32 erstPhys)) b1;
          b3 = bus_write32 (interrupter + 8) 1 b2;
          b4 = or_register (XhciRuntimeBase x2 + 0x20) 0x2 b3;
          b5 = MmioWrite32 x2 XHCI_DCBAAP 0 b4;
          b6 = MmioWrite32 x2 (XHCI_DCBAAP + 4) 0 b5;
          b7 = MmioWrite32 x2 XHCI_CONFIG 1 b6
      in case MmioRead32 x2 XHCI_USBCMD b7 of (v, b8) \<Rightarrow> (x2, MmioWrite32 x2 XHCI_USBCMD (v OR 1) b8))"

definition xHciInit ::
  "(u64 \<Rightarrow> u64 \<Rightarrow> u64 \<Rightarrow> mem \<Rightarrow> mem option) \<Rightarrow> xhci_link \<Rightarrow> PciDevice_t \<Rightarrow> xhci \<Rightarrow> bus \<Rightarrow> mem \<Rightarrow> machine
    \<Rightarrow> idt_state \<Rightarrow> (xhci \<times> bus \<times> mem \<times> machine \<times> idt_state) option" where
  "xHciInit KiMMap la UsbController x b m k s =
     do {
       let x1 = x\<lparr>XhciMmioBase := MMIOBase UsbController, XhciIrqLine := interrupt_line UsbController\<rparr>;
       let base = XhciMmioBase x1;
       m1 \<leftarrow> map_window KiMMap (base + 0x10000) base m;
       let (capLength, b1) = bus_read8 (base + XHCI_CAPLENGTH) b;
       let (dboff, b2) = bus_read32 (base + XHCI_DBOFF) b1;
       let (rtsoff, b3) = bus_read32 (base + XHCI_RTSOFF) b2;
       let x2 = x1\<lparr>XhciRuntimeBase := base + ucast (rtsoff AND NOT 0x1F),
                   XhciDoorbellBase := base + ucast (dboff AND NOT 0x3)\<rparr>;
       k1 \<leftarrow> printk_k (''xHCI MMIO = %p, RT = %p, DB = %p, IRQ = %u'' @ LF)
              [VInt (XhciMmioBase x2), VInt (XhciRuntimeBase x2), VInt (XhciDoorbellBase x2),
               VInt (ucast (XhciIrqLine x2))] k;
       let (v, b4) = MmioRead32 x2 XHCI_USBCMD b3;
       let b5 = MmioWrite32 x2 XHCI_USBCMD (v AND NOT 1) b4;
       b6 \<leftarrow> wait_status x2 b5;
       let (x3, b7) = program_ring la x2 b6;
       let s1 = idt_set_desc XHCI_IRQ_VECTOR (addr_irq_handler la) 0x8E s;
       k2 \<leftarrow> idt_irq_clear_mask XHCI_IRQ_VECTOR k1;
       k3 \<leftarrow> printk_k (''xHCI controller started'' @ LF) [] k2;
       Some (x3, b7, m1, k3, s1)
     }"

end
