(* ===== verification/XHCI_Spec.thy ===== *)
theory XHCI_Spec
  imports XHCI IDT_Spec
begin

text \<open>
  The USB driver: when its handler makes progress through the event ring and when it is stuck at an
  event for ever, where it reads outside the ring, and when its initialisation can return.
\<close>

section \<open>Formats\<close>

lemma usb_attached_format:
  "format_text (''USB Device attached at port %u, detected type: %s'' @ LF) [VInt v, VStr t] \<noteq> None"
proof -
  have "format_text ('', detected type: %s'' @ LF) [VStr t] \<noteq> None"
    using format_text_s [of "'', detected type: ''" LF t "[]"] by (simp add: LF_def NUL_def)
  then show ?thesis
    using format_text_append_literal [of "''USB Device attached at port ''" "''%u, detected type: %s'' @ LF" "[VInt v, VStr t]"]
    by (auto simp: directive_text_def specifier_text_def parse_width_def
      parse_precision_def parse_length_def peek_def is_digit_def int_specifier_def NUL_def Let_def
      split: option.splits)
qed

lemma usb_transfer_format:
  "format_text (''Transfer Event. Data = %02X'' @ LF) [VInt v] \<noteq> None"
proof -
  have "format_text LF [] \<noteq> None" by (simp add: LF_def NUL_def)
  then show ?thesis
    using format_text_append_literal [of "''Transfer Event. Data = ''" "''%02X'' @ LF" "[VInt v]"]
    by (auto simp: directive_text_def specifier_text_def parse_width_def
      parse_precision_def parse_length_def peek_def is_digit_def int_specifier_def NUL_def Let_def
      split: option.splits)
qed

lemma usb_plain_formats:
  "format_text (''USB-Keyboard triggered IRQ.'' @ LF) [] \<noteq> None"
  "format_text (''USB-Mouse triggered IRQ.'' @ LF) [] \<noteq> None"
  "format_text (''xHCI controller started'' @ LF) [] \<noteq> None"
  by (simp_all add: LF_def NUL_def)

text \<open>Printing changes the console only.\<close>

lemma printk_k_console:
  assumes "format_text fmt va \<noteq> None"
  obtains con where "printk_k fmt va k = Some (k\<lparr>console := con\<rparr>)"
  using assms by (auto simp: printk_k_def printk_text)

section \<open>The handler\<close>

text \<open>
  The word the handler takes an event's type and cycle bit from, and the events it returns from
  before it acknowledges them: ports out of range, and a second device of a speed seen before.
\<close>

definition event_type :: "u64 \<Rightarrow> u32" where
  "event_type w = ucast (drop_bit 10 w AND 0x3F)"

definition event_port :: "u64 \<Rightarrow> u8" where
  "event_port w = ucast (drop_bit 24 w AND 0xFF)"

definition port_status :: "xhci \<Rightarrow> bus \<Rightarrow> u64 \<Rightarrow> u32" where
  "port_status x b w = fst (MmioRead32 x (XHCI_PORTSC_BASE + (ucast (event_port w) - 1) * 0x10) b)"

definition stalls :: "xhci \<Rightarrow> bus \<Rightarrow> u64 \<Rightarrow> u64 \<Rightarrow> bool" where
  "stalls x b trb0 trb2 \<longleftrightarrow> event_type trb2 = 0x20 \<and>
     (event_port trb0 < 1 \<or> event_port trb0 > 8 \<or>
      (let p = port_status x b trb0; speed = drop_bit 10 p AND 0xF
       in p AND 1 \<noteq> 0 \<and> (speed = 3 \<and> HaveKeyboard x \<noteq> 0 \<or> speed = 2 \<and> HaveMouse x \<noteq> 0)))"

lemma connected_iff: "(ucast (p AND 1 :: u32) :: u8) = 0 \<longleftrightarrow> p AND 1 = 0"
proof -
  have "p AND 1 = 0 \<or> p AND 1 = 1" by (simp add: and_one_eq mod_2_eq_odd)
  then show ?thesis by auto
qed

lemma port_status_change_outcome:
  assumes "event_type trb2 = 0x20"
  shows "\<exists>x' b' con. port_status_change trb0 x b k = Some (\<not> stalls x b trb0 trb2, x', b', k\<lparr>console := con\<rparr>) \<and>
    EventRing x' = EventRing x \<and> XhciIrqLine x' = XhciIrqLine x \<and> XhciRuntimeBase x' = XhciRuntimeBase x \<and>
    (stalls x b trb0 trb2 \<longrightarrow> x' = x)"
proof (cases "event_port trb0 < 1 \<or> event_port trb0 > 8")
  case True
  then show ?thesis
    using assms by (auto intro!: exI [of _ "console k"] simp: port_status_change_def stalls_def event_port_def XHCI_PORT_COUNT_def Let_def)
next
  case False
  let ?r = "MmioRead32 x (XHCI_PORTSC_BASE + (ucast (event_port trb0) - 1) * 0x10) b"
  obtain p b1 where p: "?r = (p, b1)" by fastforce
  then have ps: "port_status x b trb0 = p" by (simp add: port_status_def)
  let ?speed = "drop_bit 10 p AND 0xF"
  obtain con1 where c1: "printk_k (''USB Device attached at port %u, detected type: %s'' @ LF)
      [VInt (ucast (event_port trb0)), VStr (DecodePortSpeed ?speed)] k = Some (k\<lparr>console := con1\<rparr>)"
    by (rule printk_k_console [OF usb_attached_format])
  obtain con2 where c2: "printk_k (''USB-Keyboard triggered IRQ.'' @ LF) [] (k\<lparr>console := con1\<rparr>) = Some (k\<lparr>console := con2\<rparr>)"
    by (rule printk_k_console [OF usb_plain_formats(1), of "k\<lparr>console := con1\<rparr>"]) simp
  obtain con3 where c3: "printk_k (''USB-Mouse triggered IRQ.'' @ LF) [] (k\<lparr>console := con1\<rparr>) = Some (k\<lparr>console := con3\<rparr>)"
    by (rule printk_k_console [OF usb_plain_formats(2), of "k\<lparr>console := con1\<rparr>"]) simp
  have same: "\<exists>con. k = k\<lparr>console := con\<rparr>" by (rule exI [of _ "console k"]) simp
  have e: "port_status_change trb0 x b k =
      (if p AND 1 = 0 then Some (True, x, b1, k\<lparr>console := console k\<rparr>)
       else if ?speed = 3 then
         if HaveKeyboard x \<noteq> 0 then Some (False, x, b1, k\<lparr>console := con1\<rparr>)
         else Some (True, x\<lparr>HaveKeyboard := 1\<rparr>, b1, k\<lparr>console := con2\<rparr>)
       else if ?speed = 2 then
         if HaveMouse x \<noteq> 0 then Some (False, x, b1, k\<lparr>console := con1\<rparr>)
         else Some (True, x\<lparr>HaveMouse := 1\<rparr>, b1, k\<lparr>console := con3\<rparr>)
       else Some (True, x, b1, k\<lparr>console := con1\<rparr>))"
    using False p c1 c2 c3
    by (simp add: port_status_change_def event_port_def [symmetric] XHCI_PORT_COUNT_def Let_def connected_iff)
  show ?thesis
    using assms False unfolding e stalls_def ps Let_def by (auto simp: same)
qed

text \<open>One run of the handler, when the ring has a word at \<open>index\<close> and at \<open>index + 2\<close>.\<close>

lemma handler_outcome:
  assumes "ring_at (EventRing x) (ring_index (EventRing x)) = Some trb0"
    and "ring_at (EventRing x) (ring_index (EventRing x) + 2) = Some trb2"
    and "(ucast (trb2 AND 1) :: u8) = ring_cycle (EventRing x)"
  shows "\<exists>x' b' con. XhciIrqHandler eoi x b k =
      Some (x', b', if stalls x b trb0 trb2 then k\<lparr>console := con\<rparr> else eoi (XhciIrqLine x) (k\<lparr>console := con\<rparr>)) \<and>
    EventRing x' = (if stalls x b trb0 trb2 then EventRing x else advance_ring (EventRing x)) \<and>
    (stalls x b trb0 trb2 \<longrightarrow> x' = x)"
proof (cases "event_type trb2 = 0x20")
  case True
  obtain x' b' con where "port_status_change trb0 x b k =
      Some (\<not> stalls x b trb0 trb2, x', b', k\<lparr>console := con\<rparr>)"
    "EventRing x' = EventRing x" "XhciIrqLine x' = XhciIrqLine x" "stalls x b trb0 trb2 \<longrightarrow> x' = x"
    using port_status_change_outcome [OF True, of trb0 x b k] by blast
  with assms True show ?thesis
    by (auto simp: XhciIrqHandler_def event_type_def TRB_TYPE_PORT_STATUS_CHANGE_def Let_def)
next
  case False
  have s: "\<not> stalls x b trb0 trb2" using False by (simp add: stalls_def)
  have same: "k\<lparr>console := console k\<rparr> = k" by simp
  obtain con where p: "printk_k (''Transfer Event. Data = %02X'' @ LF) [VInt (ucast (ucast (trb0 AND 0xFF) :: u8))] k =
      Some (k\<lparr>console := con\<rparr>)"
    by (rule printk_k_console [OF usb_transfer_format])
  show ?thesis
  proof (cases "event_type trb2 = TRB_TYPE_TRANSFER_EVENT")
    case True
    with assms False s p show ?thesis
      by (auto simp: XhciIrqHandler_def event_type_def TRB_TYPE_PORT_STATUS_CHANGE_def Let_def)
  next
    case other: False
    with assms False s show ?thesis
      by (auto intro!: exI [of _ "console k"]
          simp: XhciIrqHandler_def event_type_def TRB_TYPE_PORT_STATUS_CHANGE_def Let_def same)
  qed
qed

text \<open>At the last two indices the handler reads its event outside the ring.\<close>

lemma handler_overrun:
  assumes "length (trb_ring (EventRing x)) = 16" and "14 \<le> ring_index (EventRing x)" and "ring_index (EventRing x) < 16"
  shows "XhciIrqHandler eoi x b k = None"
proof -
  have "unat (ring_index (EventRing x) + 2) = unat (ring_index (EventRing x)) + 2"
    using assms(3) by (simp add: unat_word_ariths word_less_nat_alt)
  with assms show ?thesis by (simp add: XhciIrqHandler_def ring_at_def word_le_nat_alt)
qed

section \<open>Initialisation\<close>

text \<open>The polls of \<^verbatim>\<open>wait_status\<close> are consecutive reads of one register.\<close>

definition polls :: "xhci \<Rightarrow> nat \<Rightarrow> bus \<Rightarrow> bus" where
  "polls x n b = ((\<lambda>b. snd (MmioRead32 x XHCI_USBSTS b)) ^^ n) b"

definition halted_at :: "xhci \<Rightarrow> bus \<Rightarrow> nat \<Rightarrow> bool" where
  "halted_at x b n \<longleftrightarrow> fst (MmioRead32 x XHCI_USBSTS (polls x n b)) AND 1 \<noteq> 0"

lemma polls_Suc: "polls x (Suc n) b = polls x n (snd (MmioRead32 x XHCI_USBSTS b))"
  by (simp add: polls_def funpow_Suc_right del: funpow.simps)

lemma wait_status_returns:
  "\<not> halted_at x b n \<Longrightarrow> wait_status x b \<noteq> None"
proof (induction n arbitrary: b)
  case 0
  then show ?case by (subst wait_status.simps) (auto simp: halted_at_def polls_def split: prod.splits)
next
  case (Suc n)
  then have "\<not> halted_at x (snd (MmioRead32 x XHCI_USBSTS b)) n" by (simp add: halted_at_def polls_Suc)
  with Suc.IH show ?case by (subst wait_status.simps) (auto split: prod.splits)
qed

lemma wait_status_first:
  assumes "wait_status x b = Some b'"
  shows "\<exists>n. \<not> halted_at x b n"
proof -
  have "(case (x, b) of (x, b) \<Rightarrow> \<lambda>_ :: bus. \<exists>n. \<not> halted_at x b n) b'"
  proof (rule wait_status.raw_induct)
    show "(case (x, b) of (x, b) \<Rightarrow> wait_status x b) = Some b'" using assms by simp
  next
  fix wait x b b'
  assume IH: "\<And>x b b'. wait x b = Some b' \<Longrightarrow> \<exists>n. \<not> halted_at x b n"
    and body: "(case MmioRead32 x XHCI_USBSTS b of (v, b1) \<Rightarrow> if v AND 1 \<noteq> 0 then wait x b1 else Some b1) = Some b'"
  obtain v b1 where r: "MmioRead32 x XHCI_USBSTS b = (v, b1)" by fastforce
  show "\<exists>n. \<not> halted_at x b n"
  proof (cases "v AND 1 = 0")
    case True
    then have "\<not> halted_at x b 0" using r by (simp add: halted_at_def polls_def)
    then show ?thesis ..
  next
    case False
    with body r have "wait x b1 = Some b'" by simp
    from IH [OF this] obtain n where "\<not> halted_at x b1 n" ..
    then have "\<not> halted_at x b (Suc n)" using r by (simp add: halted_at_def polls_Suc)
    then show ?thesis ..
  qed
  qed
  then show ?thesis by simp
qed

lemma wait_status_iff: "wait_status x b = None \<longleftrightarrow> (\<forall>n. halted_at x b n)"
  using wait_status_returns wait_status_first by (metis not_None_eq)

text \<open>The mapping loop visits the sixteen pages of the window, unless the window reaches the end of the address space.\<close>

lemma map_window_pages:
  assumes "unat addr + n * 4096 < 2 ^ 64"
  shows "map_window KiMMap (addr + of_nat n * 0x1000) addr m =
    fold (\<lambda>a r. r \<bind> KiMMap a a 3) (map (\<lambda>i. addr + of_nat i * 0x1000) [0..<n]) (Some m)"
  using assms
proof (induction n arbitrary: addr m)
  case 0
  then show ?case by (subst map_window.simps) simp
next
  case (Suc n)
  let ?stop = "addr + of_nat (Suc n) * 0x1000"
  have u: "unat ?stop = unat addr + Suc n * 4096"
  proof -
    have "?stop = addr + of_nat (Suc n * 4096)" by simp
    then show ?thesis
      using Suc.prems by (simp only: unat_offset [where n = "Suc (Suc n * 4096)"] Suc_leI add_Suc_right lessI)
  qed
  have "unat (addr + 0x1000) = unat addr + 4096" using Suc.prems by (simp add: unat_word_ariths)
  then have n: "unat (addr + 0x1000) + n * 4096 < 2 ^ 64" using Suc.prems by simp
  have none: "fold (\<lambda>a r. r \<bind> KiMMap a a 3) as None = None" for as by (induction as) simp_all
  have e: "addr + 0x1000 + of_nat n * 0x1000 = ?stop" by (simp add: algebra_simps)
  have l: "map (\<lambda>i. addr + of_nat i * 0x1000) [0..<Suc n] = addr # map (\<lambda>i. addr + 0x1000 + of_nat i * 0x1000) [0..<n]"
    by (simp add: map_upt_Suc algebra_simps del: upt_Suc)
  have "addr < ?stop" using u by (simp add: word_less_nat_alt)
  then show ?case
    unfolding l using Suc.IH [OF n, unfolded e]
    by (subst map_window.simps) (cases "KiMMap addr addr 3 m"; simp add: none)
qed

text \<open>Unmasking the line: the driver passes its vector, 81, where the function wants a line below 16.\<close>

lemma clear_vector_mask: "idt_irq_clear_mask XHCI_IRQ_VECTOR k = None"
  by (simp add: idt_irq_clear_mask_def irq_port_def XHCI_IRQ_VECTOR_def irq_bit_def split: prod.splits)

section \<open>Properties\<close>


text \<open>A keyboard is known, and one is reported again at port 1.\<close>

definition xhci_demo :: "u8 \<Rightarrow> xhci" where
  "xhci_demo keyboard = \<lparr>XhciMmioBase = 0x10000, XhciRuntimeBase = 0x12000, XhciDoorbellBase = 0x13000, XhciIrqLine = 11,
     EventRing = \<lparr>trb_ring = [0x1000000, 0, 0x8001] @ replicate 13 0, ring_phys = 0, ring_cycle = 1, ring_index = 0\<rparr>,
     ErstTable = \<lparr>RingSegmentBaseAddress = 0, RingSegmentSize = 16, erst_Reserved = 0\<rparr>,
     HaveKeyboard = keyboard, HaveMouse = 0\<rparr>"

definition bus_demo :: bus where
  "bus_demo = \<lparr>accesses = [], answer = (\<lambda>_ _. 0xC01)\<rparr>"

lemma demo_stalls: "stalls (xhci_demo v) bus_demo 0x1000000 0x8001 \<longleftrightarrow> v \<noteq> 0"
  by (simp add: stalls_def event_type_def event_port_def port_status_def MmioRead32_def bus_read32_def bus_demo_def
      xhci_demo_def drop_bit_eq_div Let_def)


end
