(* ===== verification/GDT.thy ===== *)
theory GDT
  imports Prelude
begin

text \<open>
  Model of \<^verbatim>\<open>src/ASNU/src/GDT\<close>: the table of segment descriptors, its initial value and its
  loading, and the processor's reading of a descriptor. The assembly routine \<^verbatim>\<open>load_gdt\<close>
  loads the table register and then the segment registers.
\<close>

section \<open>The table\<close>

record GDTEntry =
  Limit0 :: u16
  Base0 :: u16
  Base1 :: u8
  AccessByte :: u8
  Limit1_Flags :: u8
  Base2 :: u8

text \<open>The structure \<^verbatim>\<open>GDT\<close>: its six entries in order.\<close>

record GDT_t =
  NullEntry :: GDTEntry
  KernelCode :: GDTEntry
  KernelData :: GDTEntry
  UserNull :: GDTEntry
  UserCode :: GDTEntry
  UserData :: GDTEntry

definition gdt_entry :: "u16 \<Rightarrow> u16 \<Rightarrow> u8 \<Rightarrow> u8 \<Rightarrow> u8 \<Rightarrow> u8 \<Rightarrow> GDTEntry" where
  "gdt_entry l b0 b1 acc fl b2 =
     \<lparr>Limit0 = l, Base0 = b0, Base1 = b1, AccessByte = acc, Limit1_Flags = fl, Base2 = b2\<rparr>"

definition DefaultGDT :: GDT_t where
  "DefaultGDT = \<lparr>NullEntry = gdt_entry 0 0 0 0x00 0x00 0,
     KernelCode = gdt_entry 0 0 0 0x9A 0x20 0,
     KernelData = gdt_entry 0 0 0 0x92 0x20 0,
     UserNull = gdt_entry 0 0 0 0x00 0x00 0,
     UserCode = gdt_entry 0 0 0 0xFA 0x20 0,
     UserData = gdt_entry 0 0 0 0xF2 0x20 0\<rparr>"

text \<open>The structure is aligned to \<^verbatim>\<open>0x1000\<close>, so its size is a multiple of that.\<close>

definition sizeof_GDT :: nat where
  "sizeof_GDT = 4096"

record GDTDescriptor =
  gdt_Size :: u16
  gdt_Offset :: u64

text \<open>The processor's table register and segment selectors.\<close>

record segments =
  gdtr :: "GDTDescriptor option"
  sel_cs :: u16
  sel_ds :: u16
  sel_es :: u16
  sel_fs :: u16
  sel_gs :: u16
  sel_ss :: u16

definition load_gdt :: "GDTDescriptor \<Rightarrow> segments \<Rightarrow> segments" where
  "load_gdt d s = s\<lparr>gdtr := Some d, sel_ds := 0x10, sel_es := 0x10, sel_fs := 0x10, sel_gs := 0x10,
     sel_ss := 0x10, sel_cs := 0x08\<rparr>"

definition gdt_init :: "u64 \<Rightarrow> segments \<Rightarrow> segments" where
  "gdt_init addr_DefaultGDT s =
     load_gdt \<lparr>gdt_Size = of_nat (sizeof_GDT - 1), gdt_Offset = addr_DefaultGDT\<rparr> s"

section \<open>The processor's view\<close>

text \<open>
  A descriptor as it lies in memory, and what 64-bit mode reads from it: present, the
  privilege level, whether it is code, and the long-mode bit. A selector is the offset of a
  descriptor, with the requested privilege in its lowest bits.
\<close>

definition gdt_entries :: "GDT_t \<Rightarrow> GDTEntry list" where
  "gdt_entries g = [NullEntry g, KernelCode g, KernelData g, UserNull g, UserCode g, UserData g]"

definition descriptor :: "GDTEntry \<Rightarrow> u64" where
  "descriptor e = ucast (Limit0 e) OR push_bit 16 (ucast (Base0 e)) OR push_bit 32 (ucast (Base1 e)) OR
     push_bit 40 (ucast (AccessByte e)) OR push_bit 48 (ucast (Limit1_Flags e)) OR push_bit 56 (ucast (Base2 e))"

definition selected :: "GDT_t \<Rightarrow> u16 \<Rightarrow> u64 option" where
  "selected g sel = (let i = unat (drop_bit 3 sel) in if i < 6 then Some (descriptor (gdt_entries g ! i)) else None)"

definition seg_present :: "u64 \<Rightarrow> bool" where "seg_present d \<longleftrightarrow> bit d 47"
definition seg_dpl :: "u64 \<Rightarrow> u64" where "seg_dpl d = drop_bit 45 d AND 3"
definition seg_code :: "u64 \<Rightarrow> bool" where "seg_code d \<longleftrightarrow> bit d 44 \<and> bit d 43"
definition seg_writable_data :: "u64 \<Rightarrow> bool" where "seg_writable_data d \<longleftrightarrow> bit d 44 \<and> \<not> bit d 43 \<and> bit d 41"
definition seg_long :: "u64 \<Rightarrow> bool" where "seg_long d \<longleftrightarrow> bit d 53 \<and> \<not> bit d 54"

lemmas seg_defs = seg_present_def seg_dpl_def seg_code_def seg_writable_data_def seg_long_def

text \<open>After \<^verbatim>\<open>gdt_init\<close> the code runs in a present 64-bit ring 0 code segment, with writable ring 0
  data segments; the two user selectors name ring 3 segments.\<close>

lemma gdt_init_segments:
  fixes a :: u64 and s :: segments
  defines "s' \<equiv> gdt_init a s"
  shows "\<exists>d. selected DefaultGDT (sel_cs s') = Some d \<and> seg_present d \<and> seg_dpl d = 0 \<and> seg_code d \<and> seg_long d"
    and "sel_ss s' = sel_ds s' \<and> (\<exists>d. selected DefaultGDT (sel_ss s') = Some d \<and> seg_present d \<and> seg_dpl d = 0 \<and>
        seg_writable_data d)"
    and "\<exists>d. selected DefaultGDT 0x23 = Some d \<and> seg_present d \<and> seg_dpl d = 3 \<and> seg_code d \<and> seg_long d"
    and "\<exists>d. selected DefaultGDT 0x2B = Some d \<and> seg_present d \<and> seg_dpl d = 3 \<and> seg_writable_data d"
    and "\<exists>d. gdtr s' = Some d \<and> gdt_Offset d = a \<and> gdt_Size d = 0xFFF"
  by (simp_all add: s'_def gdt_init_def load_gdt_def selected_def Let_def gdt_entries_def DefaultGDT_def
      gdt_entry_def descriptor_def seg_defs drop_bit_eq_div sizeof_GDT_def push_bit_eq_mult)

end
