(* ===== verification/Kernel.thy ===== *)
theory Kernel
  imports IDT PIT GDT
begin

text \<open>
  Model of the kernel's entry, \<^verbatim>\<open>src/ASNU/src/init.c\<close>, and of the terminal context it sets
  (\<^verbatim>\<open>src/ASNU/temp-src/ftctx_setup.c\<close>). The boot loader's answers are a parameter, and so are the
  addresses of code and data that the linker chooses and the context that
  \<^verbatim>\<open>flanterm_fb_init\<close> returns. The state of the kernel is the product of the states of its
  components; \<^verbatim>\<open>kmain\<close> runs their initialisations in the order of the source.
\<close>

section \<open>The boot loader's answers\<close>

datatype memmap_type =
    LIMINE_MEMMAP_USABLE
  | LIMINE_MEMMAP_RESERVED
  | LIMINE_MEMMAP_ACPI_RECLAIMABLE
  | LIMINE_MEMMAP_ACPI_NVS
  | LIMINE_MEMMAP_BAD_MEMORY
  | LIMINE_MEMMAP_BOOTLOADER_RECLAIMABLE
  | LIMINE_MEMMAP_KERNEL_AND_MODULES
  | LIMINE_MEMMAP_FRAMEBUFFER

record memmap_entry =
  mm_base :: u64
  mm_length :: u64
  mm_type :: memmap_type

text \<open>A response is \<open>None\<close> when its pointer is null.\<close>

record boot_info =
  base_revision_supported :: bool
  framebuffer_count :: "u64 option"
  memmap :: "memmap_entry list option"
  hhdm_offset :: "u64 option"
  ft_ctx :: u64
  links :: link_addresses
  addr_DefaultGDT :: u64
  addr_proc0 :: u64
  addr_proc1 :: u64
  cr3_reg :: u64

section \<open>The state of the kernel\<close>

record kernel =
  k_mem :: mem
  k_io :: machine
  k_pm :: PmmFile
  k_vmm :: vmm_state
  k_seg :: segments
  k_pit :: pit
  k_idt :: idt_state
  k_sched :: sched
  k_kbd :: kbd
  global_ft_ctx :: u64

definition SetGlobalFtCtx :: "u64 \<Rightarrow> kernel \<Rightarrow> kernel" where
  "SetGlobalFtCtx ctx s = s\<lparr>global_ft_ctx := ctx\<rparr>"

definition GetGlobalFtCtx :: "kernel \<Rightarrow> u64" where
  "GetGlobalFtCtx s = global_ft_ctx s"

section \<open>The scan of the memory map\<close>

text \<open>The local variables of the loop; the two indices are \<^verbatim>\<open>int\<close>s that start at -1.\<close>

record memscan =
  LargestEntry :: int
  SecondLargestEntry :: int
  BaseLargestEntry :: u64
  BaseSecondLargestEntry :: u64
  TotalMemory :: u64
  TotalUsableMemory :: u64
  TotalReservedMemory :: u64
  TotalPmmMemory :: u64

definition scan_start :: memscan where
  "scan_start = \<lparr>LargestEntry = - 1, SecondLargestEntry = - 1, BaseLargestEntry = 0, BaseSecondLargestEntry = 0,
     TotalMemory = 0, TotalUsableMemory = 0, TotalReservedMemory = 0, TotalPmmMemory = 0\<rparr>"

definition scan_step :: "memmap_entry list \<Rightarrow> nat \<Rightarrow> memscan \<Rightarrow> memscan" where
  "scan_step es i s =
     (let e = es ! i;
          s1 = (if LargestEntry s = - 1 \<or> mm_length e > mm_length (es ! nat (LargestEntry s)) then
                  if mm_type e = LIMINE_MEMMAP_USABLE then
                    s\<lparr>SecondLargestEntry := LargestEntry s, LargestEntry := int i, TotalPmmMemory := mm_length e,
                      BaseSecondLargestEntry := BaseLargestEntry s, BaseLargestEntry := mm_base e\<rparr>
                  else s
                else s);
          s2 = s1\<lparr>TotalMemory := TotalMemory s1 + mm_length e\<rparr>
      in if mm_type e = LIMINE_MEMMAP_USABLE
         then s2\<lparr>TotalUsableMemory := TotalUsableMemory s2 + mm_length e\<rparr> else s2)"

fun scan_loop :: "memmap_entry list \<Rightarrow> nat list \<Rightarrow> memscan \<Rightarrow> machine \<Rightarrow> (memscan \<times> machine) option" where
  "scan_loop es [] s k = Some (s, k)"
| "scan_loop es (i # is) s k =
     do {
       k1 \<leftarrow> (if mm_type (es ! i) = LIMINE_MEMMAP_BOOTLOADER_RECLAIMABLE
              then serial_fwrite ''Detected a bootloader reclaimable memory region at %p with length %llu bytes''
                     [VInt (mm_base (es ! i)), VInt (mm_length (es ! i))] k
              else Some k);
       scan_loop es is (scan_step es i s) k1
     }"

text \<open>\<^verbatim>\<open>entries[i]\<close> with a signed index: reading outside the array is \<open>None\<close>.\<close>

definition entry_at :: "memmap_entry list \<Rightarrow> int \<Rightarrow> memmap_entry option" where
  "entry_at es i = (if 0 \<le> i \<and> nat i < length es then Some (es ! nat i) else None)"

section \<open>The first processes\<close>

text \<open>The bodies of \<^verbatim>\<open>proc0\<close> and \<^verbatim>\<open>proc1\<close>, which differ in their name.\<close>

fun count_loop :: "string \<Rightarrow> nat list \<Rightarrow> machine \<Rightarrow> machine option" where
  "count_loop name [] k = Some k"
| "count_loop name (i # is) k =
     do {
       k1 \<leftarrow> (if i mod 1000 = 0 then serial_fwrite (name @ '' counted to: %d'' @ LFCR) [VInt (of_nat i)] k else Some k);
       count_loop name is k1
     }"

definition proc_body :: "string \<Rightarrow> machine \<Rightarrow> machine option" where
  "proc_body name k =
     do {
       k1 \<leftarrow> count_loop name [0..<10000000] k;
       serial_fwrite (name @ '' finished counting.'' @ LFCR) [] k1
     }"

definition proc0 :: "machine \<Rightarrow> machine option" where "proc0 k = proc_body ''Proc0'' k"
definition proc1 :: "machine \<Rightarrow> machine option" where "proc1 k = proc_body ''Proc1'' k"

definition test_sched :: "boot_info \<Rightarrow> PmmFile \<Rightarrow> sched \<Rightarrow> mem \<Rightarrow> (sched \<times> mem) option" where
  "test_sched bi pm s m =
     (case palloc pm m of (stack0_base, m1) \<Rightarrow>
      case palloc pm m1 of (heap0_base, m2) \<Rightarrow>
      case palloc pm m2 of (stack1_base, m3) \<Rightarrow>
      case palloc pm m3 of (heap1_base, m4) \<Rightarrow>
      case create_proc pm (addr_proc0 bi) 0 stack0_base 4096 s m4 of (proc0_ptr, s1, m5) \<Rightarrow>
      case create_proc pm (addr_proc1 bi) 0 stack1_base 4096 s1 m5 of (proc1_ptr, s2, m6) \<Rightarrow>
      do {
        s3 \<leftarrow> register_proc proc0_ptr s2;
        s4 \<leftarrow> register_proc proc1_ptr s3;
        Some (s4, m6)
      })"

section \<open>Boot\<close>

text \<open>
  \<open>Hung\<close>: \<^verbatim>\<open>hcf\<close> because the boot loader lacks something. \<open>Idle\<close>: \<^verbatim>\<open>hcf\<close> at the end, where the
  interrupts take over. \<open>None\<close>: a fault on the way.
\<close>

datatype boot = Hung | Idle kernel

text \<open>What follows the scan: the components are initialised one after the other.\<close>

definition kmain_rest ::
  "boot_info \<Rightarrow> kernel \<Rightarrow> memmap_entry list \<Rightarrow> u64 \<Rightarrow> memscan \<Rightarrow> machine \<Rightarrow> boot option" where
  "kmain_rest bi s1 es off sc k4 =
     do {
       let base1 = BaseLargestEntry sc + off;
       let base2 = BaseSecondLargestEntry sc + off;
       e1 \<leftarrow> entry_at es (LargestEntry sc);
       e2 \<leftarrow> entry_at es (SecondLargestEntry sc);
       (pm, m1, k5) \<leftarrow> pmm_init 1 base1 (mm_length e1) base2 (mm_length e2)
          (TotalMemory sc) (TotalUsableMemory sc) (TotalReservedMemory sc) (k_mem s1) k4;
       (vs, m2) \<leftarrow> vmm_init pm (cr3_reg bi) m1;
       let sg = gdt_init (addr_DefaultGDT bi) (k_seg s1);
       (pt, k6) \<leftarrow> pit_init 100 (k_pit s1) k5;
       (ids, k7) \<leftarrow> idt_init (links bi) (k_idt s1) k6;
       let sch = scheduler_init (k_sched s1);
       (sch1, m3) \<leftarrow> test_sched bi pm sch m2;
       Some (Idle (s1\<lparr>k_mem := m3, k_io := k7, k_pm := pm, k_vmm := vs, k_seg := sg, k_pit := pt,
         k_idt := ids, k_sched := sch1\<rparr>))
     }"

definition kmain :: "boot_info \<Rightarrow> kernel \<Rightarrow> boot option" where
  "kmain bi s0 =
     (if \<not> base_revision_supported bi then Some Hung
      else if framebuffer_count bi = None \<or> the (framebuffer_count bi) < 1 then Some Hung
      else if memmap bi = None \<or> length (the (memmap bi)) < 1 then Some Hung
      else if hhdm_offset bi = None \<or> the (hhdm_offset bi) = 0 then Some Hung
      else
        let es = the (memmap bi); off = the (hhdm_offset bi); s1 = SetGlobalFtCtx (ft_ctx bi) s0
        in do {
          k1 \<leftarrow> serial_fwrite ''ASNU Booted'' [] (k_io s1);
          k2 \<leftarrow> serial_fwrite ''HHDM Offset: %p'' [VInt off] k1;
          k3 \<leftarrow> serial_fwrite ''Enumerating memory map entries'' [] k2;
          (sc, k4) \<leftarrow> scan_loop es [0..<length es] scan_start k3;
          kmain_rest bi s1 es off sc k4
        })"

end
