(* ===== verification/Kernel_Spec.thy ===== *)
theory Kernel_Spec
  imports Kernel IDT_Spec PIT_Spec
begin

text \<open>
  Correctness of the kernel's entry: which regions the scan of the memory map picks, and the
  composition of the components, that is, what the machine looks like when \<^verbatim>\<open>kmain\<close> has run all
  initialisations and waits for interrupts.
\<close>

section \<open>The scan\<close>

definition usable :: "memmap_entry list \<Rightarrow> nat \<Rightarrow> bool" where
  "usable es i \<longleftrightarrow> mm_type (es ! i) = LIMINE_MEMMAP_USABLE"

text \<open>The first of the longest usable regions among the first \<open>n\<close>.\<close>

definition longest :: "memmap_entry list \<Rightarrow> nat \<Rightarrow> nat \<Rightarrow> bool" where
  "longest es n i \<longleftrightarrow> i < n \<and> usable es i \<and>
     (\<forall>j < n. usable es j \<longrightarrow> mm_length (es ! j) \<le> mm_length (es ! i)) \<and>
     (\<forall>j < i. usable es j \<longrightarrow> mm_length (es ! j) < mm_length (es ! i))"

definition no_usable :: "memmap_entry list \<Rightarrow> nat \<Rightarrow> bool" where
  "no_usable es n \<longleftrightarrow> (\<forall>j < n. \<not> usable es j)"

text \<open>What an index and a base of the scan stand for: the longest of the first \<open>n\<close> regions, or none.\<close>

definition picks :: "memmap_entry list \<Rightarrow> nat \<Rightarrow> int \<Rightarrow> u64 \<Rightarrow> bool" where
  "picks es n i b \<longleftrightarrow> (no_usable es n \<and> i = - 1 \<and> b = 0) \<or>
     (\<exists>k. longest es n k \<and> i = int k \<and> b = mm_base (es ! k))"

definition total :: "(memmap_entry \<Rightarrow> bool) \<Rightarrow> memmap_entry list \<Rightarrow> nat \<Rightarrow> u64" where
  "total P es n = sum_list (map mm_length (filter P (take n es)))"

definition scanned :: "memmap_entry list \<Rightarrow> nat \<Rightarrow> memscan \<Rightarrow> bool" where
  "scanned es n s \<longleftrightarrow> picks es n (LargestEntry s) (BaseLargestEntry s) \<and>
     (if LargestEntry s = - 1 then SecondLargestEntry s = - 1 \<and> BaseSecondLargestEntry s = 0
      else picks es (nat (LargestEntry s)) (SecondLargestEntry s) (BaseSecondLargestEntry s)) \<and>
     TotalMemory s = total (\<lambda>_. True) es n \<and>
     TotalUsableMemory s = total (\<lambda>e. mm_type e = LIMINE_MEMMAP_USABLE) es n \<and> TotalReservedMemory s = 0"

lemma total_Suc: "n < length es \<Longrightarrow> total P es (Suc n) = total P es n + (if P (es ! n) then mm_length (es ! n) else 0)"
  by (simp add: total_def take_Suc_conv_app_nth)

lemma longest_unique: "longest es n i \<Longrightarrow> longest es n j \<Longrightarrow> i = j"
  by (metis longest_def linorder_neqE_nat not_le)

lemma longest_step:
  "longest es n i \<Longrightarrow> longest es (Suc n) (if usable es n \<and> mm_length (es ! i) < mm_length (es ! n) then n else i)"
  by (fastforce simp: longest_def less_Suc_eq)

lemma longest_first: "no_usable es n \<Longrightarrow> usable es n \<Longrightarrow> longest es (Suc n) n"
  by (auto simp: longest_def no_usable_def less_Suc_eq)

lemma no_usable_Suc: "no_usable es (Suc n) \<longleftrightarrow> no_usable es n \<and> \<not> usable es n"
  by (auto simp: no_usable_def less_Suc_eq)

lemma scan_step_scanned:
  assumes "scanned es n s" and n: "n < length es"
  shows "scanned es (Suc n) (scan_step es n s)"
proof -
  let ?s = "scan_step es n s"
  have t: "TotalMemory ?s = total (\<lambda>_. True) es (Suc n)"
    "TotalUsableMemory ?s = total (\<lambda>e. mm_type e = LIMINE_MEMMAP_USABLE) es (Suc n)" "TotalReservedMemory ?s = 0"
    using assms by (simp_all add: scanned_def scan_step_def Let_def total_Suc)
  consider (none) "no_usable es n" "LargestEntry s = - 1" "BaseLargestEntry s = 0"
      "SecondLargestEntry s = - 1" "BaseSecondLargestEntry s = 0"
    | (some) k where "longest es n k" "LargestEntry s = int k" "BaseLargestEntry s = mm_base (es ! k)"
      "picks es k (SecondLargestEntry s) (BaseSecondLargestEntry s)"
    using assms(1) by (auto simp: scanned_def picks_def)
  then show ?thesis
  proof cases
    case none
    show ?thesis
    proof (cases "usable es n")
      case True
      with none longest_first [OF none(1) True] show ?thesis
        unfolding scanned_def t by (simp add: scan_step_def Let_def picks_def) (simp add: usable_def)
    next
      case False
      with none show ?thesis
        unfolding scanned_def t by (simp add: scan_step_def Let_def picks_def no_usable_Suc) (simp add: usable_def)
    qed
  next
    case some
    show ?thesis
    proof (cases "usable es n \<and> mm_length (es ! k) < mm_length (es ! n)")
      case True
      with longest_step [OF some(1)] have "longest es (Suc n) n" by simp
      moreover have "picks es n (int k) (mm_base (es ! k))" using some(1) by (auto simp: picks_def)
      ultimately show ?thesis
        using True some unfolding scanned_def t
        by (simp add: scan_step_def Let_def usable_def) (auto simp: picks_def)
    next
      case False
      with longest_step [OF some(1)] have "longest es (Suc n) k" by simp
      then show ?thesis
        using False some unfolding scanned_def t
        by (simp add: scan_step_def Let_def usable_def) (auto simp: picks_def)
    qed
  qed
qed

lemma scan_formats [log_formats]:
  "fits ''Detected a bootloader reclaimable memory region at %p with length %llu bytes'' [VInt v, VInt w]"
  by (simp add: fits_simps)

lemma log_if:
  assumes "i2s_ok k" and "fits fmt va"
  shows "\<exists>k'. (if b then serial_fwrite fmt va k else Some k) = Some k' \<and> i2s_ok k' \<and> dev k' = dev k"
  using serial_fwrite_fits [OF assms] log_dev assms(1) by auto

lemma scan_loop_spec:
  assumes "i2s_ok k" and "scanned es n s" and "n \<le> length es"
  shows "\<exists>sc k'. scan_loop es [n..<length es] s k = Some (sc, k') \<and> scanned es (length es) sc \<and> i2s_ok k' \<and>
    dev k' = dev k"
  using assms
proof (induction "length es - n" arbitrary: n s k)
  case 0
  then show ?case by simp
next
  case (Suc d)
  have n: "n < length es" using Suc.hyps(2) by simp
  then have u: "[n..<length es] = n # [Suc n..<length es]" by (rule upt_conv_Cons)
  obtain k1 where k1: "(if mm_type (es ! n) = LIMINE_MEMMAP_BOOTLOADER_RECLAIMABLE
      then serial_fwrite ''Detected a bootloader reclaimable memory region at %p with length %llu bytes''
             [VInt (mm_base (es ! n)), VInt (mm_length (es ! n))] k else Some k) = Some k1" "i2s_ok k1" "dev k1 = dev k"
    using log_if [OF Suc.prems(1) scan_formats] by blast
  have "scanned es (Suc n) (scan_step es n s)" by (rule scan_step_scanned [OF Suc.prems(2) n])
  from Suc.hyps(1) [OF _ k1(2) this] Suc.hyps(2) n k1(1,3) show ?case by (auto simp: u)
qed

lemma scanned_start: "scanned es 0 scan_start"
  by (simp add: scanned_def scan_start_def picks_def no_usable_def total_def)

section \<open>Pages at boot\<close>

text \<open>With pages left, an allocation succeeds and leaves one page less.\<close>

lemma palloc_free:
  assumes fits: "pmm_fits pm" and "Suc n \<le> card (pmm_pages pm - pmm_live pm m)"
  obtains p m' where "palloc pm m = (p, m')" "p \<noteq> 0" "p \<in> pmm_pages pm" "p \<notin> pmm_live pm m"
    "pmm_live pm m' = insert p (pmm_live pm m)" "n \<le> card (pmm_pages pm - pmm_live pm m')"
proof -
  obtain p m' where a: "palloc pm m = (p, m')" by fastforce
  from fits a show thesis
  proof (cases rule: pmm.alloc_cases)
    case full
    with assms(2) show thesis by simp
  next
    case page
    have "pmm_pages pm - pmm_live pm m' = (pmm_pages pm - pmm_live pm m) - {p}" using page(4) by auto
    moreover have "finite (pmm_pages pm - pmm_live pm m)" using pmm.pages_finite [OF fits] by simp
    ultimately have "n \<le> card (pmm_pages pm - pmm_live pm m')" using assms(2) page by simp
    with a page that show thesis by blast
  qed
qed

lemma create_proc_free:
  assumes fits: "pmm_fits pm" and n: "Suc n \<le> card (pmm_pages pm - pmm_live pm m)" and st: "b \<in> pmm_pages pm"
  obtains p s' m' q where "create_proc pm entry priv b 4096 s m = (p, s', m')" "p \<noteq> 0" "p \<in> pmm_pages pm"
    "p \<notin> pmm_live pm m" "pmm_live pm m' = insert p (pmm_live pm m)" "n \<le> card (pmm_pages pm - pmm_live pm m')"
    "s' = s\<lparr>next_pid := next_pid s + 1, procs := (procs s)(p := q)\<rparr>" "pid q = next_pid s"
    "EntryPoint (state q) = entry" "Regs (state q) = zero_regs\<lparr>rip := entry, rflags := 0x202, rsp := b + 4096 - 8\<rparr>"
proof -
  have "region (b + 4096 - 8) 8 \<subseteq> region b 4096"
  proof
    fix a assume "a \<in> region (b + 4096 - 8) 8"
    then have "unat (a - (b + 4088)) < 8" by (simp add: region_def add.commute)
    moreover have "a - b = (a - (b + 4088)) + 4088" by simp
    ultimately have "unat (a - b) < 4096" by (simp only: unat_word_ariths) (simp add: unat_word_ariths)
    then show "a \<in> region b 4096" by (simp add: region_def)
  qed
  then have stack: "region (b + 4096 - 8) 8 \<inter> bitmap_region pm = {}" using pmm.page_meta [OF fits st] by blast
  obtain p s' m' where c: "create_proc pm entry priv b 4096 s m = (p, s', m')" by (metis prod_cases3)
  from fits stack c show thesis
  proof (cases rule: create_proc_cases)
    case full
    with n show thesis by simp
  next
    case (created q)
    have "pmm_pages pm - pmm_live pm m' = (pmm_pages pm - pmm_live pm m) - {p}" using created(4) by auto
    moreover have "finite (pmm_pages pm - pmm_live pm m)" using pmm.pages_finite [OF fits] by simp
    ultimately have "n \<le> card (pmm_pages pm - pmm_live pm m')" using n created(1-3) by simp
    with c created that show thesis by blast
  qed
qed

lemma vmm_init_free:
  assumes fits: "pmm_fits pm" and "Suc n \<le> card (pmm_pages pm - pmm_live pm m)"
  obtains p m' where "vmm_init pm cr3 m = Some (\<lparr>PML4 = p, cr3_phys = cr3, cr3_virt = PA2VA cr3, CR3 = VA2PA p\<rparr>, m')"
    "p \<in> pmm_pages pm" "pmm_live pm m' = insert p (pmm_live pm m)" "n \<le> card (pmm_pages pm - pmm_live pm m')"
proof -
  obtain p m1 where a: "palloc pm m = (p, m1)" "p \<noteq> 0" "p \<in> pmm_pages pm" "pmm_live pm m1 = insert p (pmm_live pm m)"
    "n \<le> card (pmm_pages pm - pmm_live pm m1)"
    by (rule palloc_free [OF assms])
  let ?m = "memcpy m1 p (PA2VA cr3) 4096"
  have l: "pmm_live pm ?m = pmm_live pm m1"
    by (rule pmm.live_write_page [OF fits a(3)]) (use memcpy_frame [of _ p 4096 m1 "PA2VA cr3"] in simp)
  have "vmm_init pm cr3 m = Some (\<lparr>PML4 = p, cr3_phys = cr3, cr3_virt = PA2VA cr3, CR3 = VA2PA p\<rparr>, ?m)"
    using a(1,2) by (simp add: vmm_init_def Let_def)
  from that [OF this a(3)] l a(4,5) show thesis by simp
qed

section \<open>The two processes\<close>

text \<open>A scheduler with exactly two processes, the first one running.\<close>

definition two_procs :: "PmmFile \<Rightarrow> u64 \<Rightarrow> u64 \<Rightarrow> sched \<Rightarrow> mem \<Rightarrow> bool" where
  "two_procs pm e0 e1 s m \<longleftrightarrow> system_ok pm ({}, s, m) \<and>
     (\<exists>p q. p \<noteq> q \<and> proc_list s = [p, q] \<and> current_proc s = p \<and>
        pid (procs s p) = 1 \<and> rip (Regs (state (procs s p))) = e0 \<and>
        pid (procs s q) = 2 \<and> rip (Regs (state (procs s q))) = e1)"

lemma register_first:
  "proc_list s = [] \<Longrightarrow> current_proc s = 0 \<Longrightarrow> p \<noteq> 0 \<Longrightarrow>
    register_proc p s = Some (set_state p PROC_RUNNING (set_state p PROC_READY
      (s\<lparr>proc_list := [p], current_proc := p\<rparr>)))"
  by (simp add: register_proc_def proc_count_def MAX_PROCS_def set_state_def Let_def)

lemma register_second:
  "proc_list s = [p] \<Longrightarrow> current_proc s = p \<Longrightarrow> p \<noteq> 0 \<Longrightarrow> q \<noteq> 0 \<Longrightarrow>
    register_proc q s = Some (set_state q PROC_READY (s\<lparr>proc_list := [p, q]\<rparr>))"
  by (simp add: register_proc_def proc_count_def MAX_PROCS_def set_state_def Let_def)

lemma test_sched_two:
  assumes fits: "pmm_fits pm" and "6 \<le> card (pmm_pages pm - pmm_live pm m)"
  shows "\<exists>s' m'. test_sched bi pm (scheduler_init s) m = Some (s', m') \<and>
    two_procs pm (addr_proc0 bi) (addr_proc1 bi) s' m' \<and> pmm_live pm m \<subseteq> pmm_live pm m'"
proof -
  have n: "Suc 5 \<le> card (pmm_pages pm - pmm_live pm m)" "5 = Suc 4" "4 = Suc 3" "3 = Suc 2" "2 = Suc 1" using assms(2) by simp_all
  obtain st0 m1 where a1: "palloc pm m = (st0, m1)" "st0 \<in> pmm_pages pm" "Suc 4 \<le> card (pmm_pages pm - pmm_live pm m1)"
    by (rule palloc_free [OF fits n(1)]) (use n in simp)
  obtain h0 m2 where a2: "palloc pm m1 = (h0, m2)" "Suc 3 \<le> card (pmm_pages pm - pmm_live pm m2)"
    by (rule palloc_free [OF fits a1(3)]) (use n in simp)
  obtain st1 m3 where a3: "palloc pm m2 = (st1, m3)" "st1 \<in> pmm_pages pm" "Suc 2 \<le> card (pmm_pages pm - pmm_live pm m3)"
    by (rule palloc_free [OF fits a2(2)]) (use n in simp)
  obtain h1 m4 where a4: "palloc pm m3 = (h1, m4)" "Suc 1 \<le> card (pmm_pages pm - pmm_live pm m4)"
    by (rule palloc_free [OF fits a3(3)]) (use n in simp)
  let ?s = "scheduler_init s"
  obtain p s1 m5 x where c1: "create_proc pm (addr_proc0 bi) 0 st0 4096 ?s m4 = (p, s1, m5)" "p \<noteq> 0"
    "pmm_live pm m5 = insert p (pmm_live pm m4)" "Suc 0 \<le> card (pmm_pages pm - pmm_live pm m5)"
    "s1 = ?s\<lparr>next_pid := next_pid ?s + 1, procs := (procs ?s)(p := x)\<rparr>" "pid x = next_pid ?s"
    "EntryPoint (state x) = addr_proc0 bi" "rip (Regs (state x)) = addr_proc0 bi"
    by (rule create_proc_free [OF fits a4(2) a1(2), where entry = "addr_proc0 bi" and priv = 0 and s = ?s])
      (rule that, (assumption | simp)+)
  then have c1_4: "Suc 0 \<le> card (pmm_pages pm - pmm_live pm m5)" by simp
  obtain q s2 m6 y where c2: "create_proc pm (addr_proc1 bi) 0 st1 4096 s1 m5 = (q, s2, m6)" "q \<noteq> 0"
    "q \<notin> pmm_live pm m5" "pmm_live pm m6 = insert q (pmm_live pm m5)"
    "s2 = s1\<lparr>next_pid := next_pid s1 + 1, procs := (procs s1)(q := y)\<rparr>" "pid y = next_pid s1"
    "EntryPoint (state y) = addr_proc1 bi" "rip (Regs (state y)) = addr_proc1 bi"
    by (rule create_proc_free [OF fits c1_4 a3(2), where entry = "addr_proc1 bi" and priv = 0 and s = s1])
      (rule that, (assumption | simp)+)
  have pq: "p \<noteq> q" using c1(3) c2(3) by blast
  define s3 where "s3 = set_state p PROC_RUNNING (set_state p PROC_READY (s2\<lparr>proc_list := [p], current_proc := p\<rparr>))"
  define s4 where "s4 = set_state q PROC_READY (s3\<lparr>proc_list := [p, q]\<rparr>)"
  have r3: "register_proc p s2 = Some s3"
    using c1(2) by (simp add: s3_def) (rule register_first, simp_all add: c1(5) c2(5) scheduler_init_def)
  have r4: "register_proc q s3 = Some s4"
    unfolding s4_def by (rule register_second) (simp_all add: s3_def set_state_def c1(2) c2(2))
  have t: "test_sched bi pm ?s m = Some (s4, m6)"
    by (simp add: test_sched_def a1(1) a2(1) a3(1) a4(1) c1(1) c2(1) r3 r4)
  have ok: "sched_ok s4"
    using pq c1(2) c2(2) by (simp add: s4_def s3_def sched_ok_def set_state_def proc_count_def MAX_PROCS_def)
  have "system_ok pm ({}, s4, m6)"
    by (rule system_okI [OF ok])
      (use c1 c2 pq in \<open>auto simp: s4_def s3_def set_state_def starts_at_entry_def\<close>)
  moreover have "proc_list s4 = [p, q]" "current_proc s4 = p"
    "pid (procs s4 p) = 1" "rip (Regs (state (procs s4 p))) = addr_proc0 bi"
    "pid (procs s4 q) = 2" "rip (Regs (state (procs s4 q))) = addr_proc1 bi"
    using c1 c2 pq by (simp_all add: s4_def s3_def set_state_def scheduler_init_def)
  moreover have "pmm_live pm m \<subseteq> pmm_live pm m6"
    using pmm.alloc_live_mono [OF fits a1(1)] pmm.alloc_live_mono [OF fits a2(1)]
      pmm.alloc_live_mono [OF fits a3(1)] pmm.alloc_live_mono [OF fits a4(1)] c1(3) c2(4) by blast
  ultimately show ?thesis using t pq by (auto simp: two_procs_def)
qed

section \<open>Boot\<close>

lemma boot_formats [log_formats]:
  "fits ''ASNU Booted'' []" "fits ''HHDM Offset: %p'' [VInt v]" "fits ''Enumerating memory map entries'' []"
  by (simp_all add: fits_simps)

text \<open>A boot loader that answers everything \<^verbatim>\<open>kmain\<close> asks for.\<close>

definition answered :: "boot_info \<Rightarrow> memmap_entry list \<Rightarrow> u64 \<Rightarrow> bool" where
  "answered bi es off \<longleftrightarrow> base_revision_supported bi \<and> (\<exists>f \<ge> 1. framebuffer_count bi = Some f) \<and>
     memmap bi = Some es \<and> es \<noteq> [] \<and> hhdm_offset bi = Some off \<and> off \<noteq> 0"

lemma kmain_scanned:
  assumes "answered bi es off" and "i2s_ok (k_io s)"
  obtains sc k where "scanned es (length es) sc" "i2s_ok k" "dev k = dev (k_io s)"
    "kmain bi s = kmain_rest bi (SetGlobalFtCtx (ft_ctx bi) s) es off sc k"
proof -
  let ?s = "SetGlobalFtCtx (ft_ctx bi) s"
  have "i2s_ok (k_io ?s)" using assms(2) by (simp add: SetGlobalFtCtx_def)
  then obtain k1 where k1: "serial_fwrite ''ASNU Booted'' [] (k_io ?s) = Some k1" "i2s_ok k1"
    using serial_fwrite_fits boot_formats(1) by blast
  then obtain k2 where k2: "serial_fwrite ''HHDM Offset: %p'' [VInt off] k1 = Some k2" "i2s_ok k2"
    using serial_fwrite_fits boot_formats(2) by blast
  then obtain k3 where k3: "serial_fwrite ''Enumerating memory map entries'' [] k2 = Some k3" "i2s_ok k3"
    using serial_fwrite_fits boot_formats(3) by blast
  have d: "dev k3 = dev (k_io s)"
    using log_dev [OF k1(1)] log_dev [OF k2(1) k1(2)] log_dev [OF k3(1) k2(2)] assms(2)
    by (simp add: SetGlobalFtCtx_def)
  obtain sc k where sc: "scan_loop es [0..<length es] scan_start k3 = Some (sc, k)" "scanned es (length es) sc" "i2s_ok k"
    "dev k = dev k3"
    using scan_loop_spec [OF k3(2) scanned_start [of es]] by auto
  have "kmain bi s = kmain_rest bi ?s es off sc k"
    using assms(1) k1(1) k2(1) k3(1) sc(1)
    by (auto simp: kmain_def kmain_rest_def answered_def Let_def)
  with sc d that show thesis by simp
qed

lemma picks_longest: "picks es n i b \<Longrightarrow> longest es n k \<Longrightarrow> i = int k \<and> b = mm_base (es ! k)"
  using longest_unique by (auto simp: picks_def no_usable_def longest_def)

lemma picks_none: "picks es n i b \<Longrightarrow> no_usable es n \<Longrightarrow> i = - 1 \<and> b = 0"
  by (auto simp: picks_def no_usable_def longest_def)

lemma scanned_longest:
  assumes "scanned es n sc" and "longest es n i"
  shows "LargestEntry sc = int i" "BaseLargestEntry sc = mm_base (es ! i)"
    "picks es i (SecondLargestEntry sc) (BaseSecondLargestEntry sc)"
proof -
  have "picks es n (LargestEntry sc) (BaseLargestEntry sc)" using assms(1) by (simp add: scanned_def)
  from picks_longest [OF this assms(2)] show L: "LargestEntry sc = int i" "BaseLargestEntry sc = mm_base (es ! i)"
    by simp_all
  with assms(1) show "picks es i (SecondLargestEntry sc) (BaseSecondLargestEntry sc)" by (simp add: scanned_def)
qed

lemma pmm_pages_card: "pmm_ok pm \<Longrightarrow> card (pmm_pages pm) = page_count pm"
  by (simp add: pmm_pages_def card_image inj_on_def page_addr_inject)

lemma kmain_rest_boots:
  assumes i: "longest es (length es) i" and j: "longest es i j"
    and base: "base = mm_base (es ! i) + off" "base2 = mm_base (es ! j) + off" "len = mm_length (es ! i)"
    and room: "base \<noteq> 0" "unat base + unat len < 2 ^ 64" "7 \<le> unat len div 4096"
      "unat base + (unat len div 4096 + 7) div 8 * 8 * 4096 \<le> 2 ^ 64"
      "region base2 ((unat len div 4096 + 7) div 8) \<inter> region base ((unat len div 4096 + 7) div 8 * 8 * 4096) = {}"
    and sc: "scanned es (length es) sc" and k4: "i2s_ok k4" "reads_mask ps k4"
  shows "\<exists>k. kmain_rest bi s1 es off sc k4 = Some (Idle k) \<and>
     pf_base (k_pm k) = base \<and> pf_length (k_pm k) = len \<and> pf_bitmap_base (k_pm k) = base2 \<and>
     PML4 (k_vmm k) \<in> pmm_live (k_pm k) (k_mem k) \<and> PA2VA (CR3 (k_vmm k)) = PML4 (k_vmm k) \<and>
     two_procs (k_pm k) (addr_proc0 bi) (addr_proc1 bi) (k_sched k) (k_mem k) \<and>
     gdtr (k_seg k) = Some \<lparr>gdt_Size = 4095, gdt_Offset = addr_DefaultGDT bi\<rparr> \<and> PitTickFreq (k_pit k) = 100 \<and>
     kernel_gate (idt (k_idt k) 0x20) (addr_pit_handler (links bi)) \<and>
     kernel_gate (idt (k_idt k) 0x21) (addr_keyboard_handler (links bi)) \<and> int_flag (k_idt k) \<and>
     (\<forall>l < 16. irq_enabled (pics ps (trace (k_io k))) l \<longleftrightarrow> l = 0 \<or> l = 1) \<and> global_ft_ctx k = global_ft_ctx s1"
proof -
  have S: "SecondLargestEntry sc = int j \<and> BaseSecondLargestEntry sc = mm_base (es ! j)"
    by (rule picks_longest [OF scanned_longest(3) [OF sc i] j])
  have "j < i" "i < length es" using i j by (simp_all add: longest_def)
  then have e: "entry_at es (LargestEntry sc) = Some (es ! i)" "entry_at es (SecondLargestEntry sc) = Some (es ! j)"
    and b: "BaseLargestEntry sc + off = base" "BaseSecondLargestEntry sc + off = base2"
    using scanned_longest [OF sc i] S base by (simp_all add: entry_at_def)
  obtain pm m1 k5 where p: "pmm_init 1 base len base2 (mm_length (es ! j)) (TotalMemory sc) (TotalUsableMemory sc)
      (TotalReservedMemory sc) (k_mem s1) k4 = Some (pm, m1, k5)"
    "pmm_fits pm" "pf_base pm = base" "pf_length pm = len" "pf_bitmap_base pm = base2"
    "page_count pm = (unat len div 4096 + 7) div 8 * 8" "pmm_live pm m1 = {}"
    using pmm_init_ok [OF k4(1) room(1,2,4,5)] by blast
  have "pmm_ok pm" using p(2) by (simp add: pmm_fits_def)
  then have "Suc 6 \<le> card (pmm_pages pm - pmm_live pm m1)" using p(6,7) room(3) by (simp add: pmm_pages_card)
  then obtain q m2 where v: "vmm_init pm (cr3_reg bi) m1 =
      Some (\<lparr>PML4 = q, cr3_phys = cr3_reg bi, cr3_virt = PA2VA (cr3_reg bi), CR3 = VA2PA q\<rparr>, m2)"
    "pmm_live pm m2 = insert q (pmm_live pm m1)" "6 \<le> card (pmm_pages pm - pmm_live pm m2)"
    by (rule vmm_init_free [OF p(2)])
  obtain pt k6 where t: "pit_init 100 (k_pit s1) k5 = Some (pt, k6)" "PitTickFreq pt = 100" "dev k6 = dev k5"
    by (simp add: pit_init_def Let_def)
  have "dev k6 = dev k4" using pmm_init_dev [OF p(1) k4(1)] t(3) by simp
  then have "reads_mask ps k6" using k4(2) by (simp add: reads_mask_def)
  then obtain ids k7 where d: "idt_init (links bi) (k_idt s1) k6 = Some (ids, k7)"
    "\<forall>l < 16. irq_enabled (pics ps (trace k7)) l \<longleftrightarrow> l = 0 \<or> l = 1"
    "kernel_gate (idt ids 0x20) (addr_pit_handler (links bi))"
    "kernel_gate (idt ids 0x21) (addr_keyboard_handler (links bi))" "int_flag ids"
    using idt_init_ok [of ps k6 "links bi" "k_idt s1"] by blast
  obtain sch m3 where w: "test_sched bi pm (scheduler_init (k_sched s1)) m2 = Some (sch, m3)"
    "two_procs pm (addr_proc0 bi) (addr_proc1 bi) sch m3" "pmm_live pm m2 \<subseteq> pmm_live pm m3"
    using test_sched_two [OF p(2) v(3)] by blast
  let ?k = "s1\<lparr>k_mem := m3, k_io := k7, k_pm := pm,
      k_vmm := \<lparr>PML4 = q, cr3_phys = cr3_reg bi, cr3_virt = PA2VA (cr3_reg bi), CR3 = VA2PA q\<rparr>,
      k_seg := gdt_init (addr_DefaultGDT bi) (k_seg s1), k_pit := pt, k_idt := ids, k_sched := sch\<rparr>"
  have "kmain_rest bi s1 es off sc k4 = Some (Idle ?k)"
    by (simp add: kmain_rest_def Let_def e b base(3) [symmetric] p(1) v(1) t(1) d(1) w(1))
  moreover have "q \<in> pmm_live pm m3" using v(2) w(3) by blast
  moreover have "gdtr (k_seg ?k) = Some \<lparr>gdt_Size = 4095, gdt_Offset = addr_DefaultGDT bi\<rparr>"
    by (simp add: gdt_init_def load_gdt_def sizeof_GDT_def)
  moreover have "PA2VA (VA2PA q) = q" by (simp add: PA2VA_def VA2PA_def)
  ultimately show ?thesis
    by (intro exI [of _ ?k]) (simp add: p(3-5) w(2) t(2) d(2-5))
qed

text \<open>Two regions of 64 KiB and 32 KiB; the machine's interrupt controllers answer as after a reset.\<close>

definition es_demo :: "memmap_entry list" where
  "es_demo = [\<lparr>mm_base = 0x1000, mm_length = 0x8000, mm_type = LIMINE_MEMMAP_USABLE\<rparr>,
     \<lparr>mm_base = 0xA0000, mm_length = 0x60000, mm_type = LIMINE_MEMMAP_RESERVED\<rparr>,
     \<lparr>mm_base = 0x100000, mm_length = 0x10000, mm_type = LIMINE_MEMMAP_USABLE\<rparr>]"

definition boot_demo :: "memmap_entry list \<Rightarrow> boot_info" where
  "boot_demo es = \<lparr>base_revision_supported = True, framebuffer_count = Some 1, memmap = Some es,
     hhdm_offset = Some 0xFFFF800000000000, ft_ctx = 0x5000, links = link_demo, addr_DefaultGDT = 0x6000,
     addr_proc0 = 0x7000, addr_proc1 = 0x8000, cr3_reg = 0x9000\<rparr>"

lemma all_less_3: "(\<forall>j < 3 :: nat. P j) \<longleftrightarrow> P 0 \<and> P 1 \<and> P 2"
proof -
  have "j < 3 \<longleftrightarrow> j = 0 \<or> j = 1 \<or> j = 2" for j :: nat by linarith
  then show ?thesis by auto
qed

lemma all_less_2: "(\<forall>j < 2 :: nat. P j) \<longleftrightarrow> P 0 \<and> P 1"
proof -
  have "j < 2 \<longleftrightarrow> j = 0 \<or> j = 1" for j :: nat by linarith
  then show ?thesis by auto
qed

lemma es_demo_simps [simp]:
  "length es_demo = 3" "usable es_demo 0" "\<not> usable es_demo 1" "\<not> usable es_demo (Suc 0)" "usable es_demo 2"
  "mm_length (es_demo ! 0) = 0x8000" "mm_length (es_demo ! 2) = 0x10000"
  "mm_base (es_demo ! 0) = 0x1000" "mm_base (es_demo ! 2) = 0x100000"
  "rev es_demo ! 0 = es_demo ! 2" "rev es_demo ! 2 = es_demo ! 0" "usable (rev es_demo) 0" "usable (rev es_demo) 2"
  "\<not> usable (rev es_demo) 1" "\<not> usable (rev es_demo) (Suc 0)"
  by (simp_all add: es_demo_def usable_def)

lemma es_demo_longest: "longest es_demo 3 2" "longest es_demo 2 0" "longest (rev es_demo) 3 0"
  by (simp_all add: longest_def all_less_3 all_less_2)

lemma boot_demo_answered: "answered (boot_demo es_demo) es_demo 0xFFFF800000000000"
  "answered (boot_demo (rev es_demo)) (rev es_demo) 0xFFFF800000000000"
  by (simp_all add: answered_def boot_demo_def es_demo_def)

section \<open>Properties\<close>

text \<open>C24: The scan of the memory map picks the first of the longest usable regions, and as the second
  region the first of the longest usable ones that precede it, with their bases, and adds up the
  lengths modulo 2^64; the reserved memory is never added up. The log calls in it never fail.\<close>

theorem memory_map_scan:
  assumes "i2s_ok k"
  shows "\<exists>sc k'. scan_loop es [0..<length es] scan_start k = Some (sc, k') \<and>
     ((no_usable es (length es) \<and> LargestEntry sc = - 1 \<and> SecondLargestEntry sc = - 1) \<or>
      (\<exists>i. longest es (length es) i \<and> LargestEntry sc = int i \<and> BaseLargestEntry sc = mm_base (es ! i) \<and>
         ((no_usable es i \<and> SecondLargestEntry sc = - 1 \<and> BaseSecondLargestEntry sc = 0) \<or>
          (\<exists>j. longest es i j \<and> SecondLargestEntry sc = int j \<and> BaseSecondLargestEntry sc = mm_base (es ! j))))) \<and>
     TotalMemory sc = sum_list (map mm_length es) \<and>
     TotalUsableMemory sc = sum_list (map mm_length (filter (\<lambda>e. mm_type e = LIMINE_MEMMAP_USABLE) es)) \<and>
     TotalReservedMemory sc = 0"
proof -
  obtain sc k' where sc: "scan_loop es [0..<length es] scan_start k = Some (sc, k')" "scanned es (length es) sc"
    using scan_loop_spec [OF assms scanned_start [of es]] by auto
  show ?thesis
    by (rule exI [of _ sc], rule exI [of _ k'])
      (use sc in \<open>auto simp: scanned_def picks_def total_def split: if_splits\<close>)
qed

theorem memory_map_scan_witness:
  "\<exists>sc k'. scan_loop es_demo [0..<3] scan_start boot_machine = Some (sc, k') \<and>
     LargestEntry sc = 2 \<and> BaseSecondLargestEntry sc = 0x1000 \<and> TotalUsableMemory sc = 0x18000"
proof -
  have "i2s_ok boot_machine" by (simp add: i2s_ok_def boot_machine_def)
  from memory_map_scan [OF this, of es_demo] obtain sc k' where
    r: "scan_loop es_demo [0..<3] scan_start boot_machine = Some (sc, k')"
    "TotalUsableMemory sc = sum_list (map mm_length (filter (\<lambda>e. mm_type e = LIMINE_MEMMAP_USABLE) es_demo))"
    and d: "(no_usable es_demo 3 \<and> LargestEntry sc = - 1 \<and> SecondLargestEntry sc = - 1) \<or>
      (\<exists>i. longest es_demo 3 i \<and> LargestEntry sc = int i \<and> BaseLargestEntry sc = mm_base (es_demo ! i) \<and>
         ((no_usable es_demo i \<and> SecondLargestEntry sc = - 1 \<and> BaseSecondLargestEntry sc = 0) \<or>
          (\<exists>j. longest es_demo i j \<and> SecondLargestEntry sc = int j \<and> BaseSecondLargestEntry sc = mm_base (es_demo ! j))))"
    unfolding es_demo_simps(1) by blast
  have "\<not> no_usable es_demo 3" "\<not> no_usable es_demo 2" by (simp_all add: no_usable_def all_less_3 all_less_2)
  with d have "LargestEntry sc = 2" "BaseSecondLargestEntry sc = 0x1000"
    using longest_unique [OF es_demo_longest(1)] longest_unique [OF es_demo_longest(2)] by fastforce+
  moreover have "TotalUsableMemory sc = 0x18000" unfolding r(2) by (simp add: es_demo_def)
  ultimately show ?thesis using r(1) by blast
qed



text \<open>\<^verbatim>\<open>kmain\<close> takes the bitmap's place from the longest usable region that precedes the longest one in the
  memory map. When there is none, as when the longest region is the first usable one, it reads
  \<^verbatim>\<open>entries[-1]\<close>, whatever other usable regions follow.\<close>

theorem kmain_without_second:
  assumes "answered bi es off" and "i2s_ok (k_io s)"
    and "no_usable es (length es) \<or> (\<exists>i. longest es (length es) i \<and> no_usable es i)"
  shows "kmain bi s = None"
proof -
  obtain sc k where sc: "scanned es (length es) sc" "kmain bi s = kmain_rest bi (SetGlobalFtCtx (ft_ctx bi) s) es off sc k"
    by (rule kmain_scanned [OF assms(1,2)])
  have "LargestEntry sc = - 1 \<or> SecondLargestEntry sc = - 1"
    using assms(3)
  proof (elim disjE exE conjE)
    assume "no_usable es (length es)"
    moreover have "picks es (length es) (LargestEntry sc) (BaseLargestEntry sc)" using sc(1) by (simp add: scanned_def)
    ultimately show ?thesis using picks_none by blast
  next
    fix i assume "longest es (length es) i" "no_usable es i"
    with scanned_longest(3) [OF sc(1)] picks_none show ?thesis by blast
  qed
  then show ?thesis unfolding sc(2) by (auto simp: kmain_rest_def entry_at_def Let_def)
qed

theorem kmain_without_second_witness:
  "\<forall>s. kmain (boot_demo (rev es_demo)) (s\<lparr>k_io := boot_machine\<rparr>) = None"
proof
  fix s
  have "longest (rev es_demo) (length (rev es_demo)) 0 \<and> no_usable (rev es_demo) 0"
    using es_demo_longest(3) by (simp add: no_usable_def)
  then show "kmain (boot_demo (rev es_demo)) (s\<lparr>k_io := boot_machine\<rparr>) = None"
    by (intro kmain_without_second [OF boot_demo_answered(2)]) (auto simp: i2s_ok_def boot_machine_def)
qed

end
