(* ===== verification/Boot_Spec.thy ===== *)
theory Boot_Spec
  imports Kernel_Spec Keyboard_Spec
begin

text \<open>
  Boot and the page tables: \<^verbatim>\<open>kmain\<close> leaves a well-formed tree of tables that translates every
  address as the boot loader's tables did, although \<^verbatim>\<open>pmm_init\<close>, \<^verbatim>\<open>vmm_init\<close> and the creation of
  the first processes write to memory.
\<close>

section \<open>Allocations and the tables\<close>

lemma palloc_same_tables:
  assumes fits: "pmm_fits pm" and ok: "tables_ok pm m root" and a: "palloc pm m = (p, m')"
  shows "same_tables root m m'" and "tables_ok pm m' root"
proof -
  show s: "same_tables root m m'"
    unfolding same_tables_def
  proof (intro allI impI)
    fix js u a assume "table_at m root js u" "a \<in> region u 4096"
    then have "a \<notin> bitmap_region pm" using tables_okD(1) [OF ok] by blast
    then show "m' a = m a" by (rule pmm.alloc_frame [OF fits \<open>palloc pm m = (p, m')\<close>])
  qed
  have "free_pages pm m' \<subseteq> free_pages pm m"
    using pmm.alloc_live_mono [OF fits a] by (auto simp: free_pages_def)
  then show "tables_ok pm m' root" by (rule same_tables_ok [OF ok s])
qed

text \<open>A page that is free lies outside the tables, and stays so while the tables stay.\<close>

definition off_tables :: "u64 \<Rightarrow> mem \<Rightarrow> u64 \<Rightarrow> bool" where
  "off_tables root m p \<longleftrightarrow> (\<forall>js u. table_at m root js u \<longrightarrow> region u 4096 \<inter> region p 4096 = {})"

lemma off_tables_same: "same_tables root m m' \<Longrightarrow> off_tables root m' p = off_tables root m p"
  by (simp add: off_tables_def same_tables_table_at)

lemma off_tables_free: "tables_ok pm m root \<Longrightarrow> p \<in> free_pages pm m \<Longrightarrow> off_tables root m p"
  using tables_okD(2) by (simp add: off_tables_def)

lemma stack_top_in_page: "region (b + 4096 - 8) 8 \<subseteq> region (b :: u64) 4096"
proof -
  have "b + 4096 - 8 = b + 4088" by simp
  then show ?thesis by (simp only:) (rule region_within, simp)
qed

lemma create_proc_same_tables:
  assumes fits: "pmm_fits pm" and ok: "tables_ok pm m root" and b: "b \<in> pmm_pages pm" "off_tables root m b"
    and c: "create_proc pm entry priv b 4096 s m = (p, s', m')"
  shows "same_tables root m m'" and "tables_ok pm m' root"
proof -
  have stack: "region (b + 4096 - 8) 8 \<inter> bitmap_region pm = {}"
    using pmm.page_meta [OF fits b(1)] stack_top_in_page [of b] by blast
  obtain p0 m1 where k: "kalloc pm sizeof_Procedure m = (p0, m1)" by (cases "kalloc pm sizeof_Procedure m")
  then have a: "palloc pm m = (p0, m1)" by (simp add: kalloc_palloc sizeof_Procedure_def)
  note s1 = palloc_same_tables(1) [OF fits ok a]
  show s: "same_tables root m m'"
  proof (cases "p0 = 0")
    case True
    then show ?thesis using c k s1 by (simp add: create_proc_def)
  next
    case False
    then have "p0 \<in> free_pages pm m" using pmm.alloc_page [OF fits a] by (auto simp: free_pages_def)
    then have off: "off_tables root m p0" by (rule off_tables_free [OF ok])
    have m': "m' = write64 (memset m1 p0 0 sizeof_Procedure) (b + 4096 - 8) 0"
      using c k False by (auto simp: create_proc_def Let_def)
    show ?thesis
      unfolding same_tables_def
    proof (intro allI impI)
      fix js u a assume t: "table_at m root js u" and au: "a \<in> region u 4096"
      have "unat sizeof_Procedure \<le> 4096" by (simp add: sizeof_Procedure_def)
      then have "region p0 (unat sizeof_Procedure) \<subseteq> region p0 4096" by (rule region_mono)
      then have "a \<notin> region p0 (unat sizeof_Procedure)" using off t au by (auto simp: off_tables_def)
      moreover have "a \<notin> region (b + 4096 - 8) 8"
        using b(2) t au stack_top_in_page [of b] unfolding off_tables_def by blast
      ultimately have "m' a = m1 a" by (simp add: m' write64_apply memset_apply)
      then show "m' a = m a" using s1 t au by (simp add: same_tables_def)
    qed
  qed
  have "free_pages pm m' \<subseteq> free_pages pm m"
    using fits stack c by (cases rule: create_proc_cases) (auto simp: free_pages_def)
  then show "tables_ok pm m' root" by (rule same_tables_ok [OF ok s])
qed

text \<open>The first two processes live on pages outside the tables, each with a stack of its own.\<close>

definition own_stacks :: "PmmFile \<Rightarrow> u64 \<Rightarrow> sched \<Rightarrow> mem \<Rightarrow> bool" where
  "own_stacks pm root s m \<longleftrightarrow>
     (\<forall>p \<in> set (proc_list s). \<exists>b \<in> pmm_pages pm. rsp (Regs (state (procs s p))) = b + 4096 - 8 \<and> off_tables root m b)"

lemma create_proc_stack:
  assumes "pmm_fits pm" and "b \<in> pmm_pages pm" and "create_proc pm entry priv b 4096 s m = (p, s', m')" and "p \<noteq> 0"
  shows "proc_list s' = proc_list s" and "\<exists>x. procs s' = (procs s)(p := x) \<and> rsp (Regs (state x)) = b + 4096 - 8"
proof -
  have "region (b + 4096 - 8) 8 \<inter> bitmap_region pm = {}"
    using pmm.page_meta [OF assms(1,2)] stack_top_in_page [of b] by blast
  with assms(1) have "proc_list s' = proc_list s \<and> (\<exists>x. procs s' = (procs s)(p := x) \<and> rsp (Regs (state x)) = b + 4096 - 8)"
    using assms(3)
  proof (cases rule: create_proc_cases)
    case (created q)
    show ?thesis by (intro conjI exI [of _ q]) (simp_all add: created(5,7,9))
  qed (use assms(4) in simp)
  then show "proc_list s' = proc_list s" "\<exists>x. procs s' = (procs s)(p := x) \<and> rsp (Regs (state x)) = b + 4096 - 8"
    by blast+
qed

lemma register_proc_regs:
  assumes "register_proc p s = Some s'"
  shows "Regs (state (procs s' x)) = Regs (state (procs s x))" and "set (proc_list s') \<subseteq> insert p (set (proc_list s))"
    and "p \<noteq> 0 \<or> proc_count s \<ge> MAX_PROCS"
  using assms by (auto simp: register_proc_def Let_def set_state_def split: if_splits)

lemma test_sched_stacks:
  assumes fits: "pmm_fits pm" and "proc_list s = []"
    and b: "st0 \<in> pmm_pages pm" "st1 \<in> pmm_pages pm" "off_tables root m' st0" "off_tables root m' st1"
    and c: "create_proc pm e0 pr st0 4096 s m = (p, s1, m1)" "create_proc pm e1 pr st1 4096 s1 m1 = (q, s2, m2)"
    and r: "register_proc p s2 = Some s3" "register_proc q s3 = Some s'"
  shows "own_stacks pm root s' m'"
proof -
  have p0: "create_proc pm e pr b 4096 s m = (0, s1, m1) \<Longrightarrow> s1 = s" for e pr b s m s1 m1
    by (auto simp: create_proc_def Let_def split: prod.splits if_splits)
  have l1: "proc_list s1 = []" using p0 [of e0 pr st0 s m] c(1) create_proc_stack(1) [OF fits b(1) c(1)] assms(2) by fastforce
  have l2: "proc_list s2 = []" using p0 [of e1 pr st1 s1 m1] c(2) create_proc_stack(1) [OF fits b(2) c(2)] l1 by fastforce
  have p: "p \<noteq> 0" using register_proc_regs(3) [OF r(1)] l2 by (simp add: proc_count_def MAX_PROCS_def)
  have l3: "set (proc_list s3) \<subseteq> {p}" using register_proc_regs(2) [OF r(1)] l2 by simp
  have "distinct (proc_list s3)" "length (proc_list s3) \<le> 1" using r(1) l2 by (auto simp: register_proc_def Let_def set_state_def split: if_splits)
  then have q: "q \<noteq> 0" using register_proc_regs(3) [OF r(2)] by (simp add: proc_count_def MAX_PROCS_def)
  have "set (proc_list s') \<subseteq> {p, q}" using register_proc_regs(2) [OF r(2)] l3 by auto
  moreover have "\<exists>b \<in> pmm_pages pm. rsp (Regs (state (procs s' x))) = b + 4096 - 8 \<and> off_tables root m' b"
    if "x = p \<or> x = q" for x
    using that create_proc_stack(2) [OF fits b(1) c(1) p] create_proc_stack(2) [OF fits b(2) c(2) q] b
      register_proc_regs(1) [OF r(1)] register_proc_regs(1) [OF r(2)] by (cases "x = q") auto
  ultimately show ?thesis by (auto simp: own_stacks_def)
qed
lemma test_sched_same_tables:
  assumes fits: "pmm_fits pm" and ok: "tables_ok pm m root" and n: "6 \<le> card (pmm_pages pm - pmm_live pm m)"
    and r: "test_sched bi pm s m = Some (s', m')"
  shows "same_tables root m m'" and "tables_ok pm m' root" and "proc_list s = [] \<Longrightarrow> own_stacks pm root s' m'"
proof -
  have n': "Suc 5 \<le> card (pmm_pages pm - pmm_live pm m)" using n by simp
  obtain st0 m1 where a1: "palloc pm m = (st0, m1)" "st0 \<in> pmm_pages pm" "st0 \<notin> pmm_live pm m"
    "Suc 4 \<le> card (pmm_pages pm - pmm_live pm m1)"
    by (rule palloc_free [OF fits n']) simp
  obtain h0 m2 where a2: "palloc pm m1 = (h0, m2)" "Suc 3 \<le> card (pmm_pages pm - pmm_live pm m2)"
    by (rule palloc_free [OF fits a1(4)]) simp
  obtain st1 m3 where a3: "palloc pm m2 = (st1, m3)" "st1 \<in> pmm_pages pm" "st1 \<notin> pmm_live pm m2"
    by (rule palloc_free [OF fits a2(2)])
  obtain h1 m4 where a4: "palloc pm m3 = (h1, m4)" by fastforce
  note t1 = palloc_same_tables [OF fits ok a1(1)]
  note t2 = palloc_same_tables [OF fits t1(2) a2(1)]
  note t3 = palloc_same_tables [OF fits t2(2) a3(1)]
  note t4 = palloc_same_tables [OF fits t3(2) a4]
  have s24: "same_tables root m2 m4" by (rule same_tables_trans [OF t3(1) t4(1)])
  have s04: "same_tables root m m4" by (rule same_tables_trans [OF same_tables_trans [OF t1(1) t2(1)] s24])
  have "off_tables root m st0" "off_tables root m2 st1"
    using off_tables_free [OF ok] off_tables_free [OF t2(2)] a1(2,3) a3(2,3) by (simp_all add: free_pages_def)
  then have o: "off_tables root m4 st0" "off_tables root m4 st1"
    using off_tables_same [OF s04] off_tables_same [OF s24] by simp_all
  obtain p s1 m5 where c1: "create_proc pm (addr_proc0 bi) 0 st0 4096 s m4 = (p, s1, m5)" by (metis prod_cases3)
  obtain q s2 m6 where c2: "create_proc pm (addr_proc1 bi) 0 st1 4096 s1 m5 = (q, s2, m6)" by (metis prod_cases3)
  note t5 = create_proc_same_tables [OF fits t4(2) a1(2) o(1) c1]
  have "off_tables root m5 st1" using off_tables_same [OF t5(1)] o(2) by simp
  note t6 = create_proc_same_tables [OF fits t5(2) a3(2) this c2]
  obtain s3 where m': "m' = m6" "register_proc p s2 = Some s3" "register_proc q s3 = Some s'"
    using r by (auto simp: test_sched_def a1(1) a2(1) a3(1) a4 c1 c2 bind_eq_Some_conv)
  note s46 = same_tables_trans [OF t5(1) t6(1)]
  show "same_tables root m m'" "tables_ok pm m' root"
    using same_tables_trans [OF s04 s46] t6(2) m'(1) by simp_all
  show "own_stacks pm root s' m'" if "proc_list s = []"
    unfolding m'(1)
    by (rule test_sched_stacks [OF fits that a1(2) a3(2) _ _ c1 c2 m'(2,3)]) (simp_all add: off_tables_same [OF s46] o)
qed

section \<open>The boot loader's tables\<close>

text \<open>A tree of tables outside \<open>W\<close>: what \<open>tables_ok\<close> asks for before there is an allocator.\<close>

definition boot_tables :: "mem \<Rightarrow> u64 \<Rightarrow> u64 set \<Rightarrow> bool" where
  "boot_tables m root W \<longleftrightarrow>
     (\<forall>is t. table_at m root is t \<longrightarrow> region t 4096 \<inter> W = {}) \<and>
     (\<forall>is t js u. table_at m root is t \<and> table_at m root js u \<and> is \<noteq> js \<longrightarrow> region t 4096 \<inter> region u 4096 = {}) \<and>
     (\<forall>is t i. table_at m root is t \<and> length is \<le> 2 \<and> i < 512 \<longrightarrow>
        (let e = read64 m (t + 8 * i) in present e \<and> \<not> large e \<longrightarrow> frame e = e AND NOT 0xFFF))"

text \<open>The memory the kernel takes: its pages, and the second region, which it clears.\<close>

definition taken :: "u64 \<Rightarrow> u64 \<Rightarrow> u64 \<Rightarrow> u64 \<Rightarrow> u64 set" where
  "taken base len base2 len2 = region base ((unat len div 4096 + 7) div 8 * 8 * 4096) \<union>
     region base2 ((unat len div 4096 + 7) div 8) \<union> region base2 (unat len2)"

lemma boot_tables_same:
  assumes "boot_tables m root W" and "\<And>a. a \<notin> W \<Longrightarrow> m' a = m a"
  shows "same_tables root m m'"
  unfolding same_tables_def
proof (intro allI impI)
  fix js u a assume "table_at m root js u" "a \<in> region u 4096"
  then have "a \<notin> W" using assms(1) unfolding boot_tables_def by blast
  then show "m' a = m a" by (rule assms(2))
qed

lemma page_in_pool:
  assumes "pmm_ok pm" and "p \<in> pmm_pages pm"
  shows "region p 4096 \<subseteq> region (pf_base pm) (page_count pm * 4096)"
proof
  fix a assume a: "a \<in> region p 4096"
  obtain i where i: "i < page_count pm" "p = page_addr pm i" using assms(2) by (auto simp: pmm_pages_def)
  have "a - pf_base pm = (a - p) + of_nat (i * 4096)" by (simp add: i(2) page_addr_def)
  moreover have c: "i * 4096 + 4096 \<le> page_count pm * 4096" using i(1) by linarith
  moreover have "unat (a - p) < 4096" using a by (simp add: region_def)
  moreover have "page_count pm * 4096 < 2 ^ 64" by (rule page_count_u64 [OF assms(1)])
  ultimately have "unat (a - pf_base pm) = unat (a - p) + i * 4096"
    by (simp only: unat_word_ariths unat_of_nat) simp
  then show "a \<in> region (pf_base pm) (page_count pm * 4096)"
    using c \<open>unat (a - p) < 4096\<close> by (simp add: region_def)
qed

lemma boot_tables_ok:
  assumes b: "boot_tables m root W" and same: "\<And>a. a \<notin> W \<Longrightarrow> m' a = m a" and ok: "pmm_ok pm"
    and W: "bitmap_region pm \<subseteq> W" "region (pf_base pm) (page_count pm * 4096) \<subseteq> W"
  shows "tables_ok pm m' root"
proof -
  have s: "same_tables root m m'" by (rule boot_tables_same [OF b same])
  show ?thesis
    unfolding tables_ok_def same_tables_table_at [OF s]
  proof (intro conjI allI impI ballI)
    fix js u assume t: "table_at m root js u"
    then have u: "region u 4096 \<inter> W = {}" using b by (simp add: boot_tables_def)
    then show "region u 4096 \<inter> bitmap_region pm = {}" using W(1) by blast
    fix p assume "p \<in> free_pages pm m'"
    then have "region p 4096 \<subseteq> W" using page_in_pool [OF ok] W(2) by (auto simp: free_pages_def)
    then show "region u 4096 \<inter> region p 4096 = {}" using u by blast
  next
    fix js u ks v assume "table_at m root js u \<and> table_at m root ks v \<and> js \<noteq> ks"
    then show "region u 4096 \<inter> region v 4096 = {}" using b unfolding boot_tables_def by blast
  next
    fix js u and i :: u64 assume a: "table_at m root js u \<and> length js \<le> 2 \<and> i < 512"
    then have "let e = read64 m (u + 8 * i) in present e \<and> \<not> large e \<longrightarrow> frame e = e AND NOT 0xFFF"
      using b unfolding boot_tables_def by blast
    then show "let e = read64 m' (u + 8 * i) in present e \<and> \<not> large e \<longrightarrow> frame e = e AND NOT 0xFFF"
      using a same_tables_entry [OF s, of js u i] by simp
  qed
qed

lemma kmain_rest_steps:
  assumes "kmain_rest bi s1 es off sc k4 = Some (Idle k)"
  obtains e1 e2 m1 k5 m2 k6 where "entry_at es (LargestEntry sc) = Some e1" "entry_at es (SecondLargestEntry sc) = Some e2"
    "pmm_init 1 (BaseLargestEntry sc + off) (mm_length e1) (BaseSecondLargestEntry sc + off) (mm_length e2)
       (TotalMemory sc) (TotalUsableMemory sc) (TotalReservedMemory sc) (k_mem s1) k4 = Some (k_pm k, m1, k5)"
    "vmm_init (k_pm k) (cr3_reg bi) m1 = Some (k_vmm k, m2)"
    "test_sched bi (k_pm k) (scheduler_init (k_sched s1)) m2 = Some (k_sched k, k_mem k)" "k_kbd k = k_kbd s1"
    "pit_init 100 (k_pit s1) k5 = Some (k_pit k, k6)" "idt_init (links bi) (k_idt s1) k6 = Some (k_idt k, k_io k)"
  using assms that by (auto simp: kmain_rest_def bind_eq_Some_conv Let_def)

text \<open>What \<^verbatim>\<open>pmm_init\<close> writes.\<close>

lemma pmm_init_frame:
  assumes "pmm_init v base len base2 len2 tm um rm m k0 = Some (pm, m', k)" and "i2s_ok k0"
    and "a \<notin> region base2 ((unat len div 4096 + 7) div 8)" and "a \<notin> region base2 (unat len2)"
  shows "m' a = m a"
proof -
  have "unat len div 4096 < 2 ^ 52" using unat_less_2_64 [of len] by simp
  then have b: "unat ((len div 4096 + 7) div 8) = (unat len div 4096 + 7) div 8"
    by (simp add: unat_div unat_word_ariths)
  show ?thesis
    using pmm_init_Some [OF assms(2), of v base len base2 len2 tm um rm m] assms(1,3,4)
    by (auto simp: memset_apply b)
qed

section \<open>After boot\<close>

text \<open>
  What the boot loader has to provide: the conditions of \<open>kmain_boots\<close> on its answers and on the two
  regions, the largest of them aligned and in the higher half, page tables outside the memory the
  kernel takes, and statics that hold what the compiler put there.
\<close>

definition good_boot :: "boot_info \<Rightarrow> memmap_entry list \<Rightarrow> u64 \<Rightarrow> nat \<Rightarrow> nat \<Rightarrow> pic8259 \<times> pic8259 \<Rightarrow> kernel \<Rightarrow> bool" where
  "good_boot bi es off i j ps s \<longleftrightarrow>
     answered bi es off \<and> longest es (length es) i \<and> longest es i j \<and>
     (let base = mm_base (es ! i) + off; base2 = mm_base (es ! j) + off; len = mm_length (es ! i);
          bytes = (unat len div 4096 + 7) div 8
      in HHDM \<le> base \<and> 4096 dvd unat base \<and> unat base + unat len < 2 ^ 64 \<and> 7 \<le> unat len div 4096 \<and>
         unat base + bytes * 8 * 4096 \<le> 2 ^ 64 \<and> region base2 bytes \<inter> region base (bytes * 8 * 4096) = {} \<and>
         boot_tables (k_mem s) (PA2VA (cr3_reg bi)) (taken base len base2 (mm_length (es ! j)))) \<and>
     i2s_ok (k_io s) \<and> reads_mask ps (k_io s) \<and> SchedTickFreq (k_sched s) \<noteq> 0 \<and> kbd_ok (k_kbd s)"

lemma i2s_ok_outb [simp]: "i2s_ok (outb p b k) = i2s_ok k" "i2s_ok (IOWait k) = i2s_ok k"
  by (simp_all add: outb_def IOWait_def i2s_ok_def)

lemma i2s_ok_clear_mask: "idt_irq_clear_mask l k = Some k' \<Longrightarrow> i2s_ok k' = i2s_ok k"
  by (auto simp: idt_irq_clear_mask_def inb_def i2s_ok_def outb_def split: prod.splits option.splits)

lemma idt_init_i2s: "idt_init la s k = Some (s', k') \<Longrightarrow> i2s_ok k' = i2s_ok k"
  by (auto simp: idt_init_def idt_pic_remap_def Let_def bind_eq_Some_conv i2s_ok_clear_mask)

lemma sched_freq [simp]:
  "SchedTickFreq (scheduler_init s) = SchedTickFreq s"
  "sched_ticks (scheduler_init s) = sched_ticks s"
  "sched_ticks (set_state p st s) = sched_ticks s"
  "SchedTickFreq (set_state p st s) = SchedTickFreq s"
  by (simp_all add: scheduler_init_def set_state_def)

lemma create_proc_freq: "create_proc pm e pr b sz s m = (p, s', m') \<Longrightarrow>
    SchedTickFreq s' = SchedTickFreq s \<and> sched_ticks s' = sched_ticks s"
  by (auto simp: create_proc_def Let_def split: prod.splits if_splits)

lemma register_proc_freq: "register_proc p s = Some s' \<Longrightarrow>
    SchedTickFreq s' = SchedTickFreq s \<and> sched_ticks s' = sched_ticks s"
  by (auto simp: register_proc_def Let_def split: if_splits)

lemma test_sched_freq: "test_sched bi pm s m = Some (s', m') \<Longrightarrow>
    SchedTickFreq s' = SchedTickFreq s \<and> sched_ticks s' = sched_ticks s"
  by (auto simp: test_sched_def bind_eq_Some_conv split: prod.splits dest!: create_proc_freq register_proc_freq)

text \<open>The allocator set up on a region that meets none of the boot loader's tables.\<close>

lemma boot_pool:
  assumes p: "pmm_init v base len base2 len2 tm um rm m k0 = Some (pm, m1, k1)" and io: "i2s_ok k0" and nz: "base \<noteq> 0"
    and room: "unat base + unat len < 2 ^ 64" "7 \<le> unat len div 4096"
      "unat base + (unat len div 4096 + 7) div 8 * 8 * 4096 \<le> 2 ^ 64"
      "region base2 ((unat len div 4096 + 7) div 8) \<inter> region base ((unat len div 4096 + 7) div 8 * 8 * 4096) = {}"
    and at: "pf_base pm = base" "pf_bitmap_base pm = base2" and hh: "HHDM \<le> base" "4096 dvd unat base"
    and bt: "boot_tables m root (taken base len base2 len2)"
  shows "pool_ok pm" and "tables_ok pm m1 root" and "translate m1 root va = translate m root va"
    and "Suc 6 \<le> card (pmm_pages pm - pmm_live pm m1)"
proof -
  let ?W = "taken base len base2 len2"
  have f: "pmm_fits pm" "page_count pm = (unat len div 4096 + 7) div 8 * 8" "pmm_live pm m1 = {}"
    using pmm_init_ok [OF io nz room(1,3,4), of v len2 tm um rm m] p by auto
  then have ok: "pmm_ok pm" by (simp add: pmm_fits_def)
  show "pool_ok pm" using f(1) hh by (simp add: pool_ok_def at)
  have W: "bitmap_region pm \<subseteq> ?W" "region (pf_base pm) (page_count pm * 4096) \<subseteq> ?W"
    using f(2) by (auto simp: taken_def bitmap_region_def at page_count_def)
  have same: "m1 a = m a" if "a \<notin> ?W" for a
    using that pmm_init_frame [OF p io] by (simp add: taken_def)
  show "tables_ok pm m1 root" by (rule boot_tables_ok [OF bt same ok W])
  show "translate m1 root va = translate m root va"
    by (rule same_tables_translate [OF boot_tables_same [OF bt same]])
  show "Suc 6 \<le> card (pmm_pages pm - pmm_live pm m1)"
    using f(2,3) room(2) by (simp add: pmm_pages_card [OF ok])
qed

lemma kmain_state:
  assumes "good_boot bi es off i j ps s"
  obtains k where "kmain bi s = Some (Idle k)" "pool_ok (k_pm k)"
    "two_procs (k_pm k) (addr_proc0 bi) (addr_proc1 bi) (k_sched k) (k_mem k)"
    "tables_ok (k_pm k) (k_mem k) (PML4 (k_vmm k))"
    "\<And>va. translate (k_mem k) (PML4 (k_vmm k)) va = translate (k_mem s) (PA2VA (cr3_reg bi)) va"
    "kernel_gate (idt (k_idt k) 0x20) (addr_pit_handler (links bi))"
    "kernel_gate (idt (k_idt k) 0x21) (addr_keyboard_handler (links bi))" "int_flag (k_idt k)"
    "\<forall>l < 16. irq_enabled (pics ps (trace (k_io k))) l \<longleftrightarrow> l = 0 \<or> l = 1"
    "i2s_ok (k_io k)" "SchedTickFreq (k_sched k) \<noteq> 0" "kbd_ok (k_kbd k)"
    "own_stacks (k_pm k) (PML4 (k_vmm k)) (k_sched k) (k_mem k)" "sched_ticks (k_sched k) = sched_ticks (k_sched s)"
    "SchedTickFreq (k_sched k) = SchedTickFreq (k_sched s)"
proof -
  let ?base = "mm_base (es ! i) + off" and ?base2 = "mm_base (es ! j) + off" and ?len = "mm_length (es ! i)"
    and ?root = "PA2VA (cr3_reg bi)"
  note g = assms [unfolded good_boot_def Let_def]
  have i: "longest es (length es) i" and j: "longest es i j" and io: "i2s_ok (k_io s)" and rd: "reads_mask ps (k_io s)"
    and hh: "HHDM \<le> ?base" and al: "4096 dvd unat ?base"
    and bt: "boot_tables (k_mem s) ?root (taken ?base ?len ?base2 (mm_length (es ! j)))" using g by blast+
  have room: "unat ?base + unat ?len < 2 ^ 64" "7 \<le> unat ?len div 4096"
      "unat ?base + (unat ?len div 4096 + 7) div 8 * 8 * 4096 \<le> 2 ^ 64"
      "region ?base2 ((unat ?len div 4096 + 7) div 8) \<inter> region ?base ((unat ?len div 4096 + 7) div 8 * 8 * 4096) = {}"
    using g by blast+
  have nz: "?base \<noteq> 0" using hh by (auto simp: HHDM_def)
  let ?s1 = "SetGlobalFtCtx (ft_ctx bi) s"
  obtain sc k4 where sc: "scanned es (length es) sc" "i2s_ok k4" "dev k4 = dev (k_io s)"
    "kmain bi s = kmain_rest bi ?s1 es off sc k4"
    by (rule kmain_scanned [of bi es off s]) (use g in blast)+
  have rd4: "reads_mask ps k4" using rd sc(3) by (simp add: reads_mask_def)
  obtain k where k: "kmain_rest bi ?s1 es off sc k4 = Some (Idle k)"
    "pf_base (k_pm k) = ?base" "pf_length (k_pm k) = ?len" "pf_bitmap_base (k_pm k) = ?base2"
    "two_procs (k_pm k) (addr_proc0 bi) (addr_proc1 bi) (k_sched k) (k_mem k)"
    "kernel_gate (idt (k_idt k) 0x20) (addr_pit_handler (links bi))"
    "kernel_gate (idt (k_idt k) 0x21) (addr_keyboard_handler (links bi))" "int_flag (k_idt k)"
    "\<forall>l < 16. irq_enabled (pics ps (trace (k_io k))) l \<longleftrightarrow> l = 0 \<or> l = 1"
    using kmain_rest_boots [OF i j refl refl refl nz room sc(1,2) rd4, of bi ?s1] by blast
  obtain e1 e2 m1 k5 m2 k6 where st: "entry_at es (LargestEntry sc) = Some e1" "entry_at es (SecondLargestEntry sc) = Some e2"
    "pmm_init 1 (BaseLargestEntry sc + off) (mm_length e1) (BaseSecondLargestEntry sc + off) (mm_length e2)
       (TotalMemory sc) (TotalUsableMemory sc) (TotalReservedMemory sc) (k_mem ?s1) k4 = Some (k_pm k, m1, k5)"
    "vmm_init (k_pm k) (cr3_reg bi) m1 = Some (k_vmm k, m2)"
    "test_sched bi (k_pm k) (scheduler_init (k_sched ?s1)) m2 = Some (k_sched k, k_mem k)" "k_kbd k = k_kbd ?s1"
    "pit_init 100 (k_pit ?s1) k5 = Some (k_pit k, k6)" "idt_init (links bi) (k_idt ?s1) k6 = Some (k_idt k, k_io k)"
    by (rule kmain_rest_steps [OF k(1)])
  have ji: "j < i" "i < length es" using i j by (simp_all add: longest_def)
  have S: "SecondLargestEntry sc = int j \<and> BaseSecondLargestEntry sc = mm_base (es ! j)"
    by (rule picks_longest [OF scanned_longest(3) [OF sc(1) i] j])
  have e: "e1 = es ! i" "e2 = es ! j" "BaseLargestEntry sc = mm_base (es ! i)" "BaseSecondLargestEntry sc = mm_base (es ! j)"
    using st(1,2) S scanned_longest(1,2) [OF sc(1) i] ji by (auto simp: entry_at_def split: if_splits)
  have p: "pmm_init 1 ?base ?len ?base2 (mm_length (es ! j)) (TotalMemory sc) (TotalUsableMemory sc)
      (TotalReservedMemory sc) (k_mem s) k4 = Some (k_pm k, m1, k5)"
    using st(3) by (simp add: e SetGlobalFtCtx_def)
  note bp = boot_pool [OF p sc(2) nz room k(2,4) hh al bt]
  note fits = pool_fits [OF bp(1)]
  have n2: "6 \<le> card (pmm_pages (k_pm k) - pmm_live (k_pm k) m2)"
    by (rule vmm_init_free [OF fits bp(4), of "cr3_reg bi"]) (use st(4) in simp)
  note t2 = vmm_init_tables [OF bp(1,2) st(4)]
  note t3 = test_sched_same_tables [OF fits t2(2) n2 st(5)]
  have "translate (k_mem k) (PML4 (k_vmm k)) va = translate (k_mem s) ?root va" for va
    using same_tables_translate [OF t3(1)] t2(1) bp(3) by simp
  moreover have "i2s_ok (k_io k)"
    using pmm_init_dev [OF p sc(2)] st(7) idt_init_i2s [OF st(8)] by (auto simp: pit_init_def Let_def)
  moreover have "SchedTickFreq (k_sched k) \<noteq> 0" "kbd_ok (k_kbd k)"
    using g test_sched_freq [OF st(5)] st(6) by (simp_all add: SetGlobalFtCtx_def)
  moreover have "own_stacks (k_pm k) (PML4 (k_vmm k)) (k_sched k) (k_mem k)"
    using t3(3) t2(1) by (simp add: scheduler_init_def)
  moreover have "sched_ticks (k_sched k) = sched_ticks (k_sched s)" "SchedTickFreq (k_sched k) = SchedTickFreq (k_sched s)"
    using test_sched_freq [OF st(5)] by (simp_all add: SetGlobalFtCtx_def)
  ultimately show thesis
    using k(1,5-) sc(4) bp(1) t3(2) by (intro that [of k]) simp_all
qed

section \<open>A boot\<close>

text \<open>Zeroed memory, where only the root of the boot loader's tables exists.\<close>

definition boot_state :: "kernel \<Rightarrow> kernel" where
  "boot_state s = s\<lparr>k_mem := \<lambda>_. 0, k_io := pic_machine, k_kbd := kbd_demo,
     k_sched := (k_sched s)\<lparr>SchedTickFreq := 10, sched_ticks := 9\<rparr>\<rparr>"

lemma zero_root_tables:
  assumes "region root 4096 \<inter> W = {}"
  shows "boot_tables (\<lambda>_. 0) root W"
proof -
  have z: "read64 (\<lambda>_. 0) a = 0" for a by (rule read64_zero) simp
  have t: "table_at (\<lambda>_. 0) root is t \<longleftrightarrow> is = [] \<and> t = root" for "is" t
    by (cases "is") (auto simp: table_at_def z)
  show ?thesis using assms by (simp add: boot_tables_def t z)
qed

lemma boot_state_good: "good_boot (boot_demo es_demo) es_demo 0xFFFF800000000000 2 0 (pic_reset, pic_reset) (boot_state s)"
proof -
  have d1: "region (0xFFFF800000001000 :: u64) 2 \<inter> region 0xFFFF800000100000 65536 = {}"
    by (rule region_disjoint) simp_all
  have "region (0xFFFF800000009000 :: u64) 4096 \<inter> region 0xFFFF800000100000 65536 = {}"
    "region (0xFFFF800000001000 :: u64) 2 \<inter> region 0xFFFF800000009000 4096 = {}"
    "region (0xFFFF800000001000 :: u64) 32768 \<inter> region 0xFFFF800000009000 4096 = {}"
    by (rule region_disjoint; simp)+
  then have "boot_tables (\<lambda>_. 0) (0xFFFF800000009000 :: u64)
      (taken 0xFFFF800000100000 0x10000 0xFFFF800000001000 0x8000)"
    by (intro zero_root_tables) (auto simp: taken_def)
  then show ?thesis
    using boot_demo_answered(1) es_demo_longest(1,2) pic_machine_reads d1
    by (simp add: good_boot_def Let_def boot_state_def HHDM_def PA2VA_def i2s_ok_def pic_machine_def
        boot_machine_def kbd_demo_def kbd_ok_def KBD_BUF_SIZE_def boot_demo_def)
qed
section \<open>Properties\<close>

text \<open>C7: Boot keeps the address space. \<^verbatim>\<open>kmain\<close> copies the root of the boot loader's tables into a page of its
  own and then allocates, clears stacks and creates processes; the tables it ends with are well-formed, away from the
  allocator's bitmap and free pages, and translate every virtual address as the boot loader's tables did.\<close>

theorem boot_keeps_translations:
  assumes "good_boot bi es off i j ps s"
  shows "\<exists>K. kmain bi s = Some (Idle K) \<and> tables_ok (k_pm K) (k_mem K) (PML4 (k_vmm K)) \<and>
     (\<forall>va. translate (k_mem K) (PML4 (k_vmm K)) va = translate (k_mem s) (PA2VA (cr3_reg bi)) va)"
  by (rule kmain_state [OF assms]) blast

theorem boot_keeps_translations_witness:
  "\<forall>s. \<exists>K. kmain (boot_demo es_demo) (boot_state s) = Some (Idle K) \<and> tables_ok (k_pm K) (k_mem K) (PML4 (k_vmm K))"
  using boot_keeps_translations [OF boot_state_good] by blast

end
