(* ===== verification/Running.thy ===== *)
theory Running
  imports Boot_Spec
begin

text \<open>
  The running kernel: what happens after \<^verbatim>\<open>kmain\<close> has reached its idle loop. The processor executes
  the code of a process and is interrupted by the timer, the keyboard and page faults; the handlers
  are those of the components. The interrupt controllers deliver a line only while no line of its
  own or a higher priority is in service, and a line stays in service until the kernel reports the
  end of its interrupt. The invariant of the whole kernel holds in every reachable state, and no
  handler ever fails in one.
\<close>

section \<open>Delivery of interrupts\<close>

text \<open>
  The in-service register of the first controller: the lines whose interrupt has been delivered and
  not ended. Lower numbers have higher priority; a non-specific end of interrupt ends the line of
  the highest priority.
\<close>

definition deliverable :: "pic8259 \<times> pic8259 \<Rightarrow> nat set \<Rightarrow> nat \<Rightarrow> bool" where
  "deliverable ps S l \<longleftrightarrow> irq_enabled ps l \<and> (\<forall>j \<in> S. l < j)"

definition end_of_interrupt :: "nat set \<Rightarrow> nat set" where
  "end_of_interrupt S = S - {Min S}"

text \<open>The commands a handler has sent to the first controller.\<close>

definition eois_sent :: "pic8259 \<times> pic8259 \<Rightarrow> machine \<Rightarrow> machine \<Rightarrow> nat" where
  "eois_sent ps k k' = eois (fst (pics ps (trace k'))) - eois (fst (pics ps (trace k)))"

definition service :: "pic8259 \<times> pic8259 \<Rightarrow> nat \<Rightarrow> machine \<Rightarrow> machine \<Rightarrow> nat set \<Rightarrow> nat set" where
  "service ps l k k' S = (end_of_interrupt ^^ eois_sent ps k k') (insert l S)"

section \<open>The system\<close>

record system =
  sys_kernel :: kernel
  sys_regs :: RegisterState
  sys_service :: "nat set"

text \<open>Where control continues: in the interrupted code, or in another process.\<close>

definition resume_at :: "control \<Rightarrow> RegisterState \<Rightarrow> RegisterState" where
  "resume_at c r = (case c of Returned \<Rightarrow> r | Jumped r' \<Rightarrow> r')"

text \<open>
  Memory that running code and the pushes of a switch may change: everything but the page tables
  and the allocator's bitmap.
\<close>

definition harmless :: "kernel \<Rightarrow> mem \<Rightarrow> bool" where
  "harmless K m \<longleftrightarrow> same_tables (PML4 (k_vmm K)) (k_mem K) m \<and> (\<forall>a \<in> bitmap_region (k_pm K). m a = k_mem K a)"

text \<open>
  One step: an interrupt of the timer or of the keyboard, a page fault that is recovered from, or a
  piece of the running process's code, which changes registers and memory, writes a line to the
  log, allocates a page, or takes a character from the keyboard.
\<close>

inductive sys_step :: "pic8259 \<times> pic8259 \<Rightarrow> system \<Rightarrow> system \<Rightarrow> bool" for ps where
  timer: "deliverable (pics ps (trace (k_io K))) S 0 \<Longrightarrow>
    pit_handler r (k_sched K) (k_mem K) (k_pit K) (k_io K) = Some (c, s', m', p', k') \<Longrightarrow> harmless K m' \<Longrightarrow>
    sys_step ps \<lparr>sys_kernel = K, sys_regs = r, sys_service = S\<rparr>
      \<lparr>sys_kernel = K\<lparr>k_sched := s', k_mem := m', k_pit := p', k_io := k'\<rparr>, sys_regs = resume_at c r,
       sys_service = service ps 0 (k_io K) k' S\<rparr>"
| keyboard: "deliverable (pics ps (trace (k_io K))) S 1 \<Longrightarrow>
    idt_keyboard_handler (k_kbd K) (k_io K) = (b', k') \<Longrightarrow>
    sys_step ps \<lparr>sys_kernel = K, sys_regs = r, sys_service = S\<rparr>
      \<lparr>sys_kernel = K\<lparr>k_kbd := b', k_io := k'\<rparr>, sys_regs = r, sys_service = service ps 1 (k_io K) k' S\<rparr>"
| fault: "no_large_page (k_mem K) (PML4 (k_vmm K)) CR2 \<Longrightarrow>
    exception_handler (k_pm K) (PML4 (k_vmm K)) CR2 14 err (k_mem K) (k_io K) = Some (Resumed, m', k') \<Longrightarrow>
    sys_step ps \<lparr>sys_kernel = K, sys_regs = r, sys_service = S\<rparr>
      \<lparr>sys_kernel = K\<lparr>k_mem := m', k_io := k'\<rparr>, sys_regs = r, sys_service = S\<rparr>"
| run: "harmless K m' \<Longrightarrow>
    sys_step ps \<lparr>sys_kernel = K, sys_regs = r, sys_service = S\<rparr>
      \<lparr>sys_kernel = K\<lparr>k_mem := m'\<rparr>, sys_regs = r', sys_service = S\<rparr>"
| log: "serial_fwrite fmt va (k_io K) = Some k' \<Longrightarrow>
    sys_step ps \<lparr>sys_kernel = K, sys_regs = r, sys_service = S\<rparr>
      \<lparr>sys_kernel = K\<lparr>k_io := k'\<rparr>, sys_regs = r, sys_service = S\<rparr>"
| allocate: "palloc (k_pm K) (k_mem K) = (p, m') \<Longrightarrow>
    sys_step ps \<lparr>sys_kernel = K, sys_regs = r, sys_service = S\<rparr>
      \<lparr>sys_kernel = K\<lparr>k_mem := m'\<rparr>, sys_regs = r, sys_service = S\<rparr>"
| getc: "kbd_getc [] (k_kbd K) (console (k_io K)) = Some (ch, b', con, irqs) \<Longrightarrow>
    sys_step ps \<lparr>sys_kernel = K, sys_regs = r, sys_service = S\<rparr>
      \<lparr>sys_kernel = K\<lparr>k_kbd := b', k_io := (k_io K)\<lparr>console := con\<rparr>\<rparr>, sys_regs = r, sys_service = S\<rparr>"

text \<open>The idle loop of a kernel that has booted, with nothing in service.\<close>

definition started :: "kernel \<Rightarrow> RegisterState \<Rightarrow> system" where
  "started K r = \<lparr>sys_kernel = K, sys_regs = r, sys_service = {}\<rparr>"

section \<open>The invariant of the kernel\<close>

definition kernel_ok :: "pic8259 \<times> pic8259 \<Rightarrow> system \<Rightarrow> bool" where
  "kernel_ok ps x \<longleftrightarrow> (let K = sys_kernel x in
     pool_ok (k_pm K) \<and> tables_ok (k_pm K) (k_mem K) (PML4 (k_vmm K)) \<and>
     system_ok (k_pm K) ({}, k_sched K, k_mem K) \<and> SchedTickFreq (k_sched K) \<noteq> 0 \<and>
     i2s_ok (k_io K) \<and> kbd_ok (k_kbd K) \<and>
     (\<forall>l < 16. irq_enabled (pics ps (trace (k_io K))) l \<longleftrightarrow> l = 0 \<or> l = 1) \<and>
     sys_service x \<subseteq> {0})"

text \<open>The log and the terminal leave the controllers alone.\<close>

lemma log_pics:
  assumes "serial_fwrite fmt va k = Some k'" and "i2s_ok k"
  shows "i2s_ok k' \<and> pics ps (trace k') = pics ps (trace k)"
proof -
  have "fits fmt va" using assms serial_fwrite_text [OF assms(2), of fmt va] by (cases "serial_text fmt va") (auto simp: fits_def)
  with serial_pics [OF assms(2) this] assms(1) show ?thesis by auto
qed

lemma printk_k_same: "printk_k fmt va k = Some k' \<Longrightarrow> i2s_ok k' = i2s_ok k \<and> trace k' = trace k"
  by (auto simp: printk_k_def i2s_ok_def)

lemma fault_lines_same: "fault_lines err bs k = Some k' \<Longrightarrow> i2s_ok k' = i2s_ok k \<and> trace k' = trace k"
proof (induction bs arbitrary: k)
  case (Cons b bs)
  then obtain k1 where "fault_lines err bs k1 = Some k'" "i2s_ok k1 = i2s_ok k \<and> trace k1 = trace k"
    by (auto simp: bind_eq_Some_conv split: if_splits option.splits dest!: printk_k_same)
  with Cons.IH show ?case by fastforce
qed simp

lemma exception_resumes:
  assumes "exception_handler pm root CR2 14 err m k = Some (Resumed, m', k')" and "i2s_ok k"
  shows "mmap pm root CR2 CR2 (PAGE_PRESENT OR PAGE_RW) m = Some m'" "i2s_ok k'"
    "pics ps (trace k') = pics ps (trace k)"
proof -
  obtain k1 k2 k3 k4 k5 where c:
    "serial_fwrite (PANIC_HEAD @ ''%s'' @ LFCR @ CHR 0x1B # ''[0m'') [VStr (error_codes (unat (14 :: u32)))] k = Some k1"
    "serial_fwrite (''Exception is a #PAGEFAULT'' @ LFCR) [] k1 = Some k2"
    "serial_fwrite (''CR2: 0x%016X'' @ LFCR) [VInt CR2] k2 = Some k3" "PrintPageFaultError err k3 = Some k4"
    "serial_fwrite (''Attempting to identity-map faulting address: %p'' @ LFCR) [VInt CR2] k4 = Some k5"
    "mmap pm root CR2 CR2 (PAGE_PRESENT OR PAGE_RW) m = Some m'"
    "serial_fwrite (''Mapped. Returning to continue execution.'' @ LFCR) [] k5 = Some k'"
    using assms(1) by (auto simp: exception_handler_def bind_eq_Some_conv split: if_splits)
  have "i2s_ok k1 \<and> pics ps (trace k1) = pics ps (trace k)" by (rule log_pics [OF c(1) assms(2)])
  then have "i2s_ok k2 \<and> pics ps (trace k2) = pics ps (trace k)" using log_pics [OF c(2)] by metis
  then have "i2s_ok k3 \<and> pics ps (trace k3) = pics ps (trace k)" using log_pics [OF c(3)] by metis
  then have "i2s_ok k4 \<and> pics ps (trace k4) = pics ps (trace k)"
    using fault_lines_same c(4) by (metis PrintPageFaultError_def)
  then have "i2s_ok k5 \<and> pics ps (trace k5) = pics ps (trace k)" using log_pics [OF c(5)] by metis
  then have "i2s_ok k' \<and> pics ps (trace k') = pics ps (trace k)" using log_pics [OF c(7)] by metis
  with c(6) show "mmap pm root CR2 CR2 (PAGE_PRESENT OR PAGE_RW) m = Some m'" "i2s_ok k'"
    "pics ps (trace k') = pics ps (trace k)" by simp_all
qed

section \<open>Preservation\<close>

lemma system_ok_more:
  assumes "system_ok pm (C, s, m)" and "free_pages pm m' \<subseteq> free_pages pm m" and "pmm_fits pm"
  shows "system_ok pm (C, s, m')"
proof -
  have "pmm_live pm m \<subseteq> pmm_live pm m'"
    using assms(2) pmm.live_pages [OF assms(3), of m] by (auto simp: free_pages_def)
  with assms(1) show ?thesis by (auto simp: system_ok_def)
qed

lemma context_switch_freq: "context_switch r s m = (c, s', m') \<Longrightarrow> SchedTickFreq s' = SchedTickFreq s"
  by (auto simp: context_switch_def Let_def set_state_def split: if_splits)

lemma scheduler_tick_system:
  assumes fits: "pmm_fits pm" and ok: "system_ok pm (C, s, m)"
    and r: "scheduler_tick r s m k = Some (c, s', m', k')" and same: "\<forall>a \<in> bitmap_region pm. m' a = m a"
  shows "system_ok pm (C, s', m') \<and> SchedTickFreq s' = SchedTickFreq s"
proof -
  let ?s1 = "s\<lparr>sched_ticks := sched_ticks s + 1\<rparr>"
  have ok1: "system_ok pm (C, ?s1, m)" using ok sched_ok_ticks by (simp add: system_ok_def)
  obtain c0 s0 m0 where cs: "context_switch r ?s1 m = (c0, s0, m0)" by (metis prod_cases3)
  have "(s' = ?s1 \<and> m' = m) \<or> (s' = s0 \<and> m' = m0)"
    using r by (cases c0) (auto simp: scheduler_tick_def Let_def bind_eq_Some_conv cs split: if_splits)
  then consider "s' = ?s1" "m' = m" | c' where "context_switch r ?s1 m = (c', s', m')" using cs by blast
  then show ?thesis
  proof cases
    case 1
    with ok1 show ?thesis by simp
  next
    case 2
    then have "sched_step pm (C, ?s1, m) (C, s', m')" using same by (rule sched_step.switch)
    from sched_step_ok [OF fits this ok1] context_switch_freq [OF 2] show ?thesis by simp
  qed
qed

text \<open>What a timer interrupt does, with the number of commands it sends to the controller.\<close>

lemma pit_handler_system:
  assumes fits: "pmm_fits pm" and ok: "system_ok pm (C, s, m)" and f: "SchedTickFreq s \<noteq> 0" and k: "i2s_ok k"
    and r: "pit_handler r s m p k = Some (c, s', m', p', k')" and same: "\<forall>a \<in> bitmap_region pm. m' a = m a"
  shows "system_ok pm (C, s', m')" "SchedTickFreq s' \<noteq> 0" "i2s_ok k'"
    "imr (fst (pics ps (trace k'))) = imr (fst (pics ps (trace k)))" "snd (pics ps (trace k')) = snd (pics ps (trace k))"
    "eois_sent ps k k' = (if c = Returned then 1 else 0)"
proof -
  obtain c0 s0 m0 k0 where t: "scheduler_tick r s m k = Some (c0, s0, m0, k0)"
    using r by (auto simp: pit_handler_def Let_def split: option.splits)
  have e: "c = c0" "s' = s0" "m' = m0" "k' = (if c0 = Returned then idt_pic_send_eoi 0 k0 else k0)"
    using r t by (auto simp: pit_handler_def Let_def split: control.splits)
  have o: "i2s_ok k0" "pics ps (trace k0) = pics ps (trace k)"
    using scheduler_tick_outcome [OF system_okD(1) [OF ok] f k, of r m ps] t by auto
  show "system_ok pm (C, s', m')" "SchedTickFreq s' \<noteq> 0"
    using scheduler_tick_system [OF fits ok t] same f by (simp_all add: e)
  show "i2s_ok k'" using o(1) by (auto simp: e idt_pic_send_eoi_def)
  show "imr (fst (pics ps (trace k'))) = imr (fst (pics ps (trace k)))" "snd (pics ps (trace k')) = snd (pics ps (trace k))"
    "eois_sent ps k k' = (if c = Returned then 1 else 0)"
    by (auto simp: e eois_sent_def eoi_pics o(2) split_beta)
qed

lemma KeyboardDriverMain_ok: "kbd_ok b \<Longrightarrow> kbd_ok (KeyboardDriverMain sc b)"
  by (cases rule: KeyboardDriverMain_cases [of sc b]) (simp_all add: KbdPushback_ok)

lemma keyboard_system:
  assumes "idt_keyboard_handler b k = (b', k')"
  shows "kbd_ok b \<Longrightarrow> kbd_ok b'" "i2s_ok k' = i2s_ok k"
    "imr (fst (pics ps (trace k'))) = imr (fst (pics ps (trace k)))" "snd (pics ps (trace k')) = snd (pics ps (trace k))"
    "eois_sent ps k k' = 2"
proof -
  have k': "k' = snd (idt_keyboard_handler b k)" and b': "\<exists>sc. b' = KeyboardDriverMain sc b" using assms
    by (auto simp: idt_keyboard_handler_def split: prod.splits)
  show "kbd_ok b'" if "kbd_ok b"
    using b' that KeyboardDriverMain_ok by blast
  show "i2s_ok k' = i2s_ok k"
    by (simp add: k' idt_keyboard_handler_def split_beta idt_pic_send_eoi_def inb_def i2s_ok_def outb_def)
  show "imr (fst (pics ps (trace k'))) = imr (fst (pics ps (trace k)))" "snd (pics ps (trace k')) = snd (pics ps (trace k))"
    "eois_sent ps k k' = 2"
    by (simp_all add: k' eois_sent_def keyboard_handler_eois split_beta)
qed

lemma deliverable_idle: "deliverable ps S l \<Longrightarrow> S \<subseteq> {0} \<Longrightarrow> S = {}"
  by (auto simp: deliverable_def)

lemma end_of_interrupt_simps [simp]: "end_of_interrupt {l} = {}" "end_of_interrupt {} = {}"
  by (simp_all add: end_of_interrupt_def)

lemma kernel_okI:
  assumes "pool_ok (k_pm K)" and "tables_ok (k_pm K) (k_mem K) (PML4 (k_vmm K))"
    and "system_ok (k_pm K) ({}, k_sched K, k_mem K)" and "SchedTickFreq (k_sched K) \<noteq> 0"
    and "i2s_ok (k_io K)" and "kbd_ok (k_kbd K)"
    and "\<forall>l < 16. irq_enabled (pics ps (trace (k_io K))) l \<longleftrightarrow> l = 0 \<or> l = 1" and "S \<subseteq> {0}"
  shows "kernel_ok ps \<lparr>sys_kernel = K, sys_regs = r, sys_service = S\<rparr>"
  using assms by (simp add: kernel_ok_def Let_def)

lemma kernel_okD:
  assumes "kernel_ok ps \<lparr>sys_kernel = K, sys_regs = r, sys_service = S\<rparr>"
  shows "pool_ok (k_pm K)" "tables_ok (k_pm K) (k_mem K) (PML4 (k_vmm K))"
    "system_ok (k_pm K) ({}, k_sched K, k_mem K)" "SchedTickFreq (k_sched K) \<noteq> 0"
    "i2s_ok (k_io K)" "kbd_ok (k_kbd K)"
    "\<forall>l < 16. irq_enabled (pics ps (trace (k_io K))) l \<longleftrightarrow> l = 0 \<or> l = 1" "S \<subseteq> {0}"
    "pmm_fits (k_pm K)"
  using assms pool_fits by (auto simp: kernel_ok_def Let_def)

lemma harmless_ok:
  assumes "kernel_ok ps \<lparr>sys_kernel = K, sys_regs = r, sys_service = S\<rparr>" and "harmless K m"
  shows "tables_ok (k_pm K) m (PML4 (k_vmm K))" and "system_ok (k_pm K) ({}, k_sched K, m)"
proof -
  note ok = kernel_okD [OF assms(1)]
  have f: "free_pages (k_pm K) m = free_pages (k_pm K) (k_mem K)"
    using assms(2) by (intro free_pages_same [OF ok(9)]) (simp add: harmless_def)
  show "tables_ok (k_pm K) m (PML4 (k_vmm K))"
    by (rule same_tables_ok [OF ok(2)]) (use assms(2) f in \<open>simp_all add: harmless_def\<close>)
  show "system_ok (k_pm K) ({}, k_sched K, m)" by (rule system_ok_more [OF ok(3) _ ok(9)]) (simp add: f)
qed

lemma irq_enabled_cong:
  "imr (fst p) = imr (fst q) \<Longrightarrow> snd p = snd q \<Longrightarrow> irq_enabled p l = irq_enabled q l"
  by (simp add: irq_enabled_def)

lemma sys_step_ok:
  assumes "sys_step ps x y" and "kernel_ok ps x"
  shows "kernel_ok ps y"
  using assms
proof (induction rule: sys_step.induct)
  case (timer K S r c s' m' p' k')
  note ok = kernel_okD [OF timer.prems]
  have S: "S = {}" by (rule deliverable_idle [OF timer.hyps(1) ok(8)])
  have "\<forall>a \<in> bitmap_region (k_pm K). m' a = k_mem K a" using timer.hyps(3) by (simp add: harmless_def)
  note p = pit_handler_system [OF ok(9,3,4,5) timer.hyps(2) this]
  show ?case
    by (rule kernel_okI)
      (use ok p(1-3) harmless_ok(1) [OF timer.prems timer.hyps(3)] irq_enabled_cong [OF p(4,5)] in
        \<open>auto simp: S service_def p(6)\<close>)
next
  case (keyboard K S b' k' r)
  note ok = kernel_okD [OF keyboard.prems]
  have S: "S = {}" by (rule deliverable_idle [OF keyboard.hyps(1) ok(8)])
  note k = keyboard_system [OF keyboard.hyps(2)]
  have e: "service ps 1 (k_io K) k' S = {}" by (simp add: service_def k(5) S numeral_2_eq_2)
  show ?case
    by (rule kernel_okI) (use ok k(1,2) irq_enabled_cong [OF k(3,4)] e in simp_all)
next
  case (fault K CR2 err m' k' r S)
  note ok = kernel_okD [OF fault.prems]
  note e = exception_resumes [OF fault.hyps(2) ok(5)]
  note m = mmap_translate(3,4) [OF ok(1,2) fault.hyps(1) e(1)]
  show ?case
    by (rule kernel_okI) (use ok e(2,3) m system_ok_more [OF ok(3) m(2) ok(9)] in simp_all)
next
  case (run K m' r S r')
  note ok = kernel_okD [OF run.prems]
  show ?case
    by (rule kernel_okI) (use ok harmless_ok [OF run.prems run.hyps] in simp_all)
next
  case (log fmt va K k' r S)
  note ok = kernel_okD [OF log.prems]
  show ?case
    by (rule kernel_okI) (use ok log_pics [OF log.hyps ok(5), of ps] in simp_all)
next
  case (allocate K p m' r S)
  note ok = kernel_okD [OF allocate.prems]
  have "free_pages (k_pm K) m' \<subseteq> free_pages (k_pm K) (k_mem K)"
    using pmm.alloc_live_mono [OF ok(9) allocate.hyps] by (auto simp: free_pages_def)
  note s = system_ok_more [OF ok(3) this ok(9)]
  show ?case
    by (rule kernel_okI) (use ok s palloc_same_tables(2) [OF ok(9,2) allocate.hyps] in simp_all)
next
  case (getc K ch b' con irqs r S)
  note ok = kernel_okD [OF getc.prems]
  have "kbd_ok b'" using getc.hyps ok(6) next_index_less
    by (auto simp: kbd_getc_def Let_def bind_eq_Some_conv kbd_ok_def split: if_splits)
  then show ?case
    by (intro kernel_okI) (use ok in \<open>simp_all add: i2s_ok_def\<close>)
qed

interpretation running: step_invariant "sys_step ps" "kernel_ok ps" for ps
  by unfold_locales (rule sys_step_ok)

section \<open>No handler fails\<close>

lemma pit_handler_returns:
  assumes "sched_ok s" and "SchedTickFreq s \<noteq> 0" and "i2s_ok k"
  shows "pit_handler r s m p k \<noteq> None"
proof -
  obtain c s1 m1 k1 where "scheduler_tick r s m k = Some (c, s1, m1, k1)"
    using scheduler_tick_outcome [OF assms, of r m] by fastforce
  then show ?thesis by (cases c) (simp_all add: pit_handler_def Let_def)
qed

lemma exception_returns:
  assumes "pool_ok pm" and "tables_ok pm m root" and "no_large_page m root CR2"
    and "3 \<le> card (free_pages pm m)" and "i2s_ok k"
  shows "exception_handler pm root CR2 ex err m k \<noteq> None"
proof (cases "recoverable ex CR2")
  case True
  obtain m1 where m1: "mmap pm root CR2 CR2 (PAGE_PRESENT OR PAGE_RW) m = Some m1"
    by (rule mmap_cases [OF assms(1-3), where pa = CR2 and flags = "PAGE_PRESENT OR PAGE_RW"])
      (use assms(4) in simp_all)
  show ?thesis using exception_recovers [OF assms(5) True m1, of err] by auto
next
  case False
  show ?thesis using exception_halts [OF assms(5) False, of pm root err m] by auto
qed

section \<open>One switch\<close>

text \<open>While the timer is in service nothing is delivered any more.\<close>

lemma stuck_step:
  assumes "sys_step ps x y" and "0 \<in> sys_service x"
  shows "sys_service y = sys_service x \<and> k_sched (sys_kernel y) = k_sched (sys_kernel x) \<and>
    k_pit (sys_kernel y) = k_pit (sys_kernel x)"
  using assms by (induction rule: sys_step.induct) (auto simp: deliverable_def)

interpretation stuck: step_invariant "sys_step ps" "\<lambda>x. 0 \<in> sys_service x" for ps
  by unfold_locales (simp add: stuck_step)

lemma stuck_run:
  "(sys_step ps)\<^sup>*\<^sup>* x y \<Longrightarrow> 0 \<in> sys_service x \<Longrightarrow>
    0 \<in> sys_service y \<and> k_sched (sys_kernel y) = k_sched (sys_kernel x) \<and> k_pit (sys_kernel y) = k_pit (sys_kernel x)"
  using stuck.reachable stuck.unchanged [where f = "\<lambda>x. (k_sched (sys_kernel x), k_pit (sys_kernel x))"] stuck_step
  by (smt (verit) prod.inject)

text \<open>A step that changes the current process is a timer interrupt that stays in service.\<close>

lemma pit_handler_current:
  assumes "pit_handler r s m p k = Some (Returned, s', m', p', k')" and "sched_ok s"
  shows "current_proc s' = current_proc s"
proof -
  let ?s1 = "s\<lparr>sched_ticks := sched_ticks s + 1\<rparr>"
  obtain k0 where t: "scheduler_tick r s m k = Some (Returned, s', m', k0)"
    using assms(1) by (auto simp: pit_handler_def Let_def split: option.splits control.splits)
  obtain c0 s0 m0 where cs: "context_switch r ?s1 m = (c0, s0, m0)" by (metis prod_cases3)
  have "c0 = Returned \<Longrightarrow> s0 = ?s1" using cs by (auto simp: context_switch_def Let_def split: if_splits prod.splits)
  with t cs show ?thesis
    by (cases c0) (auto simp: scheduler_tick_def Let_def bind_eq_Some_conv split: if_splits)
qed

lemma switch_step:
  assumes "sys_step ps x y" and "kernel_ok ps x" and "current_proc (k_sched (sys_kernel y)) \<noteq> current_proc (k_sched (sys_kernel x))"
  shows "0 \<in> sys_service y"
  using assms
proof (induction rule: sys_step.induct)
  case (timer K S r c s' m' p' k')
  note ok = kernel_okD [OF timer.prems(1)]
  have S: "S = {}" by (rule deliverable_idle [OF timer.hyps(1) ok(8)])
  have "\<forall>a \<in> bitmap_region (k_pm K). m' a = k_mem K a" using timer.hyps(3) by (simp add: harmless_def)
  note p = pit_handler_system(6) [OF ok(9,3,4,5) timer.hyps(2) this, of ps]
  have "c \<noteq> Returned"
    using pit_handler_current timer.hyps(2) timer.prems(2) system_okD(1) [OF ok(3)] by fastforce
  then show ?case by (simp add: service_def p S)
qed simp_all

lemma switch_run:
  assumes "(sys_step ps)\<^sup>*\<^sup>* x y" and "kernel_ok ps x"
    and "current_proc (k_sched (sys_kernel y)) \<noteq> current_proc (k_sched (sys_kernel x))"
  shows "0 \<in> sys_service y"
  by (rule running.changed [where f = "\<lambda>x. current_proc (k_sched (sys_kernel x))", OF assms])
    (auto intro: switch_step stuck.preserved)

section \<open>From boot to the first switch\<close>

lemma kmain_kernel_ok:
  assumes "good_boot bi es off i j ps s" and "kmain bi s = Some (Idle K)"
  shows "kernel_ok ps (started K r)"
proof -
  obtain k where k: "kmain bi s = Some (Idle k)" "pool_ok (k_pm k)"
    "two_procs (k_pm k) (addr_proc0 bi) (addr_proc1 bi) (k_sched k) (k_mem k)"
    "tables_ok (k_pm k) (k_mem k) (PML4 (k_vmm k))"
    "\<forall>l < 16. irq_enabled (pics ps (trace (k_io k))) l \<longleftrightarrow> l = 0 \<or> l = 1"
    "i2s_ok (k_io k)" "SchedTickFreq (k_sched k) \<noteq> 0" "kbd_ok (k_kbd k)"
    by (rule kmain_state [OF assms(1)]) blast
  have K: "K = k" using k(1) assms(2) by simp
  show ?thesis
    unfolding started_def K by (rule kernel_okI) (use k in \<open>simp_all add: two_procs_def\<close>)
qed

lemma push_stack:
  assumes "pmm_fits pm" and "b \<in> pmm_pages pm" and "off_tables root m b"
  shows "same_tables root m (push (b + 4096 - 8) v m)"
    and "a \<in> bitmap_region pm \<Longrightarrow> push (b + 4096 - 8) v m a = m a"
proof -
  have "region (4080 + b) 8 \<subseteq> region b 4096" unfolding add.commute [of 4080 b] by (rule region_within) simp
  moreover have "b + 4096 - 8 - 8 = b + 4080" by simp
  ultimately have e: "push (b + 4096 - 8) v m a = m a" if "a \<notin> region b 4096" for a
    using that by (auto simp: push_def write64_apply)
  show "same_tables root m (push (b + 4096 - 8) v m)"
    using assms(3) e by (auto simp: same_tables_def off_tables_def)
  show "a \<in> bitmap_region pm \<Longrightarrow> push (b + 4096 - 8) v m a = m a"
    using pmm.page_meta [OF assms(1,2)] e by blast
qed

lemma first_switch:
  assumes "good_boot bi es off i j ps s" and "kmain bi s = Some (Idle K)" and "tick_due (k_sched s)"
  shows "\<exists>r y. sys_step ps (started K r) y \<and> current_proc (k_sched (sys_kernel y)) \<noteq> current_proc (k_sched K)"
proof -
  obtain k where k: "kmain bi s = Some (Idle k)" "pool_ok (k_pm k)"
    "two_procs (k_pm k) (addr_proc0 bi) (addr_proc1 bi) (k_sched k) (k_mem k)"
    "\<forall>l < 16. irq_enabled (pics ps (trace (k_io k))) l \<longleftrightarrow> l = 0 \<or> l = 1"
    "i2s_ok (k_io k)" "SchedTickFreq (k_sched k) \<noteq> 0" "own_stacks (k_pm k) (PML4 (k_vmm k)) (k_sched k) (k_mem k)"
    "sched_ticks (k_sched k) = sched_ticks (k_sched s)" "SchedTickFreq (k_sched k) = SchedTickFreq (k_sched s)"
    by (rule kmain_state [OF assms(1)]) blast
  have K: "K = k" using k(1) assms(2) by simp
  have fits: "pmm_fits (k_pm K)" using k(2) pool_fits by (simp add: K)
  let ?s = "k_sched K" and ?root = "PML4 (k_vmm K)"
  let ?s1 = "?s\<lparr>sched_ticks := sched_ticks ?s + 1\<rparr>"
  obtain p q where pq: "p \<noteq> q" "proc_list ?s = [p, q]" "current_proc ?s = p" and ok: "sched_ok ?s"
    using k(3) by (auto simp: two_procs_def K system_ok_def)
  have due: "tick_due ?s" using assms(3) k(8,9) by (simp add: tick_due_def K)
  have n: "2 \<le> proc_count ?s" by (simp add: proc_count_def pq(2))
  have ok1: "sched_ok ?s1" using ok by (simp only: sched_ok_ticks)
  obtain b where b: "b \<in> pmm_pages (k_pm K)" "rsp (Regs (state (procs ?s p))) = b + 4096 - 8" "off_tables ?root (k_mem K) b"
    using k(7) pq(2) by (auto simp: own_stacks_def K)
  obtain b' where b': "b' \<in> pmm_pages (k_pm K)" "rsp (Regs (state (procs ?s q))) = b' + 4096 - 8" "off_tables ?root (k_mem K) b'"
    using k(7) pq(2) by (auto simp: own_stacks_def K)
  let ?r = "Regs (state (procs ?s p))" and ?q = "Regs (state (procs ?s q))"
  let ?m1 = "push (rsp ?r) (rflags ?r) (k_mem K)"
  let ?m2 = "push (rsp ?q) (rflags ?q) ?m1"
  have cs: "context_switch ?r ?s1 (k_mem K) = (Jumped (load_regs ?q ?r), after_switch ?r ?s1 q, ?m2)"
    using context_switch_jump(1) [OF ok1, of 0 ?r "k_mem K"] by (simp add: current_at_def proc_count_def pq)
  note t1 = push_stack [OF fits b(1,3), where v = "rflags ?r", folded b(2)]
  have "off_tables ?root ?m1 b'" using off_tables_same [OF t1(1)] b'(3) by simp
  note t2 = push_stack [OF fits b'(1) this, where v = "rflags ?q", folded b'(2)]
  have h: "harmless K ?m2"
    using same_tables_trans [OF t1(1) t2(1)] t1(2) t2(2) by (simp add: harmless_def)
  have io: "i2s_ok (k_io K)" using k(5) by (simp add: K)
  obtain c s' m' k' where t: "scheduler_tick ?r ?s (k_mem K) (k_io K) = Some (c, s', m', k')" "c \<noteq> Returned"
    using scheduler_tick_outcome [OF ok _ io, of ?r "k_mem K" ps] k(6) due n by (auto simp: K)
  have e: "c = Jumped (load_regs ?q ?r)" "s' = after_switch ?r ?s1 q" "m' = ?m2"
    using t by (auto simp: scheduler_tick_def Let_def bind_eq_Some_conv cs split: if_splits)
  have "pit_handler ?r ?s (k_mem K) (k_pit K) (k_io K) = Some (c, s', m', pit_tick (k_pit K), k')"
    using t by (simp add: pit_handler_def e(1) Let_def)
  moreover have "deliverable (pics ps (trace (k_io K))) {} 0" using k(4) by (simp add: deliverable_def K)
  ultimately have "sys_step ps (started K ?r) \<lparr>sys_kernel = K\<lparr>k_sched := s', k_mem := m', k_pit := pit_tick (k_pit K), k_io := k'\<rparr>,
      sys_regs = resume_at c ?r, sys_service = service ps 0 (k_io K) k' {}\<rparr>"
    unfolding started_def using h by (intro sys_step.timer) (simp_all add: e)
  moreover have "current_proc s' \<noteq> current_proc ?s" using pq(1,3) by (auto simp: e after_switch_def Let_def)
  ultimately show ?thesis by fastforce
qed

lemma boot_run:
  fixes s
  defines "b \<equiv> boot_state s"
  shows "\<exists>K r y. kmain (boot_demo es_demo) b = Some (Idle K) \<and> (sys_step (pic_reset, pic_reset))\<^sup>*\<^sup>* (started K r) y \<and>
     current_proc (k_sched (sys_kernel y)) \<noteq> current_proc (k_sched K)"
proof -
  obtain K where K: "kmain (boot_demo es_demo) b = Some (Idle K)"
    using kmain_state [OF boot_state_good, of s] unfolding b_def by blast
  have "tick_due (k_sched b)" by (simp add: b_def boot_state_def tick_due_def)
  from first_switch [OF boot_state_good [of s, folded b_def] K this] K show ?thesis by blast
qed

section \<open>Properties\<close>



text \<open>C8: One switch. The timer's handler jumps into the next process without ending its interrupt, which is only
  ended after \<^verbatim>\<open>scheduler_tick\<close> has returned. So once the current process has changed, no interrupt is
  delivered any more: the second process runs for ever, and the ticks and the scheduler stand still.\<close>

theorem switches_once:
  assumes "good_boot bi es off i j ps s" and "kmain bi s = Some (Idle K)" and "(sys_step ps)\<^sup>*\<^sup>* (started K r) x"
    and "current_proc (k_sched (sys_kernel x)) \<noteq> current_proc (k_sched K)" and "(sys_step ps)\<^sup>*\<^sup>* x y"
  shows "k_sched (sys_kernel y) = k_sched (sys_kernel x) \<and> k_pit (sys_kernel y) = k_pit (sys_kernel x) \<and>
     \<not> deliverable (pics ps (trace (k_io (sys_kernel y)))) (sys_service y) l"
proof -
  have "0 \<in> sys_service x"
    using switch_run [OF assms(3) kmain_kernel_ok [OF assms(1,2)]] assms(4) by (simp add: started_def)
  from stuck_run [OF assms(5) this] show ?thesis by (auto simp: deliverable_def)
qed

theorem switches_once_witness:
  "\<forall>s. \<exists>K r x. kmain (boot_demo es_demo) (boot_state s) = Some (Idle K) \<and>
     (sys_step (pic_reset, pic_reset))\<^sup>*\<^sup>* (started K r) x \<and> current_proc (k_sched (sys_kernel x)) \<noteq> current_proc (k_sched K) \<and>
     \<not> deliverable (pics (pic_reset, pic_reset) (trace (k_io (sys_kernel x)))) (sys_service x) 0"
  using boot_run switches_once [OF boot_state_good] by blast
end
