(* ===== verification/KiSimple.thy ===== *)
theory KiSimple
  imports CString IDT "HOL-Library.Signed_Division"
begin

text \<open>
  Model of the rest of \<^verbatim>\<open>src/ASNU/src/KiSimple.c\<close>: block transfers with a port, the panic message and
  the splash screen. A C \<^verbatim>\<open>int\<close> is an \<open>int\<close> here; \<^verbatim>\<open>/\<close> truncates towards zero, which is \<open>sdiv\<close>. The text
  of the splash screen is a string in memory and is read through \<^verbatim>\<open>strchr\<close>, \<^verbatim>\<open>strlen\<close> and \<^verbatim>\<open>strstr\<close>; the address
  of the string literal \<^verbatim>\<open>">INF$"\<close> is a parameter. A loop that may run for ever is \<open>None\<close> when it does.
\<close>

section \<open>Block transfers\<close>

text \<open>\<^verbatim>\<open>rep insw\<close> and \<^verbatim>\<open>rep outsw\<close>: the count goes into \<^verbatim>\<open>ecx\<close>, and the direction flag is clear.\<close>

fun insw_loop :: "u16 \<Rightarrow> u64 \<Rightarrow> nat \<Rightarrow> mem \<Rightarrow> machine \<Rightarrow> mem \<times> machine" where
  "insw_loop port addr 0 m k = (m, k)"
| "insw_loop port addr (Suc n) m k =
     (case inw port k of (w, k1) \<Rightarrow>
        insw_loop port (addr + 2) n (m(addr := ucast w, addr + 1 := ucast (drop_bit 8 w))) k1)"

definition insw :: "u16 \<Rightarrow> u64 \<Rightarrow> u32 \<Rightarrow> mem \<Rightarrow> machine \<Rightarrow> mem \<times> machine" where
  "insw port addr count m k = insw_loop port addr (unat count) m k"

fun outsw_loop :: "u16 \<Rightarrow> u64 \<Rightarrow> nat \<Rightarrow> mem \<Rightarrow> machine \<Rightarrow> machine" where
  "outsw_loop port addr 0 m k = k"
| "outsw_loop port addr (Suc n) m k =
     outsw_loop port (addr + 2) n m (outw port (ucast (m addr) OR push_bit 8 (ucast (m (addr + 1)))) k)"

definition outsw :: "u16 \<Rightarrow> u64 \<Rightarrow> u32 \<Rightarrow> mem \<Rightarrow> machine \<Rightarrow> machine" where
  "outsw port addr count m k = outsw_loop port addr (unat count) m k"

section \<open>The panic message\<close>

text \<open>\<open>Stopped\<close>: \<^verbatim>\<open>halt_catch_fire_x86\<close> loops for ever.\<close>

datatype panic = Stopped machine | Continued machine

definition KiPanic :: "string \<Rightarrow> u32 \<Rightarrow> machine \<Rightarrow> panic option" where
  "KiPanic s halt k =
     do {
       k1 \<leftarrow> (if halt = 1
              then printk_k (CHR 0x1B # ''[1;91m{ PANIC }'' @ CHR 0x09 # ''%s'') [VStr s] k
              else printk_k (''{ PANIC }'' @ CHR 0x09 # ''%s'') [VStr s] k);
       k2 \<leftarrow> printk_k [CHR 0x0A] [] k1;
       Some (if halt \<noteq> 0 then Stopped k2 else Continued k2)
     }"

section \<open>The splash screen\<close>

text \<open>The loop that counts line feeds; an index beyond \<^verbatim>\<open>INT_MAX\<close> overflows.\<close>

function count_lf :: "mem \<Rightarrow> u64 \<Rightarrow> int \<Rightarrow> int \<Rightarrow> int option" where
  "count_lf m txt i lf =
     (if m (txt + word_of_int i) = 0 then Some lf
      else if 2147483647 \<le> i then None
      else count_lf m txt (i + 1) (if m (txt + word_of_int i) = 0x0A then lf + 1 else lf))"
  by pat_completeness auto
termination
  by (relation "measure (\<lambda>(m, txt, i, lf). nat (2147483647 - i))") auto

declare count_lf.simps [simp del]

text \<open>\<^verbatim>\<open>(int)(p - q)\<close>.\<close>

definition ptr_diff :: "u64 \<Rightarrow> u64 \<Rightarrow> int" where
  "ptr_diff p q = sint (ucast (p - q) :: u32)"

text \<open>The comparisons with \<^verbatim>\<open>$INF<\<close>, one character after the other.\<close>

definition inf_mark :: "mem \<Rightarrow> u64 \<Rightarrow> bool" where
  "inf_mark m p \<longleftrightarrow> m p = 0x24 \<and> m (p + 1) = 0x49 \<and> m (p + 2) = 0x4E \<and> m (p + 3) = 0x46 \<and> m (p + 4) = 0x3C"

definition byte_char :: "u8 \<Rightarrow> char" where
  "byte_char b = char_of (unat b)"

text \<open>The buffer \<^verbatim>\<open>char info[256]\<close>, and what is copied into it when it fits.\<close>

definition no_info :: string where
  "no_info = replicate 256 NUL"

definition keep_info :: "mem \<Rightarrow> u64 \<Rightarrow> int \<Rightarrow> string \<Rightarrow> string" where
  "keep_info m src n info =
     (if 0 < n \<and> n < 256
      then (map (\<lambda>j. byte_char (m (src + of_nat j))) [0..<nat n] @ drop (nat n) info)[nat n := NUL]
      else info)"

fun print_chars :: "mem \<Rightarrow> u64 \<Rightarrow> nat list \<Rightarrow> machine \<Rightarrow> machine option" where
  "print_chars m line_start [] k = Some k"
| "print_chars m line_start (i # is) k =
     do {
       k1 \<leftarrow> printk_k ''%c'' [VInt (scast (m (line_start + of_nat i)))] k;
       print_chars m line_start is k1
     }"

text \<open>The horizontal centre of something \<open>len\<close> characters wide.\<close>

definition center_x :: "int \<Rightarrow> int \<Rightarrow> int" where
  "center_x w len = (let x = w sdiv 2 - len sdiv 2 in if x < 0 then 0 else x)"

definition go_to :: "int \<Rightarrow> int \<Rightarrow> machine \<Rightarrow> machine option" where
  "go_to y x k = printk_k (CHR 0x1B # ''[%d;%dH'') [VInt (word_of_int y), VInt (word_of_int x)] k"

definition print_line :: "int \<Rightarrow> mem \<Rightarrow> u64 \<Rightarrow> int \<Rightarrow> int \<Rightarrow> machine \<Rightarrow> machine option" where
  "print_line w m line_start line_len y k =
     do {
       k1 \<leftarrow> go_to y (center_x w line_len + 1) k;
       print_chars m line_start [0..<nat line_len] k1
     }"

text \<open>
  The loop over the lines: the number of lines printed, the buffer \<^verbatim>\<open>info\<close> if \<^verbatim>\<open>info_found\<close>, and the
  machine.
\<close>

partial_function (option) splash_loop ::
  "u64 \<Rightarrow> mem \<Rightarrow> int \<Rightarrow> int \<Rightarrow> u64 \<Rightarrow> int \<Rightarrow> machine \<Rightarrow> (int \<times> string option \<times> machine) option" where
  "splash_loop lit m w center_y line_start line_num k =
     (if line_start \<noteq> 0 \<and> m line_start \<noteq> 0 then
        do {
          e \<leftarrow> strchr m line_start 0x0A;
          line_end \<leftarrow> (if e = 0 then map_option (\<lambda>n. line_start + ucast n) (strlen m line_start) else Some e);
          let line_len = ptr_diff line_end line_start;
          if line_len \<ge> 4 \<and> inf_mark m line_start then
            Some (line_num, Some (keep_info m (line_start + 5) (line_len - 5) no_info), k)
          else if m line_end = 0x0A \<and> inf_mark m (line_end + 1) then
            do {
              let info_start = line_end + 1 + 5;
              info_end \<leftarrow> strstr m info_start lit;
              let info = (if info_end \<noteq> 0 \<and> info_end > info_start
                          then keep_info m info_start (ptr_diff info_end info_start) no_info else no_info);
              k1 \<leftarrow> print_line w m line_start line_len (center_y + line_num + 1) k;
              Some (line_num + 1, Some info, k1)
            }
          else
            do {
              k1 \<leftarrow> print_line w m line_start line_len (center_y + line_num + 1) k;
              if m line_end = 0x0A then splash_loop lit m w center_y (line_end + 1) (line_num + 1) k1
              else Some (line_num + 1, None, k1)
            }
        }
      else Some (line_num, None, k))"

definition DisplaySplash :: "u64 \<Rightarrow> mem \<Rightarrow> int \<Rightarrow> int \<Rightarrow> u64 \<Rightarrow> machine \<Rightarrow> machine option" where
  "DisplaySplash lit m w h txt k =
     do {
       k1 \<leftarrow> printk_k (CHR 0x1B # ''[0;0HASNU 1.0.0-rc01'') [] k;
       lf_count \<leftarrow> count_lf m txt 0 0;
       let total_lines = lf_count + 1;
       let center_y = h sdiv 2 - total_lines sdiv 2;
       (line_num, info_found, k2) \<leftarrow> splash_loop lit m w center_y txt 0 k1;
       (case info_found of
          None \<Rightarrow> Some k2
        | Some info \<Rightarrow>
            do {
              k3 \<leftarrow> printk_k (CHR 0x1B # ''[%d;1H'') [VInt (word_of_int (center_y + line_num + 2))] k2;
              let info_len_local = int (length (takeWhile (\<lambda>c. c \<noteq> NUL) info));
              k4 \<leftarrow> go_to (center_y + line_num + 2) (center_x w info_len_local + 1) k3;
              printk_k (CHR 0x1B # ''[90m%s'' @ CHR 0x1B # ''[0m'') [VStr info] k4
            })
     }"

end
