(* ===== verification/KiSimple_Spec.thy ===== *)
theory KiSimple_Spec
  imports KiSimple CString_Spec Printk_Spec
begin

text \<open>
  What \<^verbatim>\<open>KiPanic\<close>, \<^verbatim>\<open>DisplaySplash\<close> and the block transfers do. The splash screen's output is given as a
  function of its text, a list of bytes, and the function of the source, which walks over memory with
  \<^verbatim>\<open>strchr\<close>, \<^verbatim>\<open>strlen\<close>, \<^verbatim>\<open>strstr\<close> and \<^verbatim>\<open>memcpy\<close>, is proved to terminate with that output.
\<close>

section \<open>What the terminal shows\<close>

definition says :: "string \<Rightarrow> machine \<Rightarrow> machine" where
  "says t k = k\<lparr>console := console k @ t\<rparr>"

lemma says_simps [simp]: "says b (says a k) = says (a @ b) k" "says [] k = k"
  by (simp_all add: says_def)

lemma printk_k_says: "printk_k fmt va k = map_option (\<lambda>t. says (filter (\<lambda>c. c \<noteq> NUL) t) k) (format_text fmt va)"
  by (simp add: printk_k_def printk_text says_def option.map_comp comp_def)

text \<open>A number in decimal, as \<^verbatim>\<open>%d\<close> prints it.\<close>

definition decimal :: "int \<Rightarrow> string" where
  "decimal v = (if v < 0 then ''-'' else []) @ nat_text (digit 0) 10 (nat \<bar>v\<bar>)"

lemma int_text_decimal:
  assumes "- (2 ^ 31) \<le> v" and "v < 2 ^ 31"
  shows "int_text CHR ''d'' 0 0 0 (word_of_int v) = decimal v"
proof -
  have "sint (ucast (word_of_int v :: u64) :: u32) = signed_take_bit 31 v"
    by (simp add: signed_ucast_eq uint_word_of_int_eq signed_take_bit_take_bit)
  also have "\<dots> = v" using assms by (intro signed_take_bit_int_eq_self) simp_all
  finally show ?thesis by (simp add: int_text_d decimal_def Let_def)
qed

lemma nat_text_NUL: "NUL \<notin> set (nat_text (digit 0) 10 n)"
proof (induction "digit 0" "10 :: nat" n rule: nat_text.induct)
  case (1 n)
  have "NUL \<noteq> digit 0 k" if "k < 10" for k
  proof
    assume "NUL = digit 0 k"
    then have "of_char NUL = 48 + k" using digit_less_10 [OF that, of 0] by simp
    then show False by (simp add: NUL_def)
  qed
  with 1 show ?case by (subst nat_text.simps) auto
qed

lemma decimal_NUL [simp]: "filter (\<lambda>c. c \<noteq> NUL) (decimal v) = decimal v"
  using nat_text_NUL by (auto simp: decimal_def filter_id_conv NUL_def)

lemmas directive_defs = directive_text_def specifier_text_def parse_width_def parse_precision_def
  parse_length_def peek_def is_digit_def int_specifier_def NUL_def

lemma format_d:
  "format_text (CHR ''%'' # CHR ''d'' # fmt) (VInt v # va) =
    map_option ((@) (int_text CHR ''d'' 0 0 0 v)) (format_text fmt va)"
  by (simp add: directive_defs)

lemma format_c:
  "format_text ''%c'' [VInt v] = Some [char_of (unat (ucast v :: u8))]"
  by (simp add: directive_defs pad_text_def)

lemma format_s:
  "format_text (CHR ''%'' # CHR ''s'' # fmt) (VStr t # va) =
    map_option ((@) (takeWhile (\<lambda>c. c \<noteq> NUL) t)) (format_text fmt va)"
proof -
  have s: "str_text 0 t 0 = takeWhile (\<lambda>c. c \<noteq> NUL) t" by (induction t) simp_all
  show ?thesis by (simp add: directive_defs pad_text_def s [unfolded NUL_def])
qed

lemma format_char: "c \<noteq> NUL \<Longrightarrow> c \<noteq> CHR ''%'' \<Longrightarrow> format_text (c # fmt) va = map_option ((#) c) (format_text fmt va)"
  by simp

lemmas format_rules = format_text.simps(1) format_d format_s format_char [unfolded NUL_def]

text \<open>The characters of a string up to its NUL.\<close>

abbreviation c_string :: "string \<Rightarrow> string" where
  "c_string s \<equiv> takeWhile (\<lambda>c. c \<noteq> NUL) s"

lemma c_string_NUL: "NUL \<notin> set (c_string s)"
  by (auto dest: set_takeWhileD)

lemma printk_k_text: "format_text fmt va = Some t \<Longrightarrow> NUL \<notin> set t \<Longrightarrow> printk_k fmt va k = Some (says t k)"
  by (auto simp: printk_k_says filter_id_conv intro: arg_cong [where f = "\<lambda>t. says t k"])

section \<open>The panic message\<close>

text \<open>Any value but 0 halts; only 1 shows the message in red.\<close>

lemma KiPanic_says:
  "KiPanic s halt k = Some ((if halt = 0 then Continued else Stopped)
     (says ((if halt = 1 then CHR 0x1B # ''[1;91m'' else []) @ ''{ PANIC }'' @ CHR 0x09 # c_string s @ [CHR 0x0A]) k))"
proof -
  have t: "format_text (CHR 0x1B # ''[1;91m{ PANIC }'' @ CHR 0x09 # ''%s'') [VStr s] =
      Some (CHR 0x1B # ''[1;91m{ PANIC }'' @ CHR 0x09 # c_string s)"
    "format_text (''{ PANIC }'' @ CHR 0x09 # ''%s'') [VStr s] = Some (''{ PANIC }'' @ CHR 0x09 # c_string s)"
    "format_text [CHR 0x0A] [] = Some [CHR 0x0A]"
    by (simp_all add: format_rules del: format_text.simps(2))
  have n: "NUL \<notin> set (CHR 0x1B # ''[1;91m{ PANIC }'' @ CHR 0x09 # c_string s)"
    "NUL \<notin> set (''{ PANIC }'' @ CHR 0x09 # c_string s)" "NUL \<notin> set [CHR 0x0A]"
    using c_string_NUL [of s] by (simp_all add: NUL_def)
  show ?thesis
    using printk_k_text [OF t(1) n(1)] printk_k_text [OF t(2) n(2)] printk_k_text [OF t(3) n(3)]
    by (simp add: KiPanic_def)
qed

section \<open>Block transfers\<close>

lemma insw_loop_frame:
  "2 * n < 2 ^ 64 \<Longrightarrow> a \<notin> region addr (2 * n) \<Longrightarrow> fst (insw_loop port addr n m k) a = m a"
proof (induction n arbitrary: addr m k)
  case (Suc n)
  have "region (addr + 2) (2 * n) \<subseteq> region addr (2 * Suc n)" "region (addr + 1) 1 \<subseteq> region addr (2 * Suc n)"
    by (rule region_within; simp)+
  then have "a \<notin> region (addr + 2) (2 * n)" "a \<noteq> addr + 1" "a \<noteq> addr"
    using Suc.prems by (auto simp: subset_iff)
  with Suc show ?case by (simp split: prod.split)
qed simp

text \<open>A transfer writes nothing outside its buffer, and reads the port once per word.\<close>

lemma insw_in_bounds: "a \<notin> region addr (2 * unat count) \<Longrightarrow> fst (insw port addr count m k) a = m a"
proof -
  have "2 * unat count < 2 ^ 64" using unsigned_less [of count, where 'a = nat] by simp
  then show "a \<notin> region addr (2 * unat count) \<Longrightarrow> fst (insw port addr count m k) a = m a"
    unfolding insw_def by (rule insw_loop_frame)
qed

lemma insw_loop_trace: "trace (snd (insw_loop port addr n m k)) = replicate n (In16 port) @ trace k"
proof (induction n arbitrary: addr m k)
  case (Suc n)
  have "replicate n (In16 port) @ In16 port # trace k = In16 port # replicate n (In16 port) @ trace k"
    by (induction n) simp_all
  then show ?case using Suc by (simp add: inw_def)
qed simp

section \<open>The splash screen as a function of its text\<close>

definition INF_OPEN :: "u8 list" where "INF_OPEN = [0x24, 0x49, 0x4E, 0x46, 0x3C]"
definition INF_CLOSE :: "u8 list" where "INF_CLOSE = [0x3E, 0x49, 0x4E, 0x46, 0x24]"

definition first_line :: "u8 list \<Rightarrow> u8 list" where
  "first_line xs = takeWhile (\<lambda>x. x \<noteq> 0x0A) xs"

text \<open>
  The lines before the info block, and the info: on the first line it is the rest of the line, on
  a later one what is before the closing mark, or nothing if there is none.
\<close>

function splash_parts :: "u8 list \<Rightarrow> u8 list list \<times> u8 list option" where
  "splash_parts xs =
     (let l = first_line xs; r = drop (length l) xs
      in if xs = [] then ([], None)
         else if prefix INF_OPEN l then ([], Some (drop 5 l))
         else if r = [] then ([l], None)
         else if prefix INF_OPEN (tl r) then
           ([l], Some (case occurrence INF_CLOSE (drop 6 r) of None \<Rightarrow> [] | Some n \<Rightarrow> take n (drop 6 r)))
         else (case splash_parts (tl r) of (ls, info) \<Rightarrow> (l # ls, info)))"
  by pat_completeness auto
termination
  by (relation "measure length") (auto simp: Let_def)

declare splash_parts.simps [simp del]

text \<open>An info of 256 characters or more does not fit and is not shown.\<close>

definition fitting :: "u8 list \<Rightarrow> u8 list" where
  "fitting bs = (if length bs < 256 then bs else [])"

definition goes_to :: "int \<Rightarrow> int \<Rightarrow> string" where
  "goes_to y x = CHR 0x1B # ''['' @ decimal y @ '';'' @ decimal x @ ''H''"

fun lines_text :: "int \<Rightarrow> int \<Rightarrow> u8 list list \<Rightarrow> string" where
  "lines_text w y [] = []"
| "lines_text w y (l # ls) =
     goes_to y (center_x w (int (length l)) + 1) @ map byte_char l @ lines_text w (y + 1) ls"

definition info_text :: "int \<Rightarrow> int \<Rightarrow> u8 list option \<Rightarrow> string" where
  "info_text w y info = (case info of None \<Rightarrow> [] | Some bs0 \<Rightarrow>
     let bs = fitting bs0
     in CHR 0x1B # ''['' @ decimal y @ '';1H'' @ goes_to y (center_x w (int (length bs)) + 1) @
        CHR 0x1B # ''[90m'' @ map byte_char bs @ CHR 0x1B # ''[0m'')"

definition splash_text :: "int \<Rightarrow> int \<Rightarrow> u8 list \<Rightarrow> string" where
  "splash_text w h xs =
     (let (ls, info) = splash_parts xs;
          y = h div 2 - (int (count_list xs 0x0A) + 1) div 2
      in CHR 0x1B # ''[0;0HASNU 1.0.0-rc01'' @ lines_text w (y + 1) ls @ info_text w (y + int (length ls) + 2) info)"

section \<open>Reading the text\<close>

lemma count_lf_cstr:
  "cstr m (txt + word_of_int (int i)) xs \<Longrightarrow> i + length xs < 2 ^ 31 \<Longrightarrow>
    count_lf m txt (int i) lf = Some (lf + int (count_list xs 0x0A))"
proof (induction xs arbitrary: i lf)
  case Nil
  then show ?case by (subst count_lf.simps) simp
next
  case (Cons x xs)
  have "cstr m (txt + word_of_int (int (Suc i))) xs" using Cons.prems(1) by (simp add: ac_simps)
  from Cons.IH [OF this] Cons.prems show ?case
    by (subst count_lf.simps) (simp add: ac_simps)
qed

lemma ptr_diff_of_nat: "n < 2 ^ 31 \<Longrightarrow> ptr_diff (p + of_nat n) p = int n"
proof -
  assume "n < 2 ^ 31"
  then have "signed_take_bit 31 (int n) = int n" by (intro signed_take_bit_int_eq_self) simp_all
  then show ?thesis
    by (simp add: ptr_diff_def signed_of_nat)
qed

lemma cstr_prefix:
  "cstr m p xs \<Longrightarrow> 0 \<notin> set ys \<Longrightarrow> prefix ys xs \<longleftrightarrow> (\<forall>i < length ys. m (p + of_nat i) = ys ! i)"
proof (induction ys arbitrary: p xs)
  case (Cons y ys)
  then show ?case by (cases xs) (auto simp: All_less_Suc2 add.assoc)
qed simp

lemma inf_mark_prefix: "cstr m p xs \<Longrightarrow> inf_mark m p \<longleftrightarrow> prefix INF_OPEN xs"
  using cstr_prefix [of m p xs INF_OPEN] by (simp add: INF_OPEN_def inf_mark_def All_less_Suc2)

lemma sdiv_2: "0 \<le> a \<Longrightarrow> a sdiv 2 = a div (2 :: int)"
  by (cases "a = 0") (simp_all add: signed_divide_int_def)

lemma center_x_bounds: "0 \<le> w \<Longrightarrow> w < 2 ^ 31 \<Longrightarrow> 0 \<le> len \<Longrightarrow> 0 \<le> center_x w len \<and> center_x w len < 2 ^ 30"
  unfolding center_x_def Let_def by (simp add: sdiv_2) presburger

lemma go_to_says:
  assumes "- (2 ^ 31) \<le> y" "y < 2 ^ 31" "- (2 ^ 31) \<le> x" "x < 2 ^ 31"
  shows "go_to y x k = Some (says (goes_to y x) k)"
proof -
  have "format_text (CHR 0x1B # ''[%d;%dH'') [VInt (word_of_int y), VInt (word_of_int x)] = Some (goes_to y x)"
    by (simp add: format_rules int_text_decimal [OF assms(1,2)] int_text_decimal [OF assms(3,4)] goes_to_def
        del: format_text.simps(2))
  then show ?thesis by (simp add: go_to_def printk_k_says goes_to_def) (simp add: NUL_def)
qed

lemma row_says:
  assumes "- (2 ^ 31) \<le> y" "y < 2 ^ 31"
  shows "printk_k (CHR 0x1B # ''[%d;1H'') [VInt (word_of_int y)] k = Some (says (CHR 0x1B # ''['' @ decimal y @ '';1H'') k)"
proof -
  have "format_text (CHR 0x1B # ''[%d;1H'') [VInt (word_of_int y)] = Some (CHR 0x1B # ''['' @ decimal y @ '';1H'')"
    by (simp add: format_rules int_text_decimal [OF assms] del: format_text.simps(2))
  then show ?thesis by (simp add: printk_k_says) (simp add: NUL_def)
qed

lemma grey_says:
  "printk_k (CHR 0x1B # ''[90m%s'' @ CHR 0x1B # ''[0m'') [VStr i] k =
    Some (says (CHR 0x1B # ''[90m'' @ c_string i @ CHR 0x1B # ''[0m'') k)"
proof (rule printk_k_text)
  show "format_text (CHR 0x1B # ''[90m%s'' @ CHR 0x1B # ''[0m'') [VStr i] =
      Some (CHR 0x1B # ''[90m'' @ c_string i @ CHR 0x1B # ''[0m'')"
    by (simp add: format_rules del: format_text.simps(2))
  show "NUL \<notin> set (CHR 0x1B # ''[90m'' @ c_string i @ CHR 0x1B # ''[0m'')"
    using c_string_NUL [of i] by (simp add: NUL_def)
qed

lemma byte_char_NUL [simp]: "byte_char b = NUL \<longleftrightarrow> b = 0"
proof
  assume "byte_char b = NUL"
  then have "of_char (byte_char b) = (0 :: nat)" by (simp add: NUL_def)
  moreover have "unat b < 256" using unsigned_less [of b, where 'a = nat] by simp
  ultimately show "b = 0" by (simp add: byte_char_def unat_eq_zero)
qed (simp add: byte_char_def NUL_def char_of_def)

lemma print_one_char: "b \<noteq> 0 \<Longrightarrow> printk_k ''%c'' [VInt (scast (b :: u8))] k = Some (says [byte_char b] k)"
proof -
  assume b: "b \<noteq> 0"
  have "ucast (scast b :: u64) = b" by (rule bit_eqI) (auto simp: bit_simps)
  then have "printk_k ''%c'' [VInt (scast b)] k = Some (says (filter (\<lambda>c. c \<noteq> NUL) [byte_char b]) k)"
    unfolding printk_k_says format_c by (simp add: byte_char_def)
  then show ?thesis using b by simp
qed

lemma print_chars_says:
  "\<forall>i \<in> set is. m (p + of_nat i) \<noteq> 0 \<Longrightarrow>
    print_chars m p is k = Some (says (map (\<lambda>i. byte_char (m (p + of_nat i))) is) k)"
  by (induction "is" arbitrary: k) (simp_all add: print_one_char)

lemma map_read: "cstr m p xs \<Longrightarrow> n \<le> length xs \<Longrightarrow>
    map (\<lambda>i. byte_char (m (p + of_nat i))) [0..<n] = map byte_char (take n xs)"
  by (rule nth_equalityI) (simp_all add: cstr_nth)

lemma print_line_says:
  assumes "cstr m p xs" and "n \<le> length xs" and "0 \<le> w" "w < 2 ^ 31" and "- (2 ^ 31) \<le> y" "y < 2 ^ 31"
  shows "print_line w m p (int n) y k = Some (says (goes_to y (center_x w (int n) + 1) @ map byte_char (take n xs)) k)"
proof -
  have "\<forall>i \<in> set [0..<n]. m (p + of_nat i) \<noteq> 0"
    using cstr_nth [OF assms(1)] cstr_nonzero [OF assms(1)] assms(2) by simp
  moreover have "0 \<le> center_x w (int n)" "center_x w (int n) < 2 ^ 30"
    using center_x_bounds [OF assms(3,4), of "int n"] by simp_all
  then have "go_to y (center_x w (int n) + 1) k = Some (says (goes_to y (center_x w (int n) + 1)) k)"
    using assms(5,6) by (intro go_to_says) simp_all
  ultimately show ?thesis
    by (simp add: print_line_def print_chars_says map_read [OF assms(1,2)])
qed

lemma keep_info_string:
  assumes "cstr m p xs" and "n \<le> length xs"
  shows "c_string (keep_info m p (int n) no_info) = map byte_char (fitting (take n xs))"
proof (cases "0 < n \<and> n < 256")
  case False
  then have "c_string no_info = []" "fitting (take n xs) = []" using assms(2) by (auto simp: no_info_def fitting_def)
  with False show ?thesis by (auto simp: keep_info_def)
next
  case True
  have "256 - n = Suc (255 - n)" using True by linarith
  then have "drop n no_info = NUL # replicate (255 - n) NUL" by (simp add: no_info_def)
  then have "keep_info m p (int n) no_info = map byte_char (take n xs) @ NUL # replicate (255 - n) NUL"
    using True assms(2) by (simp add: keep_info_def map_read [OF assms] list_update_append)
  moreover have "\<forall>c \<in> set (map byte_char (take n xs)). c \<noteq> NUL"
    using cstr_nonzero [OF assms(1)] by (auto dest: in_set_takeD)
  ultimately have "c_string (keep_info m p (int n) no_info) = map byte_char (take n xs)"
    by (simp only:, subst takeWhile_append2) auto
  then show ?thesis using True assms(2) by (simp add: fitting_def)
qed

section \<open>The lines\<close>

lemma first_line_cases:
  assumes "cstr m p xs" and "xs \<noteq> []"
  defines "l \<equiv> first_line xs" and "r \<equiv> drop (length (first_line xs)) xs"
  shows "length l + length r = length xs" "l = take (length l) xs"
    and "r = [] \<Longrightarrow> strchr m p 0x0A = Some 0" "r = [] \<Longrightarrow> l = xs"
    and "r \<noteq> [] \<Longrightarrow> strchr m p 0x0A = Some (p + of_nat (length l))" "r \<noteq> [] \<Longrightarrow> hd r = 0x0A"
    and "cstr m (p + of_nat (length l)) r"
proof -
  have r: "r = dropWhile (\<lambda>x. x \<noteq> 0x0A) xs" by (simp add: r_def first_line_def dropWhile_eq_drop)
  have lr: "l @ r = xs" by (simp add: l_def r first_line_def)
  from lr show "length l + length r = length xs" by (metis length_append)
  show "l = take (length l) xs" using lr by (metis append_eq_conv_conj)
  show "r = [] \<Longrightarrow> l = xs" using lr by simp
  have i: "r = [] \<longleftrightarrow> 0x0A \<notin> set xs" by (auto simp: r dropWhile_eq_Nil_conv)
  show "r = [] \<Longrightarrow> strchr m p 0x0A = Some 0" using strchr_cstr [OF assms(1), of "0x0A"] i by simp
  show "r \<noteq> [] \<Longrightarrow> strchr m p 0x0A = Some (p + of_nat (length l))"
    using strchr_cstr [OF assms(1), of "0x0A"] i by (simp add: l_def first_line_def)
  show "r \<noteq> [] \<Longrightarrow> hd r = 0x0A" using hd_dropWhile [of "\<lambda>x. x \<noteq> 0x0A" xs] by (simp add: r)
  show "cstr m (p + of_nat (length l)) r"
    unfolding r_def l_def by (rule cstr_drop [OF assms(1)]) (simp add: first_line_def length_takeWhile_le)
qed

lemma prefix_first_line: "prefix INF_OPEN xs \<longleftrightarrow> prefix INF_OPEN (first_line xs)"
proof
  assume "prefix INF_OPEN xs"
  then show "prefix INF_OPEN (first_line xs)" by (auto simp: first_line_def INF_OPEN_def prefix_def)
next
  assume "prefix INF_OPEN (first_line xs)"
  then show "prefix INF_OPEN xs"
    unfolding first_line_def using takeWhile_is_prefix prefix_order.order_trans by blast
qed

lemma unat_no_wrap: "unat p + n < 2 ^ 64 \<Longrightarrow> unat ((p :: u64) + of_nat n) = unat p + n"
  by (simp add: unat_word_ariths unat_of_nat)

lemma no_info_string [simp]: "c_string no_info = []"
  by (simp add: no_info_def)

lemma info_block:
  assumes c: "cstr m s xs" and lit: "cstr m lit INF_CLOSE" and s: "s \<noteq> 0" "unat s + length xs < 2 ^ 64" and n: "length xs < 2 ^ 31"
  shows "\<exists>e. strstr m s lit = Some e \<and>
    c_string (if e \<noteq> 0 \<and> e > s then keep_info m s (ptr_diff e s) no_info else no_info) =
      map byte_char (fitting (case occurrence INF_CLOSE xs of None \<Rightarrow> [] | Some n \<Rightarrow> take n xs))"
proof -
  have "m lit \<noteq> 0" using lit by (simp add: INF_CLOSE_def)
  then have e: "strstr m s lit = Some (case occurrence INF_CLOSE xs of None \<Rightarrow> 0 | Some i \<Rightarrow> s + of_nat i)"
    using strstr_loop_cstr [OF c lit] by (simp add: strstr_def)
  show ?thesis
  proof (cases "occurrence INF_CLOSE xs")
    case None
    then show ?thesis using e by (simp add: fitting_def)
  next
    case (Some i)
    then have i: "i < length xs" by (simp add: occurrence_Some_iff)
    then have u: "unat (s + of_nat i) = unat s + i" using s(2) by (intro unat_no_wrap) simp
    have nz: "s + of_nat i \<noteq> 0" using u s(1) by (metis unat_0 add_is_0 unat_eq_zero)
    have "s + of_nat i > s \<longleftrightarrow> 0 < i" using u by (simp add: word_less_nat_alt)
    moreover have "ptr_diff (s + of_nat i) s = int i" using i n by (intro ptr_diff_of_nat) simp
    ultimately show ?thesis
      using e Some nz keep_info_string [OF c, of i] i by (cases "i = 0") (simp_all add: fitting_def)
  qed
qed

text \<open>One turn of the loop, in terms of the first line.\<close>

lemma splash_loop_step:
  fixes k
  assumes c: "cstr m p xs" "xs \<noteq> []" and p: "p \<noteq> 0" "unat p + length xs < 2 ^ 64" "length xs < 2 ^ 31"
    and w: "0 \<le> w" "w < 2 ^ 31" and y: "- (2 ^ 31) \<le> cy + n + 1" "cy + n + 1 + int (length xs) < 2 ^ 31"
  defines "l \<equiv> first_line xs"
  defines "e \<equiv> p + of_nat (length l)" and "k1 \<equiv> says (lines_text w (cy + n + 1) [l]) k"
  shows "splash_loop lit m w cy p n k =
      (if prefix INF_OPEN l then Some (n, Some (keep_info m (p + 5) (int (length l) - 5) no_info), k)
       else if m e = 0x0A \<and> inf_mark m (e + 1) then
         strstr m (e + 1 + 5) lit \<bind> (\<lambda>q. Some (n + 1, Some (if q \<noteq> 0 \<and> q > e + 1 + 5
           then keep_info m (e + 1 + 5) (ptr_diff q (e + 1 + 5)) no_info else no_info), k1))
       else if m e = 0x0A then splash_loop lit m w cy (e + 1) (n + 1) k1
       else Some (n + 1, None, k1))" and "unat e = unat p + length l"
proof -
  note f = first_line_cases [OF c, folded l_def, folded e_def]
  have m: "m p \<noteq> 0" using c by (cases xs; simp)
  have d: "ptr_diff e p = int (length l)" unfolding e_def using f(1) p(3) by (intro ptr_diff_of_nat) simp
  have pre: "4 \<le> length l \<and> inf_mark m p \<longleftrightarrow> prefix INF_OPEN l"
    using inf_mark_prefix [OF c(1)] prefix_first_line [of xs] prefix_length_le [of INF_OPEN l]
    by (auto simp: INF_OPEN_def l_def)
  show u: "unat e = unat p + length l" unfolding e_def using f(1) p(2) by (intro unat_no_wrap) simp
  then have ez: "e \<noteq> 0" using p(1) by (metis unat_0 add_is_0 unat_eq_zero)
  have "strchr m p 0x0A \<bind> (\<lambda>e. if e = 0 then map_option (\<lambda>n. p + ucast n) (strlen m p) else Some e) = Some e"
  proof (cases "drop (length l) xs = []")
    case True
    then show ?thesis using f(3,4) strlen_cstr [OF c(1)] p(3) by (simp add: ucast_of_nat_u32 e_def)
  next
    case False
    then show ?thesis using f(5) ez by simp
  qed
  then obtain q where q: "strchr m p 0x0A = Some q"
    "(if q = 0 then map_option (\<lambda>n. p + ucast n) (strlen m p) else Some q) = Some e"
    by (auto simp: bind_eq_Some_conv)
  have "print_line w m p (int (length l)) (cy + n + 1) k =
      Some (says (goes_to (cy + n + 1) (center_x w (int (length l)) + 1) @ map byte_char (take (length l) xs)) k)"
    using f(1) y by (intro print_line_says [OF c(1) _ w]) simp_all
  then have line: "print_line w m p (int (length l)) (cy + n + 1) k = Some k1"
    by (simp add: k1_def flip: f(2))
  show "splash_loop lit m w cy p n k =
      (if prefix INF_OPEN l then Some (n, Some (keep_info m (p + 5) (int (length l) - 5) no_info), k)
       else if m e = 0x0A \<and> inf_mark m (e + 1) then
         strstr m (e + 1 + 5) lit \<bind> (\<lambda>q. Some (n + 1, Some (if q \<noteq> 0 \<and> q > e + 1 + 5
           then keep_info m (e + 1 + 5) (ptr_diff q (e + 1 + 5)) no_info else no_info), k1))
       else if m e = 0x0A then splash_loop lit m w cy (e + 1) (n + 1) k1
       else Some (n + 1, None, k1))"
    by (subst splash_loop.simps) (simp add: p(1) m q d pre line Let_def cong: if_cong)
qed

text \<open>An info block on the first line, and one on the line after it.\<close>

lemma first_line_info:
  assumes "cstr m p xs" and "xs \<noteq> []" and "prefix INF_OPEN (first_line xs)"
  shows "splash_parts xs = ([], Some (drop 5 (first_line xs)))"
    and "c_string (keep_info m (p + 5) (int (length (first_line xs)) - 5) no_info) =
      map byte_char (fitting (drop 5 (first_line xs)))"
proof -
  let ?l = "first_line xs"
  note f = first_line_cases [OF assms(1,2)]
  show "splash_parts xs = ([], Some (drop 5 ?l))"
    using assms(2,3) by (subst splash_parts.simps) (simp add: Let_def)
  have "5 \<le> length ?l" using prefix_length_le [OF assms(3)] by (simp add: INF_OPEN_def)
  then have "cstr m (p + of_nat 5) (drop 5 xs)" "int (length ?l) - 5 = int (length ?l - 5)" "length ?l - 5 \<le> length (drop 5 xs)"
    using f(1) cstr_drop [OF assms(1), of 5] by simp_all
  moreover have "drop 5 ?l = take (length ?l - 5) (drop 5 xs)"
    using arg_cong [OF f(2), of "drop 5"] by (simp only: drop_take)
  ultimately show "c_string (keep_info m (p + 5) (int (length ?l) - 5) no_info) = map byte_char (fitting (drop 5 ?l))"
    using keep_info_string [of m "p + of_nat 5" "drop 5 xs" "length ?l - 5"] by (simp only: of_nat_numeral)
qed

lemma next_line_info:
  assumes c: "cstr m q ys" and lit: "cstr m lit INF_CLOSE" and y: "prefix INF_OPEN ys" "unat q + length ys < 2 ^ 64" "length ys < 2 ^ 31"
  shows "\<exists>e. strstr m (q + 5) lit = Some e \<and>
    c_string (if e \<noteq> 0 \<and> e > q + 5 then keep_info m (q + 5) (ptr_diff e (q + 5)) no_info else no_info) =
      map byte_char (fitting (case occurrence INF_CLOSE (drop 5 ys) of None \<Rightarrow> [] | Some n \<Rightarrow> take n (drop 5 ys)))"
proof -
  have n5: "5 \<le> length ys" using prefix_length_le [OF y(1)] by (simp add: INF_OPEN_def)
  have us: "unat (q + 5) = unat q + 5" using n5 y(2) unat_no_wrap [of q 5] by simp
  then have sz: "q + 5 \<noteq> 0" by (metis unat_0 add_is_0 zero_neq_numeral)
  have cs: "cstr m (q + 5) (drop 5 ys)" using cstr_drop [OF c n5] by simp
  show ?thesis by (rule info_block [OF cs lit sz]) (use us n5 y in simp_all)
qed

text \<open>The turn that prints a line and finds the info block after it, and the one that goes on to the next line.\<close>

lemma splash_turn_line:
  assumes c: "cstr m p xs" and p: "p \<noteq> 0" "unat p + length xs < 2 ^ 64" "length xs < 2 ^ 31"
    and w: "0 \<le> w" "w < 2 ^ 31" and y: "- (2 ^ 31) \<le> cy + n + 1" "cy + n + 1 + int (length xs) < 2 ^ 31"
    and lit: "cstr m lit INF_CLOSE"
    and line: "\<not> prefix INF_OPEN (first_line xs)" "drop (length (first_line xs)) xs = a # ys"
  defines "q \<equiv> p + of_nat (length (first_line xs)) + 1"
  shows "cstr m q ys" and "unat q = unat p + length (first_line xs) + 1" and "length ys + length (first_line xs) + 1 = length xs"
    and "prefix INF_OPEN ys \<Longrightarrow> \<exists>s. splash_loop lit m w cy p n k =
        Some (n + 1, Some s, says (lines_text w (cy + n + 1) [first_line xs]) k) \<and>
      c_string s = map byte_char (fitting (case occurrence INF_CLOSE (drop 5 ys) of None \<Rightarrow> [] | Some n \<Rightarrow> take n (drop 5 ys)))"
    and "\<not> prefix INF_OPEN ys \<Longrightarrow> splash_loop lit m w cy p n k =
      splash_loop lit m w cy q (n + 1) (says (lines_text w (cy + n + 1) [first_line xs]) k)"
proof -
  have ne: "xs \<noteq> []" using line(2) by auto
  note f = first_line_cases [OF c ne, unfolded line(2)] and st = splash_loop_step [OF c ne p w y, folded q_def]
  have e: "m (p + of_nat (length (first_line xs))) = 0x0A" using f(6,7) by simp
  show ys: "cstr m q ys" using f(7) by (simp add: q_def)
  show u: "unat q = unat p + length (first_line xs) + 1" "length ys + length (first_line xs) + 1 = length xs"
    using st(2) f(1) p(2) unat_no_wrap [of "p + of_nat (length (first_line xs))" 1] by (simp_all add: q_def)
  show "splash_loop lit m w cy p n k =
      splash_loop lit m w cy q (n + 1) (says (lines_text w (cy + n + 1) [first_line xs]) k)" if "\<not> prefix INF_OPEN ys"
    unfolding st(1) using line(1) inf_mark_prefix [OF ys] that e by simp
  show "\<exists>s. splash_loop lit m w cy p n k =
        Some (n + 1, Some s, says (lines_text w (cy + n + 1) [first_line xs]) k) \<and>
      c_string s = map byte_char (fitting (case occurrence INF_CLOSE (drop 5 ys) of None \<Rightarrow> [] | Some n \<Rightarrow> take n (drop 5 ys)))"
    if "prefix INF_OPEN ys"
  proof -
    have "length ys < 2 ^ 31" "unat q + length ys < 2 ^ 64" using u p(2,3) by linarith+
    from next_line_info [OF ys lit that this(2,1)] show ?thesis
      unfolding st(1) using line(1) inf_mark_prefix [OF ys] that e by (auto cong: if_cong)
  qed
qed

text \<open>The loop finds the parts of the text and prints the lines.\<close>

lemma splash_loop_parts:
  assumes lit: "cstr m lit INF_CLOSE" and w: "0 \<le> w" "w < 2 ^ 31"
  shows "cstr m p xs \<Longrightarrow> p \<noteq> 0 \<Longrightarrow> unat p + length xs < 2 ^ 64 \<Longrightarrow> length xs < 2 ^ 31 \<Longrightarrow>
    - (2 ^ 31) \<le> cy + n + 1 \<Longrightarrow> cy + n + 1 + int (length xs) < 2 ^ 31 \<Longrightarrow> splash_parts xs = (ls, info) \<Longrightarrow>
    \<exists>s. splash_loop lit m w cy p n k = Some (n + int (length ls), s, says (lines_text w (cy + n + 1) ls) k) \<and>
      map_option c_string s = map_option (map byte_char \<circ> fitting) info"
proof (induction xs arbitrary: p n k ls info rule: measure_induct_rule [of length])
  case (less xs)
  let ?l = "first_line xs" and ?r = "drop (length (first_line xs)) xs"
  let ?e = "p + of_nat (length ?l)" and ?k1 = "says (lines_text w (cy + n + 1) [first_line xs]) k"
  show ?case
  proof (cases "xs = []")
    case True
    then have "m p = 0" using less.prems(1) by simp
    then show ?thesis using less.prems(7) True by (subst splash_loop.simps) (simp add: splash_parts.simps)
  next
    case ne: False
    note f = first_line_cases [OF less.prems(1) ne]
    note st = splash_loop_step [OF less.prems(1) ne less.prems(2-4) w less.prems(5,6)]
    consider (info) "prefix INF_OPEN ?l" | (last) "\<not> prefix INF_OPEN ?l" "?r = []"
      | (line) a ys where "\<not> prefix INF_OPEN ?l" "?r = a # ys" by (meson list.exhaust)
    then show ?thesis
    proof cases
      case info
      with first_line_info [OF less.prems(1) ne info] less.prems(7) show ?thesis by (auto simp: st(1))
    next
      case last
      have "m ?e = 0" using f(7) last(2) by simp
      then have "splash_loop lit m w cy p n k = Some (n + 1, None, ?k1)" unfolding st(1) using last(1) by simp
      moreover have "splash_parts xs = ([?l], None)"
        using last ne by (subst splash_parts.simps) (simp add: Let_def)
      then have "ls = [?l]" "info = None" using less.prems(7) by simp_all
      ultimately show ?thesis by simp
    next
        case line
      note t = splash_turn_line [OF less.prems(1-4) w less.prems(5,6) lit line]
      show ?thesis
      proof (cases "prefix INF_OPEN ys")
        case True
        have "ls = [?l]" "info = Some (case occurrence INF_CLOSE (drop 5 ys) of None \<Rightarrow> [] | Some n \<Rightarrow> take n (drop 5 ys))"
          using less.prems(7) line True ne splash_parts.simps [of xs] by (simp_all add: Let_def cong: option.case_cong)
        moreover obtain s where "splash_loop lit m w cy p n k = Some (n + 1, Some s, ?k1)"
          "c_string s = map byte_char (fitting (case occurrence INF_CLOSE (drop 5 ys) of None \<Rightarrow> [] | Some n \<Rightarrow> take n (drop 5 ys)))"
          using t(4) [OF True] by blast
        ultimately show ?thesis by simp
      next
        case False
        obtain ls' info' where rec: "splash_parts ys = (ls', info')" by (cases "splash_parts ys")
        have "splash_parts xs = (?l # ls', info')"
          using line False ne rec splash_parts.simps [of xs] by (simp add: Let_def)
        then have s: "ls = ?l # ls'" "info = info'" using less.prems(7) by simp_all
        have nz: "?e + 1 \<noteq> 0" using t(2) by (metis unat_0 add_is_0 one_neq_zero)
        have pr: "length ys < length xs" "unat (?e + 1) + length ys < 2 ^ 64" "length ys < 2 ^ 31"
          "- (2 ^ 31) \<le> cy + (n + 1) + 1" "cy + (n + 1) + 1 + int (length ys) < 2 ^ 31"
          using t(2,3) less.prems(3-6) by linarith+
        then show ?thesis unfolding t(5) [OF False]
          using less.IH [OF pr(1) t(1) nz pr(2-5) rec, of ?k1] by (simp add: s add.assoc comp_def)
      qed
    qed
  qed
qed

section \<open>Properties\<close>

lemma count_list_le_length: "count_list xs x \<le> length xs"
  by (induction xs) auto

lemma number_of_lines: "splash_parts xs = (ls, info) \<Longrightarrow> length ls \<le> length xs"
proof (induction xs arbitrary: ls info rule: measure_induct_rule [of length])
  case (less xs)
  let ?r = "drop (length (first_line xs)) xs"
  obtain ls' info' where rec: "splash_parts (tl ?r) = (ls', info')" by (cases "splash_parts (tl ?r)")
  have le: "xs \<noteq> [] \<Longrightarrow> Suc 0 \<le> length xs" by (cases xs) simp_all
  show ?case
  proof (cases "xs = [] \<or> ?r = []")
    case True
    then have "length ls \<le> (if xs = [] then 0 else 1)"
      using less.prems [unfolded splash_parts.simps [of xs] Let_def] by (auto split: if_splits)
    then show ?thesis using le by (simp split: if_splits)
  next
    case False
    then have "length (tl ?r) < length xs" by (cases xs) auto
    from less.IH [OF this rec] this show ?thesis
      using less.prems rec False by (subst (asm) splash_parts.simps) (auto simp: Let_def split: if_splits)
  qed
qed

text \<open>C40: The splash screen. For a string in memory \<^verbatim>\<open>DisplaySplash\<close> terminates and prints the header, each line before
  the info block centred by its own length, and the info, centred and in grey, two rows below the last line. The
  vertical centre counts all line feeds of the text, those in and after the info block too, an info
  of 256 characters or more is replaced by the empty one, and an info block on the first line keeps its closing mark.\<close>

theorem display_splash_text:
  assumes "cstr m txt xs" and "cstr m lit INF_CLOSE" and "txt \<noteq> 0" and "unat txt + length xs < 2 ^ 64"
    and "length xs < 2 ^ 29" and "0 \<le> w" and "w < 2 ^ 31" and "0 \<le> h" and "h < 2 ^ 31"
  shows "DisplaySplash lit m w h txt k = Some (says (splash_text w h xs) k)"
proof -
  obtain ls info where parts: "splash_parts xs = (ls, info)" by (cases "splash_parts xs")
  define y where "y = h div 2 - (int (count_list xs 0x0A) + 1) div 2"
  have y: "- (2 ^ 30) \<le> y" "y < 2 ^ 30"
    using assms(5,8,9) count_list_le_length [of xs "0x0A"] unfolding y_def by (auto simp: zdiv_int)
  have head: "printk_k (CHR 0x1B # ''[0;0HASNU 1.0.0-rc01'') [] k = Some (says (CHR 0x1B # ''[0;0HASNU 1.0.0-rc01'') k)" for k
    by (simp add: printk_k_says NUL_def)
  have count: "count_lf m txt 0 0 = Some (int (count_list xs 0x0A))"
    using count_lf_cstr [of m "txt" 0 xs 0] assms(1,5) by simp
  let ?k1 = "says (CHR 0x1B # ''[0;0HASNU 1.0.0-rc01'') k"
  have "length xs < 2 ^ 31" "- (2 ^ 31) \<le> y + 0 + 1" "y + 0 + 1 + int (length xs) < 2 ^ 31" using assms(5) y by simp_all
  then obtain s where s: "splash_loop lit m w y txt 0 ?k1 = Some (int (length ls), s, says (lines_text w (y + 1) ls) ?k1)"
    "map_option c_string s = map_option (map byte_char \<circ> fitting) info"
    using splash_loop_parts [OF assms(2,6,7,1,3,4) _ _ _ parts, of y 0 ?k1] by auto
  have n: "0 \<le> int (length ls)" "int (length ls) < 2 ^ 29" using number_of_lines [OF parts] assms(5) by simp_all
  have cy: "h sdiv 2 - (int (count_list xs 0x0A) + 1) sdiv 2 = y" using assms(8) by (simp add: y_def sdiv_2)
  have eq: "splash_text w h xs =
      CHR 0x1B # ''[0;0HASNU 1.0.0-rc01'' @ lines_text w (y + 1) ls @ info_text w (y + int (length ls) + 2) info"
    by (simp add: splash_text_def parts y_def Let_def)
  show ?thesis
  proof (cases info)
    case None
    then have "s = None" using s(2) by simp
    then show ?thesis
      using None by (simp add: DisplaySplash_def head count Let_def cy s(1) eq info_text_def)
  next
    case (Some bs0)
    let ?y = "y + int (length ls) + 2" and ?bs = "fitting bs0"
    obtain i where i: "s = Some i" "c_string i = map byte_char ?bs" using s(2) Some by auto
    have yb: "- (2 ^ 31) \<le> ?y" "?y < 2 ^ 31" using y n by simp_all
    have x: "- (2 ^ 31) \<le> center_x w (int (length ?bs)) + 1" "center_x w (int (length ?bs)) + 1 < 2 ^ 31"
      using center_x_bounds [OF assms(6,7), of "int (length ?bs)"] by simp_all
    have "length (c_string i) = length ?bs" by (simp add: i(2))
    then show ?thesis
      using Some by (simp add: DisplaySplash_def head count Let_def cy s(1) i(1) go_to_says [OF yb x] eq info_text_def row_says [OF yb]
          grey_says [simplified] i(2) del: of_int_add)
  qed
qed

text \<open>A screen of 80 by 25 characters; the text has one line and the info \<^verbatim>\<open>b\<close>.\<close>

definition splash_demo :: "u8 list" where
  "splash_demo = [65, 0x0A] @ INF_OPEN @ [98] @ INF_CLOSE"

definition splash_mem :: mem where
  "splash_mem a = (if 16 \<le> a \<and> a < 29 then splash_demo ! unat (a - 16)
     else if 64 \<le> a \<and> a < 69 then INF_CLOSE ! unat (a - 64) else 0)"

lemma splash_demo_text:
  "splash_text 80 25 splash_demo = CHR 0x1B # ''[0;0HASNU 1.0.0-rc01'' @ CHR 0x1B # ''[12;41HA'' @
     CHR 0x1B # ''[14;1H'' @ CHR 0x1B # ''[14;41H'' @ CHR 0x1B # ''[90mb'' @ CHR 0x1B # ''[0m''"
proof -
  have o: "occurrence INF_CLOSE (drop 5 (INF_OPEN @ [98] @ INF_CLOSE)) = Some 1" by (simp add: INF_CLOSE_def INF_OPEN_def)
  have p: "splash_parts splash_demo = ([[65]], Some [98])"
    using o by (subst splash_parts.simps) (simp add: splash_demo_def first_line_def Let_def INF_OPEN_def)
  have d: "decimal 12 = ''12''" "decimal 14 = ''14''" "decimal 41 = ''41''" "decimal 1 = ''1''"
    by (simp_all add: decimal_def nat_text.simps digit_def digit_char_def char_of_def bit_Suc_0_iff)
  have b: "byte_char 65 = CHR ''A''" "byte_char 98 = CHR ''b''" by (simp_all add: byte_char_def char_of_def bit_Suc_0_iff)
  have x: "center_x 80 1 = 40" by (simp add: center_x_def Let_def signed_divide_int_def)
  have c: "count_list splash_demo 0x0A = 1" by (simp add: splash_demo_def INF_OPEN_def INF_CLOSE_def)
  show ?thesis by (simp add: splash_text_def p c Let_def goes_to_def info_text_def fitting_def x d b)
qed

theorem display_splash_text_witness:
  "DisplaySplash 64 splash_mem 80 25 16 boot_machine =
     Some (says (CHR 0x1B # ''[0;0HASNU 1.0.0-rc01'' @ CHR 0x1B # ''[12;41HA'' @
       CHR 0x1B # ''[14;1H'' @ CHR 0x1B # ''[14;41H'' @ CHR 0x1B # ''[90mb'' @ CHR 0x1B # ''[0m'') boot_machine)"
proof -
  have "cstr splash_mem 16 splash_demo" "cstr splash_mem 64 INF_CLOSE"
    by (simp_all add: splash_demo_def INF_OPEN_def INF_CLOSE_def splash_mem_def)
  then show ?thesis
    using display_splash_text [of splash_mem 16 splash_demo 64 80 25 boot_machine] unfolding splash_demo_text
    by (simp add: splash_demo_def INF_OPEN_def INF_CLOSE_def)
qed
end
