(* ===== verification/Printk_Types.thy ===== *)
theory Printk_Types
  imports Printk_Spec
begin

text \<open>
  Types for \<^verbatim>\<open>printk\<close>. C does not check the arguments of a variadic function; reading an argument that is not
  there, or a string where an integer was passed, is undefined. The types a format asks for can be
  read off the format alone, and \<^verbatim>\<open>printk\<close> is defined exactly when the arguments have them.
\<close>

section \<open>Types of formats\<close>

text \<open>
  The types of the arguments that a format asks for: integers and pointers, or strings. A format that
  ends within a directive has no type.
\<close>

datatype ty = IntTy | StrTy

fun ty_of :: "varg \<Rightarrow> ty" where
  "ty_of (VInt v) = IntTy"
| "ty_of (VStr s) = StrTy"

definition width_type :: "string \<Rightarrow> string \<times> ty list" where
  "width_type fmt =
     (if is_digit (peek fmt) then (dropWhile is_digit fmt, [])
      else if peek fmt = CHR ''*'' then (tl fmt, [IntTy]) else (fmt, []))"

definition precision_type :: "string \<Rightarrow> string \<times> ty list" where
  "precision_type fmt = (if peek fmt = CHR ''.'' then width_type (tl fmt) else (fmt, []))"

definition specifier_type :: "string \<Rightarrow> (string \<times> ty list) option" where
  "specifier_type fmt =
     (let c = peek fmt
      in if int_specifier c \<or> c = CHR ''c'' \<or> c = CHR ''p'' then Some (tl fmt, [IntTy])
         else if c = CHR ''s'' then Some (tl fmt, [StrTy])
         else if c = NUL then None else Some (tl fmt, []))"

definition directive_type :: "string \<Rightarrow> (string \<times> ty list) option" where
  "directive_type fmt =
     (case width_type (dropWhile (\<lambda>c. c \<in> set ''0-+ #'') fmt) of (fmt1, ts1) \<Rightarrow>
      case precision_type fmt1 of (fmt2, ts2) \<Rightarrow>
      map_option (\<lambda>(fmt3, ts3). (fmt3, ts1 @ ts2 @ ts3)) (specifier_type (snd (parse_length fmt2 0))))"

text \<open>An argument list is consumed up to the given types, or does not have them.\<close>

definition takes :: "ty list \<Rightarrow> varg list \<Rightarrow> varg list option" where
  "takes ts va = (if map ty_of (take (length ts) va) = ts then Some (drop (length ts) va) else None)"

lemma takes_simps [simp]: "takes [] va = Some va" "takes (t # ts) [] = None"
  "takes (t # ts) (v # va) = (if ty_of v = t then takes ts va else None)"
  by (auto simp: takes_def)

lemma takes_append: "takes (ts @ us) va = Option.bind (takes ts va) (takes us)"
proof (induction ts arbitrary: va)
  case (Cons t ts)
  then show ?case by (cases va) auto
qed simp

lemma va_int_takes: "map_option snd (va_int va) = takes [IntTy] va"
  by (cases va rule: va_int.cases) simp_all

lemma va_str_takes: "map_option snd (va_str va) = takes [StrTy] va"
  by (cases va rule: va_str.cases) simp_all

lemma parse_flags_rest: "snd (parse_flags fmt flags) = dropWhile (\<lambda>c. c \<in> set ''0-+ #'') fmt"
  by (induction fmt flags rule: parse_flags.induct) auto

lemma atoi_rest: "snd (atoi fmt i) = dropWhile is_digit fmt"
  by (induction fmt i rule: atoi.induct) auto

lemma parse_width_type:
  "map_option (\<lambda>(w, flags, fmt', va'). (fmt', va')) (parse_width fmt flags va) =
    (case width_type fmt of (fmt', ts) \<Rightarrow> map_option (Pair fmt') (takes ts va))"
  using atoi_rest [of fmt 0]
  by (cases va rule: va_int.cases) (auto simp: parse_width_def width_type_def Let_def split: prod.splits)

lemma parse_precision_type:
  "map_option (\<lambda>(w, flags, fmt', va'). (fmt', va')) (parse_precision fmt flags va) =
    (case precision_type fmt of (fmt', ts) \<Rightarrow> map_option (Pair fmt') (takes ts va))"
  using atoi_rest [of "tl fmt" 0]
  by (cases va rule: va_int.cases)
    (auto simp: parse_precision_def precision_type_def width_type_def Let_def split: prod.splits)

lemma specifier_text_type:
  "map_option (\<lambda>(fmt', va', t). (fmt', va')) (specifier_text flags width precision fmt va) =
    Option.bind (specifier_type fmt) (\<lambda>(fmt', ts). map_option (Pair fmt') (takes ts va))"
  by (cases va rule: va_int.cases)
    (auto simp: specifier_text_def specifier_type_def Let_def int_specifier_def NUL_def split: prod.splits)

lemma parse_length_rest: "snd (parse_length fmt flags) = snd (parse_length fmt 0)"
  by (simp add: parse_length_def)

lemma directive_text_type:
  "map_option (\<lambda>(fmt', va', t). (fmt', va')) (directive_text fmt va) =
    Option.bind (directive_type fmt) (\<lambda>(fmt', ts). map_option (Pair fmt') (takes ts va))"
proof -
  obtain f1 fmt1 where 1: "parse_flags fmt 0 = (f1, fmt1)" by (cases "parse_flags fmt 0")
  have d: "dropWhile (\<lambda>c. c \<in> set ''0-+ #'') fmt = fmt1" using parse_flags_rest [of fmt 0] 1 by simp
  obtain fmt2 ts2 where 2: "width_type fmt1 = (fmt2, ts2)" by (cases "width_type fmt1")
  obtain fmt3 ts3 where 3: "precision_type fmt2 = (fmt3, ts3)" by (cases "precision_type fmt2")
  note w = parse_width_type [of fmt1 f1 va, unfolded 2 prod.case]
  show ?thesis
  proof (cases "takes ts2 va")
    case None
    then have "parse_width fmt1 f1 va = None" using w by simp
    then show ?thesis using 1 2 3 d None
      by (cases "specifier_type (snd (parse_length fmt3 0))") (auto simp: directive_text_def directive_type_def takes_append)
  next
    case (Some va2)
    then obtain wd f2 where pw: "parse_width fmt1 f1 va = Some (wd, f2, fmt2, va2)" using w by auto
    note p = parse_precision_type [of fmt2 f2 va2, unfolded 3 prod.case]
    show ?thesis
    proof (cases "takes ts3 va2")
      case None
      then have "parse_precision fmt2 f2 va2 = None" using p by simp
      then show ?thesis using 1 2 3 d Some None pw
        by (cases "specifier_type (snd (parse_length fmt3 0))") (auto simp: directive_text_def directive_type_def takes_append)
    next
      case S3: (Some va3)
      then obtain pr f3 where pp: "parse_precision fmt2 f2 va2 = Some (pr, f3, fmt3, va3)" using p by auto
      obtain f4 fmt4 where 4: "parse_length fmt3 f3 = (f4, fmt4)" by (cases "parse_length fmt3 f3")
      have "snd (parse_length fmt3 0) = fmt4" using parse_length_rest [of fmt3 f3] 4 by simp
      then show ?thesis using 1 2 3 d Some pw S3 pp 4 specifier_text_type [of f4 wd pr fmt4 va3]
        by (cases "specifier_type fmt4") (auto simp: directive_text_def directive_type_def takes_append)
    qed
  qed
qed

lemma directive_type_length: "directive_type fmt = Some (fmt', ts) \<Longrightarrow> length fmt' < length fmt"
proof -
  have t: "\<exists>va. takes ts va = Some []" for ts
    by (rule exI [of _ "map (\<lambda>t. case t of IntTy \<Rightarrow> VInt 0 | StrTy \<Rightarrow> VStr []) ts"])
      (induction ts; simp split: ty.split)
  assume d: "directive_type fmt = Some (fmt', ts)"
  obtain va where "takes ts va = Some []" using t by blast
  with d directive_text_type [of fmt va] show "length fmt' < length fmt"
    by (auto dest: directive_text_length)
qed

function format_type :: "string \<Rightarrow> ty list option" where
  "format_type [] = Some []"
| "format_type (c # cs) =
     (if c = NUL then Some []
      else if c \<noteq> CHR ''%'' then format_type cs
      else (case directive_type cs of None \<Rightarrow> None
            | Some (fmt', ts) \<Rightarrow> map_option ((@) ts) (format_type fmt')))"
  by pat_completeness auto
termination
  by (relation "measure length") (auto dest: directive_type_length)

text \<open>The arguments have the types that the format asks for; further arguments are ignored.\<close>

definition well_typed :: "string \<Rightarrow> varg list \<Rightarrow> bool" where
  "well_typed fmt va \<longleftrightarrow> (\<exists>ts. format_type fmt = Some ts \<and> map ty_of (take (length ts) va) = ts)"

lemma format_text_takes: "format_text fmt va \<noteq> None \<longleftrightarrow> (\<exists>ts. format_type fmt = Some ts \<and> takes ts va \<noteq> None)"
proof (induction fmt va rule: format_text.induct)
  case (2 c cs va)
  consider "c = NUL" | "c \<noteq> NUL" "c \<noteq> CHR ''%''" | "c = CHR ''%''" "c \<noteq> NUL" by blast
  then show ?case
  proof cases
    case 3
    note d = directive_text_type [of cs va]
    show ?thesis
    proof (cases "directive_type cs")
      case None
      then show ?thesis using d 3 by simp
    next
      case (Some r)
      obtain fmt' ts where r: "r = (fmt', ts)" by (cases r)
      show ?thesis
      proof (cases "takes ts va")
        case None
        then have "directive_text cs va = None" using d Some r by simp
        then show ?thesis using 3 Some r None by (auto simp: takes_append)
      next
        case t: (Some va')
        then obtain u where u: "directive_text cs va = Some (fmt', va', u)" using d Some r by auto
        show ?thesis using "2.IH"(2) [OF 3(2) _ u refl refl] 3 Some r t u by (auto simp: takes_append)
      qed
    qed
  qed (use 2 in auto)
qed simp

section \<open>Properties\<close>

end
