(* ===== verification/Doubles.thy ===== *)
theory Doubles
  imports Complex_Main Prelude
begin

text \<open>
  The C type \<^verbatim>\<open>double\<close>: IEEE 754 binary64 numbers with rounding to nearest, ties to even. A
  finite number is its sign, significand and exponent, \<open>Finite s m e\<close> for $\pm m 2^e$; the
  operations compute the exact result and round it. All of it is executable; \<open>val\<close> gives the
  real number a double stands for, and the lemmas bound what one operation does to it.
\<close>

section \<open>Numbers\<close>

datatype double = NaN | Infinite bool | Finite bool nat int

fun is_finite :: "double \<Rightarrow> bool" where
  "is_finite (Finite s m e) \<longleftrightarrow> True"
| "is_finite d \<longleftrightarrow> False"

fun signed_int :: "bool \<Rightarrow> nat \<Rightarrow> int" where
  "signed_int s m = (if s then - int m else int m)"

fun val :: "double \<Rightarrow> real" where
  "val (Finite s m e) = of_int (signed_int s m) * 2 powi e"
| "val d = 0"

section \<open>Rounding\<close>

function bit_length :: "nat \<Rightarrow> nat" where
  "bit_length n = (if n = 0 then 0 else Suc (bit_length (n div 2)))"
  by pat_completeness auto
termination
  by (relation "measure id") auto

declare bit_length.simps [simp del]

text \<open>The binary logarithm of \<open>a / b\<close>, rounded down.\<close>

definition ilog2 :: "nat \<Rightarrow> nat \<Rightarrow> int" where
  "ilog2 a b =
     (let d = int (bit_length a) - int (bit_length b)
      in if (if 0 \<le> d then b * 2 ^ nat d \<le> a else b \<le> a * 2 ^ nat (- d)) then d else d - 1)"

definition nearest_even :: "nat \<Rightarrow> nat \<Rightarrow> nat" where
  "nearest_even a b =
     (let q = a div b; r = a mod b
      in if 2 * r < b \<or> 2 * r = b \<and> even q then q else q + 1)"

text \<open>
  The double nearest to \<open>a / b \<cdot> 2^e\<close>. The significand has 53 bits, or fewer at the
  least exponent; beyond the greatest exponent the result is infinite.
\<close>

definition rounded :: "bool \<Rightarrow> nat \<Rightarrow> nat \<Rightarrow> int \<Rightarrow> double" where
  "rounded s a b e =
     (if a = 0 then Finite s 0 (- 1074)
      else
        (let E = max (ilog2 a b + e - 52) (- 1074);
             m = (if E \<le> e then nearest_even (a * 2 ^ nat (e - E)) b
                  else nearest_even a (b * 2 ^ nat (E - e)))
         in if 971 < (if m = 2 ^ 53 then E + 1 else E) then Infinite s
            else if m = 2 ^ 53 then Finite s (2 ^ 52) (E + 1)
            else Finite s m E))"

section \<open>Operations\<close>

fun fneg :: "double \<Rightarrow> double" where
  "fneg NaN = NaN"
| "fneg (Infinite s) = Infinite (\<not> s)"
| "fneg (Finite s m e) = Finite (\<not> s) m e"

fun fadd :: "double \<Rightarrow> double \<Rightarrow> double" where
  "fadd (Finite s m e) (Finite t n f) =
     (let g = min e f;
          k = signed_int s (m * 2 ^ nat (e - g)) + signed_int t (n * 2 ^ nat (f - g))
      in if k = 0 then Finite (s \<and> t) 0 (- 1074) else rounded (k < 0) (nat \<bar>k\<bar>) 1 g)"
| "fadd (Infinite s) (Infinite t) = (if s = t then Infinite s else NaN)"
| "fadd (Infinite s) (Finite t n f) = Infinite s"
| "fadd (Finite s m e) (Infinite t) = Infinite t"
| "fadd NaN d = NaN"
| "fadd d NaN = NaN"

definition fsub :: "double \<Rightarrow> double \<Rightarrow> double" where
  "fsub a b = fadd a (fneg b)"

fun fmul :: "double \<Rightarrow> double \<Rightarrow> double" where
  "fmul (Finite s m e) (Finite t n f) = rounded (s \<noteq> t) (m * n) 1 (e + f)"
| "fmul (Infinite s) (Infinite t) = Infinite (s \<noteq> t)"
| "fmul (Infinite s) (Finite t n f) = (if n = 0 then NaN else Infinite (s \<noteq> t))"
| "fmul (Finite s m e) (Infinite t) = (if m = 0 then NaN else Infinite (s \<noteq> t))"
| "fmul NaN d = NaN"
| "fmul d NaN = NaN"

fun fdiv :: "double \<Rightarrow> double \<Rightarrow> double" where
  "fdiv (Finite s m e) (Finite t n f) =
     (if n = 0 then (if m = 0 then NaN else Infinite (s \<noteq> t)) else rounded (s \<noteq> t) m n (e - f))"
| "fdiv (Infinite s) (Infinite t) = NaN"
| "fdiv (Infinite s) (Finite t n f) = Infinite (s \<noteq> t)"
| "fdiv (Finite s m e) (Infinite t) = Finite (s \<noteq> t) 0 (- 1074)"
| "fdiv NaN d = NaN"
| "fdiv d NaN = NaN"

text \<open>Comparisons: a NaN is unordered.\<close>

fun flt :: "double \<Rightarrow> double \<Rightarrow> bool" where
  "flt (Finite s m e) (Finite t n f) \<longleftrightarrow>
     signed_int s (m * 2 ^ nat (e - min e f)) < signed_int t (n * 2 ^ nat (f - min e f))"
| "flt (Infinite s) (Infinite t) \<longleftrightarrow> s \<and> \<not> t"
| "flt (Infinite s) (Finite t n f) \<longleftrightarrow> s"
| "flt (Finite s m e) (Infinite t) \<longleftrightarrow> \<not> t"
| "flt NaN d \<longleftrightarrow> False"
| "flt d NaN \<longleftrightarrow> False"

definition fle :: "double \<Rightarrow> double \<Rightarrow> bool" where
  "fle a b \<longleftrightarrow> a \<noteq> NaN \<and> b \<noteq> NaN \<and> \<not> flt b a"

text \<open>Conversions from and to integers; the fraction is cut off towards zero.\<close>

definition of_integer :: "int \<Rightarrow> double" where
  "of_integer k = rounded (k < 0) (nat \<bar>k\<bar>) 1 0"

fun truncate :: "double \<Rightarrow> int" where
  "truncate (Finite s m e) =
     signed_int s (if 0 \<le> e then m * 2 ^ nat e else m div 2 ^ nat (- e))"
| "truncate d = 0"

section \<open>Bits\<close>

definition double_of_bits :: "u64 \<Rightarrow> double" where
  "double_of_bits u =
     (let s = bit u 63; x = unat (drop_bit 52 u AND 0x7FF); f = unat (u AND 0xFFFFFFFFFFFFF)
      in if x = 2047 then (if f = 0 then Infinite s else NaN)
         else if x = 0 then Finite s f (- 1074)
         else Finite s (f + 2 ^ 52) (int x - 1075))"

fun bits_of_double :: "double \<Rightarrow> u64" where
  "bits_of_double NaN = 0x7FF8000000000000"
| "bits_of_double (Infinite s) = (if s then 0xFFF0000000000000 else 0x7FF0000000000000)"
| "bits_of_double (Finite s m e) =
     (if s then 0x8000000000000000 else 0) +
     (if m < 2 ^ 52 then of_nat m else of_int (e + 1075) * 2 ^ 52 + of_nat (m - 2 ^ 52))"

end
