(* ===== verification/Printk_Float.thy ===== *)
theory Printk_Float
  imports Printk Doubles
begin

text \<open>
  Model of the floating-point conversions of \<^verbatim>\<open>printk.c\<close>, \<^verbatim>\<open>_ftoa\<close> and \<^verbatim>\<open>_etoa\<close>, and
  of the cases of the format switch that call them. The source has them under
  \<^verbatim>\<open>PRINTF_SUPPORT_FLOAT\<close>, which the build of the kernel leaves undefined: this is the model of
  the code as it is when the macro is defined.

  The digit buffer \<^verbatim>\<open>buf[0 .. len)\<close> is a list, least significant character first. The two
  functions call each other; the first argument of their models bounds the depth of the calls,
  and theory \<open>Printk_Exp_Spec\<close> shows that depth 3 is enough. \<open>None\<close> stands for a read
  outside the table of powers of ten, or a depth that is too small. Every operation rounds to
  \<^verbatim>\<open>double\<close>, as SSE2 code without fused operations does.
\<close>

definition FLAGS_ADAPT_EXP :: u32 where "FLAGS_ADAPT_EXP = 2048"

definition PRINTF_FTOA_BUFFER_SIZE :: nat where
  "PRINTF_FTOA_BUFFER_SIZE = 32"

definition PRINTF_DEFAULT_FLOAT_PRECISION :: u32 where
  "PRINTF_DEFAULT_FLOAT_PRECISION = 6"

definition PRINTF_MAX_FLOAT :: double where
  "PRINTF_MAX_FLOAT = of_integer 1000000000"

definition DBL_MAX :: double where
  "DBL_MAX = Finite False (2 ^ 53 - 1) 971"

text \<open>A decimal literal \<open>n / 10^k\<close>.\<close>

definition literal :: "int \<Rightarrow> nat \<Rightarrow> double" where
  "literal n k = rounded (n < 0) (nat \<bar>n\<bar>) (10 ^ k) 0"

section \<open>\<^verbatim>\<open>_ftoa\<close>\<close>

text \<open>\<^verbatim>\<open>static const double pow10[]\<close>; an index beyond the table is undefined behaviour.\<close>

definition pow10 :: "u32 \<Rightarrow> double option" where
  "pow10 prec = (if prec \<le> 9 then Some (of_integer (10 ^ unat prec)) else None)"

text \<open>\<^verbatim>\<open>while ((len < PRINTF_FTOA_BUFFER_SIZE) && (prec > 9U)) { buf[len++] = '0'; prec--; }\<close>\<close>

function ftoa_limit :: "u32 \<Rightarrow> string \<Rightarrow> u32 \<times> string" where
  "ftoa_limit prec buf =
     (if length buf < PRINTF_FTOA_BUFFER_SIZE \<and> 9 < prec
      then ftoa_limit (prec - 1) (buf @ ''0'') else (prec, buf))"
  by pat_completeness auto
termination
  by (relation "measure (\<lambda>(prec, buf). PRINTF_FTOA_BUFFER_SIZE - length buf)") auto

text \<open>The digits of \<^verbatim>\<open>frac\<close>, with \<^verbatim>\<open>count\<close> counting down and wrapping around.\<close>

function ftoa_frac :: "nat \<Rightarrow> u32 \<Rightarrow> string \<Rightarrow> u32 \<times> string" where
  "ftoa_frac fraction count buf =
     (if length buf < PRINTF_FTOA_BUFFER_SIZE
      then (let buf1 = buf @ [char_of (48 + fraction mod 10)]
            in if fraction div 10 = 0 then (count - 1, buf1) else ftoa_frac (fraction div 10) (count - 1) buf1)
      else (count, buf))"
  by pat_completeness auto
termination
  by (relation "measure (\<lambda>(fraction, count, buf). PRINTF_FTOA_BUFFER_SIZE - length buf)") auto

text \<open>\<^verbatim>\<open>while ((len < PRINTF_FTOA_BUFFER_SIZE) && (count-- > 0U)) buf[len++] = '0'\<close>\<close>

function ftoa_zeros :: "u32 \<Rightarrow> string \<Rightarrow> string" where
  "ftoa_zeros count buf =
     (if length buf < PRINTF_FTOA_BUFFER_SIZE \<and> 0 < count
      then ftoa_zeros (count - 1) (buf @ ''0'') else buf)"
  by pat_completeness auto
termination
  by (relation "measure (\<lambda>(count, buf). PRINTF_FTOA_BUFFER_SIZE - length buf)") auto

function ftoa_whole :: "nat \<Rightarrow> string \<Rightarrow> string" where
  "ftoa_whole whole buf =
     (if length buf < PRINTF_FTOA_BUFFER_SIZE
      then (let buf1 = buf @ [char_of (48 + whole mod 10)]
            in if whole div 10 = 0 then buf1 else ftoa_whole (whole div 10) buf1)
      else buf)"
  by pat_completeness auto
termination
  by (relation "measure (\<lambda>(whole, buf). PRINTF_FTOA_BUFFER_SIZE - length buf)") auto

text \<open>\<^verbatim>\<open>while ((len < width) && (len < PRINTF_FTOA_BUFFER_SIZE)) buf[len++] = '0'\<close>\<close>

function ftoa_fill :: "u32 \<Rightarrow> string \<Rightarrow> string" where
  "ftoa_fill width buf =
     (if length buf < unat width \<and> length buf < PRINTF_FTOA_BUFFER_SIZE
      then ftoa_fill width (buf @ ''0'') else buf)"
  by pat_completeness auto
termination
  by (relation "measure (\<lambda>(width, buf). PRINTF_FTOA_BUFFER_SIZE - length buf)") auto

declare ftoa_limit.simps [simp del] ftoa_frac.simps [simp del] ftoa_zeros.simps [simp del]
  ftoa_whole.simps [simp del] ftoa_fill.simps [simp del]

definition ftoa_put :: "string \<Rightarrow> char \<Rightarrow> string" where
  "ftoa_put buf c = (if length buf < PRINTF_FTOA_BUFFER_SIZE then buf @ [c] else buf)"

text \<open>
  \<^verbatim>\<open>whole\<close> and \<^verbatim>\<open>frac\<close>: \<^verbatim>\<open>value\<close> is at most \<^verbatim>\<open>PRINTF_MAX_FLOAT\<close> here and not negative, so
  that both fit their C types. Only the first branch carries into the whole part.
\<close>

definition ftoa_split :: "double \<Rightarrow> double \<Rightarrow> nat \<times> nat" where
  "ftoa_split v p10 =
     (let whole = truncate v;
          tmp = fmul (fsub v (of_integer whole)) p10;
          fraction = truncate tmp;
          diff = fsub tmp (of_integer fraction);
          half = literal 5 1
      in if flt half diff then
           (if fle p10 (of_integer (fraction + 1)) then (nat whole + 1, 0) else (nat whole, nat fraction + 1))
         else if flt diff half then (nat whole, nat fraction)
         else if fraction = 0 \<or> odd fraction then (nat whole, nat fraction + 1)
         else (nat whole, nat fraction))"

text \<open>The rounding of the whole part for precision 0.\<close>

definition ftoa_round :: "double \<Rightarrow> nat \<Rightarrow> nat" where
  "ftoa_round v whole =
     (let diff = fsub v (of_integer (int whole)); half = literal 5 1
      in if (\<not> flt diff half \<or> flt half diff) \<and> odd whole then whole + 1 else whole)"

definition ftoa_point :: "u32 \<Rightarrow> nat \<Rightarrow> string \<Rightarrow> string" where
  "ftoa_point prec fraction buf =
     (case ftoa_frac fraction prec buf of (count, buf1) \<Rightarrow> ftoa_put (ftoa_zeros count buf1) CHR ''.'')"

definition ftoa_width :: "bool \<Rightarrow> u32 \<Rightarrow> u32 \<Rightarrow> u32" where
  "ftoa_width negative width flags =
     (if \<not> has flags FLAGS_LEFT \<and> has flags FLAGS_ZEROPAD \<and> width \<noteq> 0 \<and>
         (negative \<or> has flags (FLAGS_PLUS OR FLAGS_SPACE))
      then width - 1 else width)"

definition ftoa_sign :: "bool \<Rightarrow> u32 \<Rightarrow> string \<Rightarrow> string" where
  "ftoa_sign negative flags buf =
     (if negative then ftoa_put buf CHR ''-''
      else if has flags FLAGS_PLUS then ftoa_put buf CHR ''+''
      else if has flags FLAGS_SPACE then ftoa_put buf CHR '' ''
      else buf)"

text \<open>The part of \<^verbatim>\<open>_ftoa\<close> after the tests for special and large values: the buffer and the width.\<close>

definition ftoa_fixed :: "double \<Rightarrow> u32 \<Rightarrow> u32 \<Rightarrow> u32 \<Rightarrow> (string \<times> u32) option" where
  "ftoa_fixed value0 prec0 width0 flags =
     (let negative = flt value0 (of_integer 0);
          v = (if negative then fsub (of_integer 0) value0 else value0);
          prec1 = (if has flags FLAGS_PRECISION then prec0 else PRINTF_DEFAULT_FLOAT_PRECISION)
      in case ftoa_limit prec1 [] of (prec, buf0) \<Rightarrow>
           (case pow10 prec of None \<Rightarrow> None
            | Some p10 \<Rightarrow>
                (case ftoa_split v p10 of (whole, fraction) \<Rightarrow>
                   let buf1 = (if prec = 0 then buf0 else ftoa_point prec fraction buf0);
                       buf2 = ftoa_whole (if prec = 0 then ftoa_round v whole else whole) buf1;
                       width = ftoa_width negative width0 flags;
                       buf3 = (if \<not> has flags FLAGS_LEFT \<and> has flags FLAGS_ZEROPAD
                               then ftoa_fill width buf2 else buf2)
                   in Some (ftoa_sign negative flags buf3, width))))"

section \<open>\<^verbatim>\<open>_etoa\<close>\<close>

text \<open>The decimal exponent: an approximation of the logarithm from the bits of \<^verbatim>\<open>value\<close>.\<close>

definition etoa_exponent :: "double \<Rightarrow> int" where
  "etoa_exponent value =
     (let U = bits_of_double value;
          exp2 = int (unat (drop_bit 52 U AND 0x7FF)) - 1023;
          F = double_of_bits ((U AND (push_bit 52 1 - 1)) OR push_bit 52 1023)
      in truncate (fadd (fadd (literal 1760912590558 13) (fmul (of_integer exp2) (literal 301029995663981 15)))
           (fmul (fsub F (literal 15 1)) (literal 289529654602168 15))))"

text \<open>\<^verbatim>\<open>10^expval\<close>, by a continued fraction for the exponential function.\<close>

definition etoa_power :: "int \<Rightarrow> double" where
  "etoa_power expval =
     (let exp2 = truncate (fadd (fmul (of_integer expval) (literal 3321928094887362 15)) (literal 5 1));
          z = fsub (fmul (of_integer expval) (literal 2302585092994046 15))
                (fmul (of_integer exp2) (literal 6931471805599453 16));
          z2 = fmul z z;
          F = double_of_bits (push_bit 52 (of_int (exp2 + 1023)));
          d = fadd (fsub (of_integer 2) z)
                (fdiv z2 (fadd (of_integer 6) (fdiv z2 (fadd (of_integer 10) (fdiv z2 (of_integer 14))))))
      in fmul F (fadd (of_integer 1) (fdiv (fmul (of_integer 2) z) d)))"

text \<open>Exponent and power after the correction for rounding errors.\<close>

definition etoa_scale :: "double \<Rightarrow> int \<times> double" where
  "etoa_scale v =
     (let expval = etoa_exponent v; F = etoa_power expval
      in if flt v F then (expval - 1, fdiv F (of_integer 10)) else (expval, F))"

text \<open>Precision, flags, width of the exponent and exponent after the \<^verbatim>\<open>%g\<close> mode.\<close>

definition etoa_adapt :: "double \<Rightarrow> u32 \<Rightarrow> u32 \<Rightarrow> int \<Rightarrow> u32 \<times> u32 \<times> u32 \<times> int" where
  "etoa_adapt v prec flags expval =
     (let minwidth = (if expval < 100 \<and> - 100 < expval then 4 else 5)
      in if has flags FLAGS_ADAPT_EXP then
           (if fle (literal 1 4) v \<and> flt v (literal 1000000 0) then
              (if expval < sint prec then prec - of_int expval - 1 else 0, flags OR FLAGS_PRECISION, 0, 0)
            else (if 0 < prec \<and> has flags FLAGS_PRECISION then prec - 1 else prec, flags, minwidth, expval))
         else (prec, flags, minwidth, expval))"

definition etoa_fwidth :: "u32 \<Rightarrow> u32 \<Rightarrow> u32 \<Rightarrow> u32" where
  "etoa_fwidth width minwidth flags =
     (let fwidth = (if minwidth < width then width - minwidth else 0)
      in if has flags FLAGS_LEFT \<and> minwidth \<noteq> 0 then 0 else fwidth)"

text \<open>The exponent part that follows the number.\<close>

definition etoa_suffix ::
  "'s out_fct \<Rightarrow> u64 \<Rightarrow> u64 \<Rightarrow> u64 \<Rightarrow> u32 \<Rightarrow> u32 \<Rightarrow> u32 \<Rightarrow> int \<Rightarrow> u64 \<times> 's \<Rightarrow> u64 \<times> 's" where
  "etoa_suffix out buffer start_idx maxlen width flags minwidth expval st =
     (if minwidth \<noteq> 0 then
        (let st1 = out_chars out buffer maxlen (if has flags FLAGS_UPPERCASE then ''E'' else ''e'') st;
             st2 = (case st1 of (idx, s) \<Rightarrow>
               ntoa_long out buffer idx maxlen (of_int \<bar>expval\<bar>) (expval < 0) 10 0 (minwidth - 1)
                 (FLAGS_ZEROPAD OR FLAGS_PLUS) s)
         in if has flags FLAGS_LEFT then out_left_pad out buffer maxlen start_idx (ucast width) st2 else st2)
      else st)"

fun ftoa :: "nat \<Rightarrow> 's out_fct \<Rightarrow> u64 \<Rightarrow> u64 \<Rightarrow> u64 \<Rightarrow> double \<Rightarrow> u32 \<Rightarrow> u32 \<Rightarrow> u32 \<Rightarrow> 's \<Rightarrow> (u64 \<times> 's) option"
  and etoa :: "nat \<Rightarrow> 's out_fct \<Rightarrow> u64 \<Rightarrow> u64 \<Rightarrow> u64 \<Rightarrow> double \<Rightarrow> u32 \<Rightarrow> u32 \<Rightarrow> u32 \<Rightarrow> 's \<Rightarrow> (u64 \<times> 's) option"
where
  "ftoa 0 out buffer idx maxlen value prec width flags s = None"
| "ftoa (Suc n) out buffer idx maxlen value prec width flags s =
     (if value = NaN then Some (out_rev out buffer idx maxlen ''nan'' width flags s)
      else if flt value (fneg DBL_MAX) then Some (out_rev out buffer idx maxlen ''fni-'' width flags s)
      else if flt DBL_MAX value then
        Some (out_rev out buffer idx maxlen (if has flags FLAGS_PLUS then ''fni+'' else ''fni'') width flags s)
      else if flt PRINTF_MAX_FLOAT value \<or> flt value (fneg PRINTF_MAX_FLOAT) then
        etoa n out buffer idx maxlen value prec width flags s
      else map_option (\<lambda>(buf, w). out_rev out buffer idx maxlen buf w flags s) (ftoa_fixed value prec width flags))"
| "etoa 0 out buffer idx maxlen value prec width flags s = None"
| "etoa (Suc n) out buffer idx maxlen value prec width flags s =
     (if value = NaN \<or> flt DBL_MAX value \<or> flt value (fneg DBL_MAX) then
        ftoa n out buffer idx maxlen value prec width flags s
      else
        (let negative = flt value (of_integer 0);
             v = (if negative then fneg value else value);
             prec1 = (if has flags FLAGS_PRECISION then prec else PRINTF_DEFAULT_FLOAT_PRECISION)
         in case etoa_scale v of (expval0, F) \<Rightarrow>
            (case etoa_adapt v prec1 flags expval0 of (prec2, flags2, minwidth, expval) \<Rightarrow>
               let v2 = (if expval \<noteq> 0 then fdiv v F else v)
               in map_option (etoa_suffix out buffer idx maxlen width flags2 minwidth expval)
                    (ftoa n out buffer idx maxlen (if negative then fneg v2 else v2) prec2
                      (etoa_fwidth width minwidth flags2) (flags2 AND NOT FLAGS_ADAPT_EXP) s))))"

declare ftoa.simps [simp del] etoa.simps [simp del]

section \<open>The cases of the format switch\<close>

definition float_specifier :: "char \<Rightarrow> bool" where
  "float_specifier c \<longleftrightarrow> c \<in> set ''fFeEgG''"

definition conv_float ::
  "'s out_fct \<Rightarrow> u64 \<Rightarrow> u64 \<Rightarrow> char \<Rightarrow> u32 \<Rightarrow> u32 \<Rightarrow> u32 \<Rightarrow> double \<Rightarrow> u64 \<times> 's \<Rightarrow> (u64 \<times> 's) option" where
  "conv_float out buffer maxlen c flags width precision value st =
     (case st of (idx, s) \<Rightarrow>
        if c = CHR ''f'' \<or> c = CHR ''F'' then
          ftoa 3 out buffer idx maxlen value precision width
            (if c = CHR ''F'' then flags OR FLAGS_UPPERCASE else flags) s
        else
          (let f1 = (if c = CHR ''g'' \<or> c = CHR ''G'' then flags OR FLAGS_ADAPT_EXP else flags);
               f2 = (if c = CHR ''E'' \<or> c = CHR ''G'' then f1 OR FLAGS_UPPERCASE else f1)
           in etoa 3 out buffer idx maxlen value precision width f2 s))"

end
