(* ===== verification/Doubles_Spec.thy ===== *)
theory Doubles_Spec
  imports Doubles
begin

text \<open>
  The error of one operation on doubles: \<open>rounds x d\<close> says that \<open>d\<close> is the exact result
  \<open>x\<close> up to half a unit in the last place, and \<open>x\<close> itself where a double can hold it. Each
  operation on finite doubles rounds the result over the reals as long as it does not overflow.
\<close>

section \<open>Rounding to nearest\<close>

lemma bit_length_bounds: "0 < n \<Longrightarrow> 2 ^ (bit_length n - 1) \<le> n \<and> n < 2 ^ bit_length n \<and> 0 < bit_length n"
proof (induction n rule: bit_length.induct)
  case (1 n)
  show ?case
  proof (cases "n div 2 = 0")
    case True
    then have "n = 1" using 1(2) by simp
    then show ?thesis by (simp add: bit_length.simps)
  next
    case False
    then have ih: "2 ^ (bit_length (n div 2) - 1) \<le> n div 2" "n div 2 < 2 ^ bit_length (n div 2)" "0 < bit_length (n div 2)"
      using 1 by simp_all
    have b: "bit_length n = Suc (bit_length (n div 2))" using 1(2) by (simp add: bit_length.simps [of n])
    have "(2 :: nat) ^ bit_length (n div 2) = 2 * 2 ^ (bit_length (n div 2) - 1)"
      using ih(3) by (simp flip: power_Suc)
    then show ?thesis unfolding b using ih by (simp add: div_less_iff_less_mult) linarith
  qed
qed

text \<open>Evaluation on numerals.\<close>

lemma bit_length_numeral:
  "bit_length 0 = 0" "bit_length 1 = 1" "bit_length (Suc 0) = 1"
  "bit_length (numeral (num.Bit0 k)) = Suc (bit_length (numeral k))"
  "bit_length (numeral (num.Bit1 k)) = Suc (bit_length (numeral k))"
proof -
  show "bit_length (numeral (num.Bit0 k)) = Suc (bit_length (numeral k))"
    by (subst bit_length.simps) (simp only: numeral_Bit0_div_2 zero_neq_numeral [symmetric] if_False)
  show "bit_length (numeral (num.Bit1 k)) = Suc (bit_length (numeral k))"
    by (subst bit_length.simps) (simp only: numeral_Bit1_div_2 zero_neq_numeral [symmetric] if_False)
qed (simp_all add: bit_length.simps)

lemmas double_eval = rounded_def ilog2_def bit_length_numeral nearest_even_def Let_def fsub_def of_integer_def

lemma powi_nat: "0 \<le> d \<Longrightarrow> (2 :: real) powi d = 2 ^ nat d"
  by (simp add: power_int_def)

lemma powi_minus_nat: "d \<le> 0 \<Longrightarrow> (2 :: real) powi d = inverse (2 ^ nat (- d))"
  by (auto simp: power_int_def field_simps)

lemma powi_mono: "m \<le> n \<Longrightarrow> (2 :: real) powi m \<le> 2 powi n"
  by (rule power_int_increasing) simp_all

lemma powi_add: "(2 :: real) powi (m + n) = 2 powi m * 2 powi n"
  by (simp add: power_int_add)

lemma powi_less [simp]: "(2 :: real) powi m < 2 powi n \<longleftrightarrow> m < n"
  using powi_mono [of n m] power_int_strict_increasing [of m n "2 :: real"] by (cases "m < n") auto

lemma powi_pos: "0 < (2 :: real) powi n"
  by simp

lemma powi_not_le_0 [simp]: "\<not> (2 :: real) powi n \<le> 0"
  by (simp add: not_le)

lemma ilog2_bounds:
  assumes "0 < a" and "0 < b"
  shows "2 powi ilog2 a b \<le> real a / real b" and "real a / real b < 2 powi (ilog2 a b + 1)"
proof -
  define d where "d = int (bit_length a) - int (bit_length b)"
  note ba = bit_length_bounds [OF assms(1)] and bb = bit_length_bounds [OF assms(2)]
  have a: "2 powi (int (bit_length a) - 1) \<le> real a" "real a < 2 powi int (bit_length a)"
  proof -
    have "real (2 ^ (bit_length a - 1)) \<le> real a" using ba by (simp only: of_nat_le_iff)
    then show "2 powi (int (bit_length a) - 1) \<le> real a" using ba by (simp add: powi_nat nat_diff_distrib)
    have "real a < real (2 ^ bit_length a)" using ba by (simp only: of_nat_less_iff)
    then show "real a < 2 powi int (bit_length a)" by simp
  qed
  have b: "2 powi (int (bit_length b) - 1) \<le> real b" "real b < 2 powi int (bit_length b)"
  proof -
    have "real (2 ^ (bit_length b - 1)) \<le> real b" using bb by (simp only: of_nat_le_iff)
    then show "2 powi (int (bit_length b) - 1) \<le> real b" using bb by (simp add: powi_nat nat_diff_distrib)
    have "real b < real (2 ^ bit_length b)" using bb by (simp only: of_nat_less_iff)
    then show "real b < 2 powi int (bit_length b)" by simp
  qed
  have up: "real a / real b < 2 powi (d + 1)"
  proof -
    have "real a < 2 powi (d + 1) * 2 powi (int (bit_length b) - 1)"
      using a(2) by (simp add: d_def flip: powi_add)
    also have "\<dots> \<le> 2 powi (d + 1) * real b" using b(1) by simp
    finally show ?thesis using assms(2) by (simp add: field_simps)
  qed
  have low: "2 powi (d - 1) < real a / real b"
  proof -
    have "2 powi (d - 1) * real b < 2 powi (d - 1) * 2 powi int (bit_length b)" using b(2) by simp
    also have "\<dots> = 2 powi (int (bit_length a) - 1)" by (simp only: d_def flip: powi_add) simp
    also have "\<dots> \<le> real a" by (rule a(1))
    finally show ?thesis using assms(2) by (simp add: field_simps)
  qed
  have t: "(if 0 \<le> d then b * 2 ^ nat d \<le> a else b \<le> a * 2 ^ nat (- d)) \<longleftrightarrow> 2 powi d \<le> real a / real b"
  proof (cases "0 \<le> d")
    case True
    have "b * 2 ^ nat d \<le> a \<longleftrightarrow> real (b * 2 ^ nat d) \<le> real a" by (simp only: of_nat_le_iff)
    with True show ?thesis using assms(2) by (simp add: powi_nat field_simps)
  next
    case False
    have "b \<le> a * 2 ^ nat (- d) \<longleftrightarrow> real b \<le> real (a * 2 ^ nat (- d))" by (simp only: of_nat_le_iff)
    with False show ?thesis using assms(2) by (simp add: powi_minus_nat field_simps)
  qed
  have i: "ilog2 a b = (if 2 powi d \<le> real a / real b then d else d - 1)"
    by (simp only: ilog2_def Let_def flip: d_def t)
  show "2 powi ilog2 a b \<le> real a / real b" using low by (auto simp: i)
  show "real a / real b < 2 powi (ilog2 a b + 1)" using up by (auto simp: i)
qed

lemma nearest_even_error:
  assumes "0 < b"
  shows "\<bar>real (nearest_even a b) - real a / real b\<bar> \<le> 1 / 2"
proof -
  have "real a = real b * real (a div b) + real (a mod b)"
    by (metis mult_div_mod_eq of_nat_add of_nat_mult)
  then have "real a / real b = real (a div b) + real (a mod b) / real b" using assms by (simp add: field_simps)
  moreover have "2 * (a mod b) \<le> b \<Longrightarrow> real (a mod b) / real b \<le> 1 / 2" using assms
    by (simp add: field_simps)
  moreover have "b \<le> 2 * (a mod b) \<Longrightarrow> 1 / 2 \<le> real (a mod b) / real b" using assms
    by (simp add: field_simps)
  moreover have "0 \<le> real (a mod b) / real b" "real (a mod b) / real b < 1" using assms by (simp_all add: field_simps)
  ultimately show ?thesis unfolding nearest_even_def Let_def
    by (cases "2 * (a mod b) < b \<or> 2 * (a mod b) = b \<and> even (a div b)") auto
qed

lemma nearest_even_exact: "0 < b \<Longrightarrow> real a / real b = real n \<Longrightarrow> nearest_even a b = n"
proof -
  assume b: "0 < b" and "real a / real b = real n"
  then have "real a = real (n * b)" by (simp add: field_simps)
  then have "a = n * b" by (simp only: of_nat_eq_iff)
  then show ?thesis using b by (simp add: nearest_even_def Let_def)
qed

text \<open>Results below this bound do not overflow.\<close>

definition dbl_bound :: real where
  "dbl_bound = 15 * 2 powi 1020"

text \<open>What a double can hold, and the form in which the operations leave it.\<close>

definition representable :: "real \<Rightarrow> bool" where
  "representable x \<longleftrightarrow> (\<exists>n k. x = of_int n * 2 powi k \<and> \<bar>n\<bar> < 2 ^ 53 \<and> - 1074 \<le> k)"

fun canonical :: "double \<Rightarrow> bool" where
  "canonical (Finite s m e) \<longleftrightarrow> m < 2 ^ 53 \<and> - 1074 \<le> e \<and> e \<le> 971 \<and> (2 ^ 52 \<le> m \<or> e = - 1074)"
| "canonical d \<longleftrightarrow> False"

definition rounds :: "real \<Rightarrow> double \<Rightarrow> bool" where
  "rounds x d \<longleftrightarrow> canonical d \<and> \<bar>val d - x\<bar> \<le> max (\<bar>x\<bar> * 2 powi - 53) (2 powi - 1075) \<and>
     (representable x \<longrightarrow> val d = x)"

lemma representable_minus [simp]: "representable (- x) \<longleftrightarrow> representable x"
proof -
  have "representable (- x)" if r: "representable x" for x
  proof -
    obtain n k where n: "x = of_int n * 2 powi k" "\<bar>n\<bar> < 2 ^ 53" "- 1074 \<le> k"
      using r unfolding representable_def by blast
    have "- x = of_int (- n) * 2 powi k" "\<bar>- n\<bar> < 2 ^ 53" using n by simp_all
    then show ?thesis using n(3) unfolding representable_def by blast
  qed
  from this [of x] this [of "- x"] show ?thesis by auto
qed

lemma rounded_significand:
  assumes a: "0 < a" "0 < b" and x: "x = real a / real b * 2 powi e" "x < dbl_bound"
  defines "l \<equiv> ilog2 a b + e"
  defines "E \<equiv> max (l - 52) (- 1074)"
  defines "m \<equiv> (if E \<le> e then nearest_even (a * 2 ^ nat (e - E)) b else nearest_even a (b * 2 ^ nat (E - e)))"
  shows "\<bar>real m - x / 2 powi E\<bar> \<le> 1 / 2" and "2 powi l \<le> x" and "x < 2 powi (l + 1)" and "l \<le> 1023"
    and "m \<le> 2 ^ 53" and "E = l - 52 \<Longrightarrow> 2 ^ 52 \<le> m" and "x / 2 powi E = real n \<Longrightarrow> m = n"
    and "E = 971 \<Longrightarrow> m < 2 ^ 53"
proof -
  show low: "2 powi l \<le> x" and up: "x < 2 powi (l + 1)"
    using mult_right_mono [OF ilog2_bounds(1) [OF a], of "2 powi e"]
      mult_strict_right_mono [OF ilog2_bounds(2) [OF a], of "2 powi e"]
    by (simp_all add: l_def x(1) powi_add mult_ac)
  have "dbl_bound < 2 powi 1024" using powi_add [of 4 1020] powi_pos [of 1020] unfolding dbl_bound_def by simp
  then have "(2 :: real) powi l < 2 powi 1024" using low x(2) by linarith
  then show l: "l \<le> 1023" by (simp only: powi_less)
  obtain N D where N: "0 < D" "m = nearest_even N D" "real N / real D = x / 2 powi E"
  proof (cases "E \<le> e")
    case True
    then have "real (a * 2 ^ nat (e - E)) / real b = x / 2 powi E"
      by (simp add: x(1) powi_nat [of "e - E", symmetric] power_int_diff)
    with True a that show thesis by (simp add: m_def)
  next
    case False
    then have "real a / real (b * 2 ^ nat (E - e)) = x / 2 powi E"
      by (simp add: x(1) powi_nat [of "E - e", symmetric] power_int_diff)
    with False a show thesis by (intro that [of "b * 2 ^ nat (E - e)" a]) (simp_all add: m_def)
  qed
  show err: "\<bar>real m - x / 2 powi E\<bar> \<le> 1 / 2" using nearest_even_error [OF N(1), of N] by (simp add: N(2,3))
  show "m < 2 ^ 53" if "E = 971"
  proof -
    have "x / 2 powi 971 < 15 * 2 powi 1020 / 2 powi 971" using x(2) unfolding dbl_bound_def by (intro divide_strict_right_mono) simp_all
    also have "\<dots> = 15 * 2 ^ 49" by (simp flip: power_int_diff)
    finally have y: "x / 2 powi 971 < 15 * 2 ^ 49" .
    have "real m < 2 ^ 53" if "\<bar>real m - y\<bar> \<le> 1 / 2" "y < 15 * 2 ^ 49" for y
      using that unfolding abs_le_iff by simp
    from this [OF err [unfolded that] y] show ?thesis by simp
  qed
  show "x / 2 powi E = real n \<Longrightarrow> m = n" using nearest_even_exact [OF N(1), of N n] by (simp add: N(2,3))
  have "l + 1 \<le> E + 53" by (simp add: E_def)
  with up have "x < 2 powi (E + 53)" by (meson less_le_trans powi_mono)
  then have "x / 2 powi E < 2 ^ 53" by (simp add: powi_add field_simps)
  then have "real m < 2 ^ 53 + 1" using err by linarith
  then show "m \<le> 2 ^ 53" using of_nat_less_iff [of m "2 ^ 53 + 1", where 'a = real] by simp
  assume E: "E = l - 52"
  have "2 ^ 52 \<le> x / 2 powi E" using low by (simp add: E power_int_diff field_simps)
  then have "2 ^ 52 < real m + 1" using err by linarith
  then show "2 ^ 52 \<le> m" using of_nat_less_iff [of "2 ^ 52" "m + 1", where 'a = real] by simp
qed

lemma rounded_rounds:
  assumes b: "0 < b" and x: "x = real a / real b * 2 powi e" "x < dbl_bound"
  shows "rounds (if s then - x else x) (rounded s a b e)"
proof (cases "a = 0")
  case True
  then show ?thesis by (simp add: rounded_def rounds_def x(1))
next
  case False
  define l where "l = ilog2 a b + e"
  define E where "E = max (l - 52) (- 1074)"
  define m where "m = (if E \<le> e then nearest_even (a * 2 ^ nat (e - E)) b else nearest_even a (b * 2 ^ nat (E - e)))"
  have a: "0 < a" using False by simp
  note r = rounded_significand [OF a b x, folded l_def, folded E_def, folded m_def]
  have E: "E \<le> 971" "- 1074 \<le> E" "E = 971 \<Longrightarrow> m \<noteq> 2 ^ 53" using r(4,8) by (auto simp: E_def)
  have d: "rounded s a b e = (if m = 2 ^ 53 then Finite s (2 ^ 52) (E + 1) else Finite s m E)"
    using a E(1,3) unfolding rounded_def Let_def l_def [symmetric] E_def [symmetric] m_def [symmetric] by simp
  have v: "val (rounded s a b e) = (if s then - (real m * 2 powi E) else real m * 2 powi E)"
    by (simp add: d powi_add)
  have c: "canonical (rounded s a b e)"
  proof -
    have "E = l - 52 \<or> E = - 1074" by (simp add: E_def max_def)
    moreover have "E \<le> 970" if "m = 2 ^ 53" using E(1,3) that by linarith
    ultimately show ?thesis using r(5,6) E(1,2) by (auto simp: d)
  qed
  have "real m * 2 powi E - x = (real m - x / 2 powi E) * 2 powi E" by (simp add: left_diff_distrib)
  then have "\<bar>real m * 2 powi E - x\<bar> = \<bar>real m - x / 2 powi E\<bar> * 2 powi E" by (simp add: abs_mult)
  also have "\<dots> \<le> 1 / 2 * 2 powi E" using r(1) by (intro mult_right_mono) simp_all
  also have "\<dots> = 2 powi (E - 1)" by (simp add: power_int_diff)
  also have "\<dots> \<le> max (x * 2 powi - 53) (2 powi - 1075)"
  proof (cases "E = l - 52")
    case True
    then have "2 powi (E - 1) = 2 powi l * (2 powi - 53 :: real)" using powi_add [of l "- 53"] by simp
    then show ?thesis using r(2) by simp
  next
    case False
    then show ?thesis by (simp add: E_def max_def split: if_splits)
  qed
  finally have err: "\<bar>real m * 2 powi E - x\<bar> \<le> max (x * 2 powi - 53) (2 powi - 1075)" .
  have pos: "0 \<le> x" by (simp add: x(1))
  have ex: "real m * 2 powi E = x" if "representable x"
  proof -
    obtain n k where n: "x = of_int n * 2 powi k" "\<bar>n\<bar> < 2 ^ 53" "- 1074 \<le> k"
      using \<open>representable x\<close> unfolding representable_def by blast
    have "0 \<le> n" using pos n(1) by (simp add: zero_le_mult_iff)
    have "2 powi l \<le> of_int n * (2 powi k :: real)" using r(2) n(1) by simp
    also have "\<dots> < 2 ^ 53 * 2 powi k" using n(2) by simp
    also have "\<dots> = 2 powi (53 + k)" by (simp add: powi_add)
    finally have "l < 53 + k" by simp
    then have k: "E \<le> k" using n(3) by (simp add: E_def)
    have "x / 2 powi E = of_int n * 2 powi (k - E)" by (simp add: n(1) power_int_diff)
    also have "\<dots> = real (nat n * 2 ^ nat (k - E))" using k \<open>0 \<le> n\<close> by (simp add: powi_nat)
    finally have q: "x / 2 powi E = real (nat n * 2 ^ nat (k - E))" .
    show ?thesis unfolding r(7) [OF q] q [symmetric] by simp
  qed
  have rep: "representable (- x) \<longleftrightarrow> representable x" by simp
  have "\<bar>if s then - x else x\<bar> = x" using pos by simp
  moreover have "\<bar>val (rounded s a b e) - (if s then - x else x)\<bar> = \<bar>real m * 2 powi E - x\<bar>"
    unfolding v by (cases s) (simp_all only: if_True if_False minus_diff_minus abs_minus_cancel)
  moreover have "val (rounded s a b e) = (if s then - x else x)" if "representable (if s then - x else x)"
    using ex that rep unfolding v by (cases s) (simp_all only: if_True if_False)
  ultimately show ?thesis using c err unfolding rounds_def by simp
qed

section \<open>The operations\<close>

lemma finite_cases: "is_finite d \<Longrightarrow> (\<And>s m e. d = Finite s m e \<Longrightarrow> P) \<Longrightarrow> P"
  by (cases d) auto

lemma canonical_finite [simp]: "canonical d \<Longrightarrow> is_finite d"
  by (cases d) auto

lemma roundsD:
  assumes "rounds x d"
  shows "canonical d" and "is_finite d" and "\<bar>val d - x\<bar> \<le> max (\<bar>x\<bar> * 2 powi - 53) (2 powi - 1075)"
    and "representable x \<Longrightarrow> val d = x"
  using assms by (simp_all add: rounds_def)

lemma val_fneg [simp]: "val (fneg d) = - val d"
  by (cases d) auto

lemma canonical_fneg [simp]: "canonical (fneg d) = canonical d" "is_finite (fneg d) = is_finite d"
  by (cases d; simp)+

lemma val_signed: "val (Finite s m e) = (if s then - (real m * 2 powi e) else real m * 2 powi e)"
  by simp

lemma aligned_val:
  assumes "g \<le> e"
  shows "real_of_int (signed_int s (m * 2 ^ nat (e - g))) * 2 powi g = val (Finite s m e)"
proof -
  have "(2 :: real) ^ nat (e - g) * 2 powi g = 2 powi e"
    using assms by (simp add: powi_nat [of "e - g", symmetric] flip: powi_add)
  then have "real (m * 2 ^ nat (e - g)) * 2 powi g = real m * 2 powi e" by simp
  then show ?thesis by simp
qed

lemma fadd_rounds:
  assumes "is_finite a" and "is_finite b" and "\<bar>val a + val b\<bar> < dbl_bound"
  shows "rounds (val a + val b) (fadd a b)"
proof -
  obtain s m e where a: "a = Finite s m e" using assms(1) by (rule finite_cases)
  obtain t n f where b: "b = Finite t n f" using assms(2) by (rule finite_cases)
  define g where "g = min e f"
  define k where "k = signed_int s (m * 2 ^ nat (e - g)) + signed_int t (n * 2 ^ nat (f - g))"
  have v: "val a + val b = real_of_int k * 2 powi g"
    using aligned_val [of g e s m] aligned_val [of g f t n] by (simp only: a b k_def of_int_add distrib_right g_def min.cobounded1 min.cobounded2)
  have r: "fadd a b = (if k = 0 then Finite (s \<and> t) 0 (- 1074) else rounded (k < 0) (nat \<bar>k\<bar>) 1 g)"
    by (simp only: a b fadd.simps Let_def k_def g_def)
  show ?thesis
  proof (cases "k = 0")
    case True
    then show ?thesis by (simp add: r v rounds_def)
  next
    case False
    have x: "real (nat \<bar>k\<bar>) / real 1 * 2 powi g = \<bar>val a + val b\<bar>" by (simp add: v abs_mult)
    have "val a + val b = (if k < 0 then - \<bar>val a + val b\<bar> else \<bar>val a + val b\<bar>)"
      by (auto simp: v abs_mult mult_less_0_iff)
    then show ?thesis
      using rounded_rounds [of 1 "\<bar>val a + val b\<bar>" "nat \<bar>k\<bar>" g "k < 0"] x assms(3) False by (simp add: r)
  qed
qed

lemma fsub_rounds:
  "is_finite a \<Longrightarrow> is_finite b \<Longrightarrow> \<bar>val a - val b\<bar> < dbl_bound \<Longrightarrow> rounds (val a - val b) (fsub a b)"
  using fadd_rounds [of a "fneg b"] by (simp add: fsub_def)

lemma fmul_rounds:
  assumes "is_finite a" and "is_finite b" and "\<bar>val a * val b\<bar> < dbl_bound"
  shows "rounds (val a * val b) (fmul a b)"
proof -
  obtain s m e where a: "a = Finite s m e" using assms(1) by (rule finite_cases)
  obtain t n f where b: "b = Finite t n f" using assms(2) by (rule finite_cases)
  have x: "real (m * n) / real 1 * 2 powi (e + f) = \<bar>val a * val b\<bar>"
    by (simp add: a b abs_mult powi_add)
  have "val a * val b = (if s \<noteq> t then - \<bar>val a * val b\<bar> else \<bar>val a * val b\<bar>)"
    by (simp add: a b abs_mult)
  then show ?thesis
    using rounded_rounds [of 1 "\<bar>val a * val b\<bar>" "m * n" "e + f" "s \<noteq> t"] x assms(3) by (simp add: a b)
qed

lemma fdiv_rounds:
  assumes "is_finite a" and "is_finite b" and "val b \<noteq> 0" and "\<bar>val a / val b\<bar> < dbl_bound"
  shows "rounds (val a / val b) (fdiv a b)"
proof -
  obtain s m e where a: "a = Finite s m e" using assms(1) by (rule finite_cases)
  obtain t n f where b: "b = Finite t n f" using assms(2) by (rule finite_cases)
  have n: "0 < n" using assms(3) by (auto simp: b split: if_splits)
  have x: "real m / real n * 2 powi (e - f) = \<bar>val a / val b\<bar>"
    by (simp add: a b abs_mult power_int_diff)
  have "val a / val b = (if s \<noteq> t then - \<bar>val a / val b\<bar> else \<bar>val a / val b\<bar>)"
    by (simp add: a b abs_mult)
  then show ?thesis
    using rounded_rounds [of n "\<bar>val a / val b\<bar>" m "e - f" "s \<noteq> t"] x n assms(4) by (simp add: a b)
qed

lemma of_integer_rounds: "\<bar>real_of_int k\<bar> < dbl_bound \<Longrightarrow> rounds (of_int k) (of_integer k)"
  using rounded_rounds [of 1 "\<bar>real_of_int k\<bar>" "nat \<bar>k\<bar>" 0 "k < 0"] by (simp add: of_integer_def split: if_splits)

lemma dbl_bound_large: "2 ^ 1000 < dbl_bound"
  by (simp add: dbl_bound_def)

lemma of_integer_exact:
  assumes "\<bar>k\<bar> < 2 ^ 53"
  shows "val (of_integer k) = of_int k" and "canonical (of_integer k)"
proof -
  have "\<bar>real_of_int k\<bar> < 2 ^ 53" using assms by simp
  also have "\<dots> < dbl_bound" by (simp add: dbl_bound_def)
  finally have r: "rounds (of_int k) (of_integer k)" by (rule of_integer_rounds)
  have "representable (of_int k)"
    unfolding representable_def using assms by (intro exI [of _ k] exI [of _ 0]) simp
  then show "val (of_integer k) = of_int k" by (rule roundsD(4) [OF r])
  show "canonical (of_integer k)" by (rule roundsD(1) [OF r])
qed

lemma flt_val: "is_finite a \<Longrightarrow> is_finite b \<Longrightarrow> flt a b \<longleftrightarrow> val a < val b"
proof (elim finite_cases)
  fix s m e t n f assume a: "a = Finite s m e" and b: "b = Finite t n f"
  define g where "g = min e f"
  have "val a < val b \<longleftrightarrow> real_of_int (signed_int s (m * 2 ^ nat (e - g))) * 2 powi g <
      real_of_int (signed_int t (n * 2 ^ nat (f - g))) * 2 powi g"
    using aligned_val [of g e s m] aligned_val [of g f t n] by (simp only: a b g_def min.cobounded1 min.cobounded2)
  also have "\<dots> \<longleftrightarrow> flt a b" by (simp only: a b flt.simps g_def mult_less_cancel_right_pos powi_pos of_int_less_iff)
  finally show ?thesis by simp
qed

lemma fle_val: "is_finite a \<Longrightarrow> is_finite b \<Longrightarrow> fle a b \<longleftrightarrow> val a \<le> val b"
  by (auto simp: fle_def flt_val)

lemma truncate_nonneg: "is_finite d \<Longrightarrow> 0 \<le> val d \<Longrightarrow> truncate d = \<lfloor>val d\<rfloor>"
proof (elim finite_cases)
  fix s m e assume d: "d = Finite s m e" and "0 \<le> val d"
  then have z: "s \<Longrightarrow> m = 0" by (cases m) (simp_all add: mult_le_0_iff zero_le_mult_iff)
  show ?thesis
  proof (cases "0 \<le> e")
    case True
    then have "val d = real_of_int (truncate d)" using z by (simp add: d powi_nat)
    then show ?thesis by (metis floor_of_int)
  next
    case False
    then have "val d = real m / real (2 ^ nat (- e))" using z by (simp add: d powi_minus_nat divide_inverse)
    then have "\<lfloor>val d\<rfloor> = int (m div 2 ^ nat (- e))" by (simp only: floor_divide_of_nat_eq)
    then show ?thesis using False z by (simp add: d)
  qed
qed

lemma truncate_fneg: "truncate (fneg d) = - truncate d"
  by (cases d) auto

section \<open>Encoding\<close>

lemma double_fields:
  fixes u :: u64
  shows "unat (u AND 0xFFFFFFFFFFFFF) = unat u mod 2 ^ 52"
    and "unat (drop_bit 52 u AND 0x7FF) = unat u div 2 ^ 52 mod 2 ^ 11"
    and "bit u 63 \<longleftrightarrow> 2 ^ 63 \<le> unat u"
proof -
  have m: "(0xFFFFFFFFFFFFF :: u64) = mask 52" "(0x7FF :: u64) = mask 11" by (simp_all add: mask_eq_exp_minus_1)
  show "unat (u AND 0xFFFFFFFFFFFFF) = unat u mod 2 ^ 52"
    unfolding m(1) take_bit_eq_mask [symmetric] unsigned_take_bit_eq take_bit_eq_mod by (simp add: unat_mod)
  show "unat (drop_bit 52 u AND 0x7FF) = unat u div 2 ^ 52 mod 2 ^ 11"
    unfolding m(2) take_bit_eq_mask [symmetric] unsigned_take_bit_eq take_bit_eq_mod unat_drop_bit_eq drop_bit_eq_div by (simp add: unat_mod unat_div)
  have "bit (unat u) 63 \<longleftrightarrow> bit u 63" by (simp add: bit_unsigned_iff)
  moreover have "bit (unat u) 63 \<longleftrightarrow> odd (unat u div 2 ^ 63)" by (rule bit_iff_odd)
  ultimately have "bit u 63 \<longleftrightarrow> odd (unat u div 2 ^ 63)" by blast
  moreover have "unat u div 2 ^ 63 < 2" using unat_less_2_64 [of u] by (simp add: div_less_iff_less_mult)
  ultimately show "bit u 63 \<longleftrightarrow> 2 ^ 63 \<le> unat u" by (auto simp: less_2_cases_iff div_eq_0_iff dest: less_2_cases)
qed

text \<open>A word without sign bit, made of the exponent field \<open>x\<close> and the fraction field \<open>f\<close>.\<close>

definition fields :: "nat \<Rightarrow> nat \<Rightarrow> u64" where
  "fields x f = of_nat (x * 2 ^ 52 + f)"

lemma unat_fields: "x < 2 ^ 11 \<Longrightarrow> f < 2 ^ 52 \<Longrightarrow> unat (fields x f) = x * 2 ^ 52 + f"
  by (simp add: fields_def unat_of_nat del: of_nat_add of_nat_mult)

lemma double_of_fields:
  assumes "x < 2047" and "f < 2 ^ 52"
  shows "double_of_bits (fields x f) = (if x = 0 then Finite False f (- 1074) else Finite False (f + 2 ^ 52) (int x - 1075))"
proof -
  have u: "unat (fields x f) = x * 2 ^ 52 + f" using assms by (intro unat_fields) simp_all
  have q: "unat (fields x f) div 2 ^ 52 mod 2 ^ 11 = x" "unat (fields x f) mod 2 ^ 52 = f" "\<not> 2 ^ 63 \<le> unat (fields x f)"
    using assms by (simp_all add: u)
  show ?thesis
    using assms(1) unfolding double_of_bits_def Let_def double_fields q(1,2) q(3) [THEN eq_False [THEN iffD2]] by simp
qed

lemma canonical_of_bits: "double_of_bits u = NaN \<or> (\<exists>s. double_of_bits u = Infinite s) \<or> canonical (double_of_bits u)"
proof -
  define x where "x = unat (drop_bit 52 u AND 0x7FF)"
  define f where "f = unat (u AND 0xFFFFFFFFFFFFF)"
  have "x < 2048" "f < 2 ^ 52" unfolding x_def f_def double_fields by simp_all
  then show ?thesis unfolding double_of_bits_def Let_def x_def [symmetric] f_def [symmetric] by auto
qed

lemma bits_of_double_fields:
  assumes "canonical (Finite False m e)"
  shows "bits_of_double (Finite False m e) = (if m < 2 ^ 52 then fields 0 m else fields (nat (e + 1075)) (m - 2 ^ 52))"
proof -
  have "0 \<le> e + 1075" using assms by simp
  then have "(of_int (e + 1075) :: u64) = of_nat (nat (e + 1075))" by (simp only: of_nat_nat)
  then show ?thesis by (simp add: fields_def)
qed

text \<open>Encoding a decoded word gives it back.\<close>

lemma bits_of_double_of_bits:
  assumes "double_of_bits u \<noteq> NaN"
  shows "bits_of_double (double_of_bits u) = u"
proof (rule word_unat_eq_iff [THEN iffD2])
  define x where "x = unat u div 2 ^ 52 mod 2 ^ 11"
  define f where "f = unat u mod 2 ^ 52"
  define s where "s = bit u 63"
  have b: "x < 2048" "f < 2 ^ 52" by (simp_all add: x_def f_def)
  have s: "unat u div 2 ^ 63 = (if s then 1 else 0)"
    using unat_less_2_64 [of u] unfolding s_def double_fields(3) by (auto simp: div_nat_eqI)
  have "unat u = unat u div 2 ^ 52 * 2 ^ 52 + f" by (simp add: f_def)
  also have "unat u div 2 ^ 52 = unat u div 2 ^ 52 div 2 ^ 11 * 2 ^ 11 + x" by (simp add: x_def)
  also have "unat u div 2 ^ 52 div 2 ^ 11 = unat u div 2 ^ 63" by (simp add: div_mult2_eq [symmetric])
  also note s
  finally have u: "unat u = (if s then 2 ^ 63 else 0) + x * 2 ^ 52 + f" by (cases s) simp_all
  have d: "double_of_bits u = (if x = 2047 then if f = 0 then Infinite s else NaN
      else if x = 0 then Finite s f (- 1074) else Finite s (f + 2 ^ 52) (int x - 1075))"
    unfolding double_of_bits_def Let_def double_fields(1,2) x_def [symmetric] f_def [symmetric] s_def ..
  have "bits_of_double (double_of_bits u) = of_nat ((if s then 2 ^ 63 else 0) + x * 2 ^ 52 + f)"
    using assms b by (auto simp: d split: if_splits)
  then show "unat (bits_of_double (double_of_bits u)) = unat u"
    by (simp only: u [symmetric]) simp
qed

end
