(* ===== verification/Printk_Float_Spec.thy ===== *)
theory Printk_Float_Spec
  imports Printk_Float Doubles_Spec Printk_Spec
begin

text \<open>
  What \<^verbatim>\<open>_ftoa\<close> prints: the decimal expansion of a value up to 1e9 is
  correct to half a unit of the last computed place and the rounding of one multiplication; and where it
  goes wrong: a tie below a full fraction, and precisions that read outside the table of powers.
\<close>

section \<open>Digits\<close>

text \<open>The \<open>k\<close> digits of a fraction \<open>n / 10^k\<close>.\<close>

fun fixed_digits :: "nat \<Rightarrow> nat \<Rightarrow> string" where
  "fixed_digits 0 n = []"
| "fixed_digits (Suc k) n = fixed_digits k (n div 10) @ [digit 0 (n mod 10)]"

lemma digit_char_of: "k < 10 \<Longrightarrow> char_of (48 + k) = digit 0 k"
proof -
  assume k: "k < 10"
  then have "unat (of_nat k :: u64) = k" by (simp add: unat_of_nat)
  moreover from this k have "(of_nat k :: u64) < 10" by (simp add: word_less_nat_alt)
  ultimately show ?thesis by (simp add: digit_def digit_char_def)
qed

lemma digit_zero: "digit 0 0 = CHR ''0''"
  by (simp add: digit_def digit_char_def char_of_def bit_0)

lemma fixed_digits_0: "fixed_digits k 0 = replicate k CHR ''0''"
  by (induction k) (simp_all add: replicate_append_same digit_zero)

lemma length_fixed_digits [simp]: "length (fixed_digits k n) = k"
  by (induction k arbitrary: n) simp_all

lemma ftoa_zeros_fill:
  "unat count + length buf \<le> 32 \<Longrightarrow> ftoa_zeros count buf = buf @ replicate (unat count) CHR ''0''"
proof (induction count buf rule: ftoa_zeros.induct)
  case (1 count buf)
  show ?case
  proof (cases "count = 0")
    case True
    then show ?thesis by (subst ftoa_zeros.simps) simp
  next
    case False
    then have "unat count = Suc (unat (count - 1))" by (simp add: unat_minus_one unat_gt_0)
    moreover from this have "length buf < PRINTF_FTOA_BUFFER_SIZE" using 1(2) by (simp add: PRINTF_FTOA_BUFFER_SIZE_def)
    moreover have "0 < count" using False by (simp add: word_neq_0_conv)
    ultimately show ?thesis using 1 by (subst ftoa_zeros.simps) simp
  qed
qed

lemma ftoa_frac_digits:
  assumes "f < 10 ^ unat count" and "0 < count" and "unat count + length buf \<le> 32"
  shows "(case ftoa_frac f count buf of (c, b) \<Rightarrow> ftoa_zeros c b) = buf @ rev (fixed_digits (unat count) f)"
  using assms
proof (induction f count buf rule: ftoa_frac.induct)
  case (1 f count buf)
  have c: "unat count = Suc (unat (count - 1))" using 1(3) by (simp add: unat_minus_one unat_gt_0 word_neq_0_conv)
  then have l: "length buf < PRINTF_FTOA_BUFFER_SIZE" using 1(4) by (simp add: PRINTF_FTOA_BUFFER_SIZE_def)
  show ?case
  proof (cases "f div 10 = 0")
    case True
    then have f: "ftoa_frac f count buf = (count - 1, buf @ [char_of (48 + f mod 10)])"
      using l by (subst ftoa_frac.simps) (simp add: Let_def)
    show ?thesis
      using True 1(4) unfolding f c prod.case
      by (subst ftoa_zeros_fill) (simp_all add: c fixed_digits_0 digit_char_of)
  next
    case False
    have lt: "f div 10 < 10 ^ unat (count - 1)" using 1(2) c by (simp add: less_mult_imp_div_less mult.commute)
    have "unat (count - 1) \<noteq> 0" using lt False by (cases "unat (count - 1)") simp_all
    then have nz: "0 < count - 1" by (metis unat_0 word_neq_0_conv)
    have f: "ftoa_frac f count buf = ftoa_frac (f div 10) (count - 1) (buf @ [char_of (48 + f mod 10)])"
      using l False by (subst ftoa_frac.simps) (simp add: Let_def)
    show ?thesis
      using 1(1) [OF l refl False lt nz] 1(4) unfolding f by (simp add: c digit_char_of)
  qed
qed

lemma ftoa_point_digits:
  assumes "f < 10 ^ unat p" and "0 < p" and "unat p + length buf \<le> 31"
  shows "ftoa_point p f buf = buf @ rev (''.'' @ fixed_digits (unat p) f)"
  using ftoa_frac_digits [OF assms(1,2), of buf] assms(3)
  by (auto simp: ftoa_point_def ftoa_put_def PRINTF_FTOA_BUFFER_SIZE_def split: prod.splits)

lemma ftoa_whole_digits:
  assumes "w < 10 ^ k" and "0 < k" and "k + length buf \<le> 32"
  shows "ftoa_whole w buf = buf @ rev (nat_text (digit 0) 10 w)"
  using assms
proof (induction w buf arbitrary: k rule: ftoa_whole.induct)
  case (1 w buf)
  have l: "length buf < PRINTF_FTOA_BUFFER_SIZE" using 1(3,4) by (simp add: PRINTF_FTOA_BUFFER_SIZE_def)
  show ?case
  proof (cases "w div 10 = 0")
    case True
    moreover from this have "w < 10" by (simp add: div_eq_0_iff)
    ultimately show ?thesis using l by (subst ftoa_whole.simps, subst nat_text.simps) (simp add: Let_def digit_char_of)
  next
    case False
    then have w: "10 \<le> w" by (simp add: div_eq_0_iff)
    have lt: "w div 10 < 10 ^ (k - 1)" using 1(2,3) by (cases k) (simp_all add: less_mult_imp_div_less mult.commute)
    then have nz: "0 < k - 1" using False by (cases "k - 1") simp_all
    have "ftoa_whole w buf = ftoa_whole (w div 10) (buf @ [char_of (48 + w mod 10)])"
      using l False by (subst ftoa_whole.simps) (simp add: Let_def)
    also have "\<dots> = buf @ [char_of (48 + w mod 10)] @ rev (nat_text (digit 0) 10 (w div 10))"
      using 1(1) [OF l refl False lt nz] 1(4) nz by simp
    finally show ?thesis using w by (subst nat_text.simps) (simp add: digit_char_of)
  qed
qed

lemma ftoa_limit_fill:
  "9 \<le> prec \<Longrightarrow> unat prec - 9 + length buf \<le> 32 \<Longrightarrow>
    ftoa_limit prec buf = (9, buf @ replicate (unat prec - 9) CHR ''0'')"
proof (induction prec buf rule: ftoa_limit.induct)
  case (1 prec buf)
  show ?case
  proof (cases "prec = 9")
    case True
    then show ?thesis by (subst ftoa_limit.simps) simp
  next
    case False
    with 1(2) have p: "9 < prec" by simp
    then have "9 < unat prec" by (simp add: word_less_nat_alt)
    moreover have u: "unat (prec - 1) = unat prec - 1" using p by (intro unat_minus_one) auto
    ultimately have s: "unat prec - 9 = Suc (unat (prec - 1) - 9)" "9 \<le> unat (prec - 1)" by simp_all
    then have "9 \<le> prec - 1" by (simp add: word_le_nat_alt)
    moreover have "length buf < PRINTF_FTOA_BUFFER_SIZE" using 1(3) s by (simp add: PRINTF_FTOA_BUFFER_SIZE_def)
    ultimately show ?thesis using 1(1,3) p s by (subst ftoa_limit.simps) simp
  qed
qed

lemma ftoa_limit_small: "prec \<le> 9 \<Longrightarrow> ftoa_limit prec buf = (prec, buf)"
  by (subst ftoa_limit.simps) (simp add: not_less [symmetric])

section \<open>Whole part and fraction\<close>

lemma literal_rounds:
  assumes "\<bar>real_of_int n / 10 ^ k\<bar> < dbl_bound"
  shows "rounds (of_int n / 10 ^ k) (literal n k)"
proof -
  have "real (nat \<bar>n\<bar>) / real (10 ^ k) * 2 powi 0 = \<bar>real_of_int n / 10 ^ k\<bar>" by simp
  moreover have "real_of_int n / 10 ^ k = (if n < 0 then - \<bar>real_of_int n / 10 ^ k\<bar> else \<bar>real_of_int n / 10 ^ k\<bar>)"
    by (auto simp: zero_le_divide_iff)
  ultimately show ?thesis
    using rounded_rounds [of "10 ^ k" "\<bar>real_of_int n / 10 ^ k\<bar>" "nat \<bar>n\<bar>" 0 "n < 0"] assms by (simp add: literal_def)
qed

lemma half_value: "val (literal 5 1) = 1 / 2" "is_finite (literal 5 1)"
proof -
  have "rounds (1 / 2) (literal 5 1)" using literal_rounds [of 5 1] dbl_bound_large by simp
  moreover have "representable (1 / 2)"
    unfolding representable_def by (intro exI [of _ 1] exI [of _ "- 1"]) simp
  ultimately show "val (literal 5 1) = 1 / 2" "is_finite (literal 5 1)" using roundsD by blast+
qed

text \<open>The part of a double after the point is a double, and it is at most \<open>1 - 2^-53\<close>.\<close>

lemma fractional_part:
  assumes c: "canonical d" and v: "0 \<le> val d" "val d < 2 ^ 52"
  defines "t \<equiv> truncate d"
  shows "val (fsub d (of_integer t)) = val d - of_int t" and "canonical (fsub d (of_integer t))"
    and "t = \<lfloor>val d\<rfloor>" and "val d - of_int t \<le> 1 - 2 powi - 53"
proof -
  obtain s m e where d: "d = Finite s m e" using c by (cases d) auto
  show t: "t = \<lfloor>val d\<rfloor>" unfolding t_def using c v(1) by (intro truncate_nonneg) simp_all
  have vm: "val d = real m * 2 powi e" using v(1) by (auto simp: d zero_le_mult_iff mult_le_0_iff split: if_splits)
  have me: "m < 2 ^ 53" "- 1074 \<le> e" using c by (simp_all add: d)
  have rep: "representable (val d - of_int t) \<and> val d - of_int t \<le> 1 - 2 powi - 53"
  proof (cases "0 \<le> e")
    case True
    then have "val d = of_int (int m * 2 ^ nat e)" by (simp add: vm powi_nat)
    then have "val d - of_int t = 0" by (simp add: t)
    then show ?thesis unfolding representable_def by (auto intro!: exI [of _ 0])
  next
    case False
    define r where "r = m mod 2 ^ nat (- e)"
    have e: "(2 :: real) ^ nat (- e) * 2 powi e = 1" using False by (simp add: powi_minus_nat)
    have "val d = real m / real (2 ^ nat (- e))" using False by (simp add: vm powi_minus_nat divide_inverse)
    then have "t = int (m div 2 ^ nat (- e))" unfolding t by (simp only: floor_divide_of_nat_eq)
    moreover have "m = m div 2 ^ nat (- e) * 2 ^ nat (- e) + r"
      unfolding r_def by (rule div_mult_mod_eq [symmetric])
    then have "real m = real (m div 2 ^ nat (- e) * 2 ^ nat (- e) + r)" by (rule arg_cong)
    then have "real m = real (m div 2 ^ nat (- e)) * 2 ^ nat (- e) + real r"
      by (simp only: of_nat_add of_nat_mult of_nat_power of_nat_numeral)
    ultimately have y: "val d - of_int t = real r * 2 powi e" by (simp add: vm distrib_right e mult.assoc)
    have "r < 2 ^ 53" using me(1) mod_less_eq_dividend [of m "2 ^ nat (- e)"] unfolding r_def by linarith
    then have "representable (val d - of_int t)"
      unfolding representable_def using me(2) by (intro exI [of _ "int r"] exI [of _ e]) (simp add: y)
    moreover have "real r * 2 powi e \<le> 1 - 2 powi - 53"
    proof (cases "- 53 \<le> e")
      case True
      have "r + 1 \<le> 2 ^ nat (- e)" by (simp add: r_def Suc_le_eq)
      then have "real (r + 1) \<le> real (2 ^ nat (- e))" by (simp only: of_nat_le_iff)
      then have "real r \<le> 2 ^ nat (- e) - 1" by simp
      then have "real r * 2 powi e \<le> (2 ^ nat (- e) - 1) * 2 powi e" by (intro mult_right_mono) simp_all
      also have "\<dots> = 1 - 2 powi e" by (simp add: left_diff_distrib e)
      finally show ?thesis using powi_mono [OF True] by simp
    next
      case False
      have "real r * 2 powi e \<le> 2 ^ 53 * 2 powi e" using \<open>r < 2 ^ 53\<close> by (intro mult_right_mono) simp_all
      also have "\<dots> = 2 powi (53 + e)" by (simp add: powi_add)
      also have "\<dots> \<le> 2 powi - 1" using False by (intro powi_mono) simp
      finally show ?thesis by simp
    qed
    ultimately show ?thesis by (simp add: y)
  qed
  have t0: "0 \<le> t" "t < 2 ^ 53" using v by (simp_all add: t floor_less_iff)
  then have o: "val (of_integer t) = of_int t" "is_finite (of_integer t)" using of_integer_exact [of t] by simp_all
  have "rounds (val d - val (of_integer t)) (fsub d (of_integer t))"
  proof (rule fsub_rounds)
    have "0 \<le> val d - of_int t" by (simp add: t)
    moreover have "val d - of_int t < 2 ^ 1000" using v(2) t0(1) by (simp add: less_le_trans)
    ultimately show "\<bar>val d - val (of_integer t)\<bar> < dbl_bound" using dbl_bound_large by (simp add: o)
  qed (use c o in simp_all)
  then show "val (fsub d (of_integer t)) = val d - of_int t" "canonical (fsub d (of_integer t))"
    using rep roundsD unfolding o by blast+
  show "val d - of_int t \<le> 1 - 2 powi - 53" using rep by blast
qed

lemma representable_val: "canonical d \<Longrightarrow> representable (val d)"
proof -
  assume c: "canonical d"
  then obtain s m e where d: "d = Finite s m e" by (cases d) auto
  then show ?thesis
    unfolding representable_def using c by (intro exI [of _ "signed_int s m"] exI [of _ e]) simp
qed

lemma rounds_nonneg:
  assumes r: "rounds x d" and x: "0 \<le> x"
  shows "0 \<le> val d"
proof (rule ccontr)
  assume neg: "\<not> 0 \<le> val d"
  obtain s m e where d: "d = Finite s m e" "- 1074 \<le> e" using roundsD(1) [OF r] by (cases d) auto
  have "1 \<le> m" using neg by (cases m) (auto simp: d split: if_splits)
  then have "2 powi - 1074 \<le> real m * 2 powi e" using mult_mono [of 1 "real m" "2 powi - 1074" "2 powi e"] powi_mono [OF d(2)] by simp
  moreover have "val d = - (real m * 2 powi e)" using neg by (auto simp: d(1) split: if_splits)
  ultimately have "2 powi - 1074 + x \<le> \<bar>val d - x\<bar>" using x by simp
  moreover have "x * 2 powi - 53 \<le> x" using x by (simp add: mult_le_cancel_left1)
  moreover have "(2 :: real) powi - 1075 < 2 powi - 1074" by (simp only: powi_less)
  ultimately have "max (\<bar>x\<bar> * 2 powi - 53) (2 powi - 1075) < \<bar>val d - x\<bar>"
    using x powi_pos [of "- 1074"] unfolding max_less_iff_conj abs_of_nonneg [OF x] by (intro conjI; linarith)
  then show False using roundsD(3) [OF r] by (meson leD)
qed

text \<open>The fraction times the power of ten, as the code computes it.\<close>

definition scaled :: "double \<Rightarrow> nat \<Rightarrow> real" where
  "scaled v p = val (fmul (fsub v (of_integer (truncate v))) (of_integer (10 ^ p)))"

lemma power_ten: "p \<le> 9 \<Longrightarrow> (10 :: 'a :: linordered_semidom) ^ p \<le> 1000000000"
  using power_increasing [of p 9 "10 :: 'a"] by simp

lemma scaled_bounds:
  assumes c: "canonical v" and v: "0 \<le> val v" "val v < 2 ^ 52" and p: "p \<le> 9"
  defines "y \<equiv> val v - of_int \<lfloor>val v\<rfloor>" and "d \<equiv> fmul (fsub v (of_integer (truncate v))) (of_integer (10 ^ p))"
  shows "canonical d" and "0 \<le> scaled v p" and "scaled v p < 10 ^ p" and "\<bar>scaled v p - y * 10 ^ p\<bar> \<le> 10 ^ p * 2 powi - 53"
    and "p = 0 \<Longrightarrow> scaled v p = y"
proof -
  note f = fractional_part [OF c v]
  have y: "0 \<le> y" "y \<le> 1 - 2 powi - 53" using f(3,4) by (simp_all add: y_def)
  have ten: "(10 :: int) ^ p < 2 ^ 53" using power_ten [OF p, where 'a = int] by simp
  have ten1: "(1 :: real) \<le> 10 ^ p" by simp
  have o: "val (of_integer (10 ^ p)) = 10 ^ p" "is_finite (of_integer (10 ^ p))"
    using of_integer_exact [of "10 ^ p"] ten by simp_all
  have s: "val (fsub v (of_integer (truncate v))) = y"
    unfolding y_def f(3) [symmetric] by (rule f(1))
  have le: "y * 10 ^ p \<le> (1 - 2 powi - 53) * 10 ^ p" using y(2) by (intro mult_right_mono) simp_all
  have "(1 - 2 powi - 53) * 10 ^ p = 10 ^ p - 10 ^ p * (2 powi - 53 :: real)" by (simp add: left_diff_distrib)
  with le have small: "y * 10 ^ p \<le> 10 ^ p - 10 ^ p * 2 powi - 53" by (simp only:)
  have "y \<le> 1" using y(2) powi_pos [of "- 53"] by linarith
  then have "y * 10 ^ p \<le> 10 ^ p" using mult_right_mono [of y 1 "10 ^ p"] by simp
  then have "y * 10 ^ p \<le> 1000000000" using power_ten [OF p, where 'a = real] by linarith
  then have "y * 10 ^ p < dbl_bound" using dbl_bound_large by simp
  then have r: "rounds (y * 10 ^ p) d"
    using fmul_rounds [of "fsub v (of_integer (truncate v))" "of_integer (10 ^ p)"] f(2) o y(1) unfolding s o d_def by simp
  have T: "scaled v p = val d" by (simp add: scaled_def d_def)
  have x0: "0 \<le> y * 10 ^ p" using y(1) by simp
  show "canonical d" by (rule roundsD(1) [OF r])
  show "0 \<le> scaled v p" unfolding T by (rule rounds_nonneg [OF r x0])
  have e: "\<bar>val d - y * 10 ^ p\<bar> \<le> max (y * 10 ^ p * 2 powi - 53) (2 powi - 1075)"
    using roundsD(3) [OF r] by (simp only: abs_of_nonneg [OF x0])
  have tiny: "(2 :: real) powi - 1075 < 2 powi - 53" by (simp only: powi_less)
  have t1: "(2 :: real) powi - 53 \<le> 10 ^ p * 2 powi - 53" using ten1 by simp
  have t2: "y * 10 ^ p * 2 powi - 53 \<le> (1 - 2 powi - 53) * 10 ^ p * 2 powi - 53"
    using le by (rule mult_right_mono) simp
  have t3: "(1 - 2 powi - 53) * 10 ^ p * 2 powi - 53 < 10 ^ p * (2 powi - 53 :: real)" by simp
  have m: "max (y * 10 ^ p * 2 powi - 53) (2 powi - 1075) < 10 ^ p * 2 powi - 53"
    using tiny t1 t2 t3 unfolding max_less_iff_conj by linarith
  show "\<bar>scaled v p - y * 10 ^ p\<bar> \<le> 10 ^ p * 2 powi - 53" using e m unfolding T by linarith
  show "scaled v p < 10 ^ p" using e m small unfolding T by linarith
  have "scaled v 0 = y" if "p = 0"
  proof -
    have "representable y" using representable_val [OF f(2)] s by simp
    then show ?thesis using roundsD(4) [OF r] that T by simp
  qed
  then show "p = 0 \<Longrightarrow> scaled v p = y" by simp
qed

lemma ftoa_split_cases:
  assumes c: "canonical v" and v: "0 \<le> val v" "val v < 2 ^ 52" and p: "p \<le> 9"
  defines "W \<equiv> nat \<lfloor>val v\<rfloor>" and "T \<equiv> scaled v p"
  defines "F \<equiv> nat \<lfloor>T\<rfloor>"
  shows "ftoa_split v (of_integer (10 ^ p)) =
    (if 1 / 2 < T - real F then (if 10 ^ p \<le> F + 1 then (W + 1, 0) else (W, F + 1))
     else if T - real F < 1 / 2 then (W, F)
     else if F = 0 \<or> odd F then (W, F + 1) else (W, F))"
proof -
  define d where "d = fmul (fsub v (of_integer (truncate v))) (of_integer (10 ^ p))"
  note b = scaled_bounds [OF c v p, folded d_def T_def]
  have T: "T = val d" by (simp add: T_def scaled_def d_def)
  have ten: "(10 :: real) ^ p \<le> 1000000000" "(10 :: int) ^ p \<le> 1000000000" using p by (simp_all add: power_ten)
  then have "val d < 2 ^ 52" using b(3) by (simp add: T)
  note f = fractional_part [OF b(1) b(2) [unfolded T] this]
  have tF: "truncate d = int F" using b(2) by (simp add: F_def T f(3))
  have F: "real_of_int (int F) = real F" by simp
  have fd: "is_finite (fsub d (of_integer (int F)))" "val (fsub d (of_integer (int F))) = T - real F"
    using f(1,2) by (simp_all add: tF T)
  have Fb: "int F + 1 < 2 ^ 53" using b(2,3) ten(1) by (simp add: F_def)
  have o: "val (of_integer (10 ^ p)) = 10 ^ p" "is_finite (of_integer (10 ^ p))"
    "val (of_integer (int F + 1)) = real F + 1" "is_finite (of_integer (int F + 1))"
    using of_integer_exact [of "10 ^ p"] of_integer_exact [of "int F + 1"] ten(2) Fb by simp_all
  have le: "fle (of_integer (10 ^ p)) (of_integer (int F + 1)) \<longleftrightarrow> 10 ^ p \<le> F + 1"
  proof -
    have "10 ^ p \<le> F + 1 \<longleftrightarrow> real (10 ^ p) \<le> real (F + 1)" by (simp only: of_nat_le_iff)
    then show ?thesis unfolding fle_val [OF o(2,4)] o(1,3) by (simp add: add.commute)
  qed
  have W: "nat (truncate v) = W" using c v(1) by (simp add: W_def truncate_nonneg)
  have h: "flt (literal 5 1) (fsub d (of_integer (int F))) \<longleftrightarrow> 1 / 2 < T - real F"
    "flt (fsub d (of_integer (int F))) (literal 5 1) \<longleftrightarrow> T - real F < 1 / 2"
    unfolding flt_val [OF half_value(2) fd(1)] flt_val [OF fd(1) half_value(2)] half_value(1) fd(2) by (rule refl)+
  show ?thesis
    unfolding ftoa_split_def Let_def d_def [symmetric] tF h le W by simp
qed

text \<open>Whole part and fraction, to half a unit of the last place and the error of the multiplication.\<close>

lemma ftoa_split_error:
  assumes c: "canonical v" and v: "0 \<le> val v" "val v < 2 ^ 52" and p: "0 < p" "p \<le> 9"
    and tie: "scaled v p \<noteq> 10 ^ p - 1 / 2"
  obtains w f where "ftoa_split v (of_integer (10 ^ p)) = (w, f)" "f < 10 ^ p" "w \<le> nat \<lfloor>val v\<rfloor> + 1"
    "\<bar>real w + real f / 10 ^ p - val v\<bar> \<le> 1 / 2 / 10 ^ p + 2 powi - 53"
proof -
  define W where "W = nat \<lfloor>val v\<rfloor>"
  define T where "T = scaled v p"
  define F where "F = nat \<lfloor>T\<rfloor>"
  note b = scaled_bounds [OF c v p(2), folded T_def]
  have F: "real F \<le> T" "T < real F + 1" using b(2) by (simp_all add: F_def)
  have "real F < 10 ^ p" using F(1) b(3) by linarith
  then have F10: "F < 10 ^ p" by simp
  have "real_of_int \<lfloor>val v\<rfloor> = real W" using v(1) by (simp add: W_def)
  then have y: "\<bar>T - (val v - real W) * 10 ^ p\<bar> \<le> 10 ^ p * 2 powi - 53" using b(4) by simp
  obtain w f where wf: "ftoa_split v (of_integer (10 ^ p)) = (w, f)" "f < 10 ^ p" "w \<le> W + 1"
    "\<bar>real w * 10 ^ p + real f - (real W * 10 ^ p + T)\<bar> \<le> 1 / 2"
  proof -
    note s = ftoa_split_cases [OF c v p(2), folded W_def T_def, folded F_def]
    consider (carry) "1 / 2 < T - real F" "10 ^ p \<le> F + 1" | (up) "1 / 2 < T - real F" "F + 1 < 10 ^ p"
      | (down) "T - real F < 1 / 2" | (tie) "T - real F = 1 / 2" by linarith
    then show thesis
    proof cases
      case carry
      then have "F + 1 = 10 ^ p" using F10 by simp
      then have "real (F + 1) = real (10 ^ p)" by (rule arg_cong)
      then have "\<bar>real (W + 1) * 10 ^ p + real 0 - (real W * 10 ^ p + T)\<bar> \<le> 1 / 2"
        using carry(1) F by (simp add: distrib_right)
      then show thesis using carry s by (intro that [of "W + 1" 0]) simp_all
    next
      case up
      then show thesis using s F by (intro that [of W "F + 1"]) simp_all
    next
      case down
      then show thesis using s F F10 by (intro that [of W F]) simp_all
    next
      case tie
      have "F + 1 \<noteq> 10 ^ p"
      proof
        assume "F + 1 = 10 ^ p"
        then have "real (F + 1) = real (10 ^ p)" by (rule arg_cong)
        then show False using tie assms(6) by (simp add: T_def)
      qed
      then have "F + 1 < 10 ^ p" using F10 by linarith
      then show thesis using s tie F10
        by (intro that [of W "if F = 0 \<or> odd F then F + 1 else F"]) auto
    qed
  qed
  have "\<bar>(real w + real f / 10 ^ p - val v) * 10 ^ p\<bar> =
      \<bar>(real w * 10 ^ p + real f - (real W * 10 ^ p + T)) + (T - (val v - real W) * 10 ^ p)\<bar>"
    by (simp add: left_diff_distrib distrib_right)
  also have "\<dots> \<le> 1 / 2 + 10 ^ p * 2 powi - 53" using wf(4) y by linarith
  also have "\<dots> = (1 / 2 / 10 ^ p + 2 powi - 53) * 10 ^ p" by (simp add: distrib_right)
  finally have "\<bar>real w + real f / 10 ^ p - val v\<bar> \<le> 1 / 2 / 10 ^ p + 2 powi - 53"
    unfolding abs_mult power_abs abs_numeral by (rule mult_right_le_imp_le) simp
  then show thesis using wf(1-3) that by (simp add: W_def)
qed

section \<open>The text of a number\<close>

definition ftoa_abs :: "double \<Rightarrow> double" where
  "ftoa_abs value = (if flt value (of_integer 0) then fsub (of_integer 0) value else value)"

definition sign_text :: "bool \<Rightarrow> u32 \<Rightarrow> string" where
  "sign_text negative flags =
     (if negative then ''-'' else if has flags FLAGS_PLUS then ''+'' else if has flags FLAGS_SPACE then '' '' else [])"

lemma zero_value: "val (of_integer 0) = 0" "is_finite (of_integer 0)"
  using of_integer_exact [of 0] by simp_all

lemma ftoa_abs_value:
  assumes c: "canonical value" and v: "\<bar>val value\<bar> \<le> 2 ^ 1000"
  shows "canonical (ftoa_abs value)" and "val (ftoa_abs value) = \<bar>val value\<bar>"
proof -
  have "rounds (0 - val value) (fsub (of_integer 0) value)"
    using fsub_rounds [of "of_integer 0" "value"] c v dbl_bound_large zero_value by simp
  moreover have "representable (0 - val value)" using representable_val [OF c] by simp
  ultimately have "canonical (fsub (of_integer 0) value)" "val (fsub (of_integer 0) value) = - val value"
    using roundsD by force+
  then show "canonical (ftoa_abs value)" "val (ftoa_abs value) = \<bar>val value\<bar>"
    using c by (simp_all add: ftoa_abs_def flt_val zero_value)
qed

lemma ftoa_sign_text:
  "length buf < 32 \<Longrightarrow> ftoa_sign negative flags buf = buf @ rev (sign_text negative flags)"
  by (simp add: ftoa_sign_def sign_text_def ftoa_put_def PRINTF_FTOA_BUFFER_SIZE_def)

text \<open>The precision that is used: the given one or the default.\<close>

definition ftoa_prec :: "u32 \<Rightarrow> u32 \<Rightarrow> u32" where
  "ftoa_prec prec flags = (if has flags FLAGS_PRECISION then prec else PRINTF_DEFAULT_FLOAT_PRECISION)"

lemma ftoa_limit_cases:
  assumes "unat prec \<le> 41"
  shows "ftoa_limit prec [] = (of_nat (min (unat prec) 9), replicate (unat prec - 9) CHR ''0'')"
proof (cases "9 \<le> prec")
  case True
  then have "9 \<le> unat prec" by (simp add: word_le_nat_alt)
  then show ?thesis using ftoa_limit_fill [OF True, of "[]"] assms by simp
next
  case False
  then have "unat prec \<le> 9" "prec \<le> 9" by (simp_all add: word_le_nat_alt)
  then show ?thesis by (simp add: ftoa_limit_small)
qed

lemma pow10_value: "p \<le> 9 \<Longrightarrow> pow10 (of_nat p) = Some (of_integer (10 ^ p))"
  by (simp add: pow10_def unat_of_nat word_le_nat_alt)

lemma ftoa_fixed_eq:
  assumes "unat (ftoa_prec prec flags) \<le> 41" and "\<not> has flags FLAGS_ZEROPAD"
  defines "n \<equiv> unat (ftoa_prec prec flags)"
  shows "ftoa_fixed value prec width flags =
    (case ftoa_split (ftoa_abs value) (of_integer (10 ^ min n 9)) of (w, f) \<Rightarrow>
       let buf0 = replicate (n - 9) CHR ''0'';
           buf1 = (if n = 0 then buf0 else ftoa_point (of_nat (min n 9)) f buf0);
           buf2 = ftoa_whole (if n = 0 then ftoa_round (ftoa_abs value) w else w) buf1
       in Some (ftoa_sign (flt value (of_integer 0)) flags buf2, width))"
proof -
  have z: "(of_nat (min n 9) :: u32) = 0 \<longleftrightarrow> n = 0"
    by (auto simp: unat_eq_zero [symmetric] unat_of_nat min_def)
  show ?thesis
    unfolding ftoa_fixed_def Let_def ftoa_prec_def [symmetric] ftoa_abs_def [symmetric] ftoa_limit_cases [OF assms(1)]
      n_def [symmetric] prod.case pow10_value [of "min n 9", simplified] option.case z
    using assms(2) by (simp add: ftoa_width_def split: prod.splits)
qed

lemma ftoa_fixed_text:
  assumes c: "canonical value" and v: "\<bar>val value\<bar> \<le> 1000000000" and fl: "\<not> has flags FLAGS_ZEROPAD"
    and n: "0 < unat (ftoa_prec prec flags)" "unat (ftoa_prec prec flags) \<le> 20"
    and tie: "scaled (ftoa_abs value) (min (unat (ftoa_prec prec flags)) 9) \<noteq> 10 ^ min (unat (ftoa_prec prec flags)) 9 - 1 / 2"
  defines "q \<equiv> min (unat (ftoa_prec prec flags)) 9"
  obtains w f where "f < 10 ^ q" "\<bar>real w + real f / 10 ^ q - \<bar>val value\<bar>\<bar> \<le> 1 / 2 / 10 ^ q + 2 powi - 53"
    "ftoa_fixed value prec width flags = Some (rev (sign_text (val value < 0) flags @ nat_text (digit 0) 10 w @ ''.'' @
       fixed_digits q f @ replicate (unat (ftoa_prec prec flags) - 9) CHR ''0''), width)"
proof -
  let ?n = "unat (ftoa_prec prec flags)" and ?v = "ftoa_abs value"
  have "\<bar>val value\<bar> \<le> 2 ^ 1000" using v by simp
  note a = ftoa_abs_value [OF c this]
  have v52: "val ?v < 2 ^ 52" "0 \<le> val ?v" using v by (simp_all add: a(2))
  have q: "0 < q" "q \<le> 9" using n(1) by (simp_all add: q_def)
  obtain w f where wf: "ftoa_split ?v (of_integer (10 ^ q)) = (w, f)" "f < 10 ^ q" "w \<le> nat \<lfloor>val ?v\<rfloor> + 1"
    "\<bar>real w + real f / 10 ^ q - val ?v\<bar> \<le> 1 / 2 / 10 ^ q + 2 powi - 53"
    by (rule ftoa_split_error [OF a(1) v52(2,1) q]) (use tie in \<open>simp_all add: q_def\<close>)
  have "nat \<lfloor>val ?v\<rfloor> \<le> 1000000000" using v by (simp add: a(2)) linarith
  then have w: "w < 10 ^ 10" using wf(3) by simp
  define b0 where "b0 = replicate (?n - 9) CHR ''0''"
  have uq: "unat (of_nat q :: u32) = q" using q(2) by (simp add: unat_of_nat)
  then have "0 < (of_nat q :: u32)" using q(1) by (simp only: unat_gt_0 [symmetric] word_neq_0_conv [symmetric]) 
  then have b1: "ftoa_point (of_nat q) f b0 = b0 @ rev (''.'' @ fixed_digits q f)"
    using ftoa_point_digits [of f "of_nat q" b0] wf(2) n(2) q uq by (simp add: b0_def)
  have l: "?n - 9 + q \<le> 20" using n(2) by (simp add: q_def)
  have b2: "ftoa_whole w (b0 @ rev (''.'' @ fixed_digits q f)) = b0 @ rev (''.'' @ fixed_digits q f) @ rev (nat_text (digit 0) 10 w)"
    using ftoa_whole_digits [OF w, of "b0 @ rev (''.'' @ fixed_digits q f)"] l by (simp add: b0_def)
  have "length (nat_text (digit 0) 10 w) \<le> 10" by (rule length_nat_text [OF _ w]) simp
  then have b3: "ftoa_sign (val value < 0) flags (b0 @ rev (''.'' @ fixed_digits q f) @ rev (nat_text (digit 0) 10 w)) =
      (b0 @ rev (''.'' @ fixed_digits q f) @ rev (nat_text (digit 0) 10 w)) @ rev (sign_text (val value < 0) flags)"
    using l by (intro ftoa_sign_text) (simp add: b0_def)
  have neg: "flt value (of_integer 0) \<longleftrightarrow> val value < 0" using c by (simp add: flt_val zero_value)
  have "ftoa_fixed value prec width flags = Some (rev (sign_text (val value < 0) flags @ nat_text (digit 0) 10 w @ ''.'' @
       fixed_digits q f @ b0), width)"
    using ftoa_fixed_eq [OF _ fl, of prec "value" width] n q(1) wf(1) b1 b2 b3
    by (simp add: q_def [symmetric] b0_def [symmetric] neg Let_def) (simp add: b0_def)
  then show thesis using that [of f w] wf(2,4) by (simp add: a(2) b0_def)
qed

section \<open>Results for every value\<close>

text \<open>The buffer holds at most 32 characters.\<close>

lemma length_ftoa_limit: "length buf \<le> 32 \<Longrightarrow> length (snd (ftoa_limit prec buf)) \<le> 32"
  by (induction prec buf rule: ftoa_limit.induct)
    (subst ftoa_limit.simps, simp add: PRINTF_FTOA_BUFFER_SIZE_def)

lemma length_ftoa_frac: "length buf \<le> 32 \<Longrightarrow> length (snd (ftoa_frac f count buf)) \<le> 32"
  by (induction f count buf rule: ftoa_frac.induct)
    (subst ftoa_frac.simps, simp add: PRINTF_FTOA_BUFFER_SIZE_def Let_def)

lemma length_ftoa_zeros: "length buf \<le> 32 \<Longrightarrow> length (ftoa_zeros count buf) \<le> 32"
  by (induction count buf rule: ftoa_zeros.induct)
    (subst ftoa_zeros.simps, simp add: PRINTF_FTOA_BUFFER_SIZE_def)

lemma length_ftoa_whole: "length buf \<le> 32 \<Longrightarrow> length (ftoa_whole w buf) \<le> 32"
  by (induction w buf rule: ftoa_whole.induct)
    (subst ftoa_whole.simps, simp add: PRINTF_FTOA_BUFFER_SIZE_def Let_def)

lemma length_ftoa_fill: "length buf \<le> 32 \<Longrightarrow> length (ftoa_fill width buf) \<le> 32"
  by (induction width buf rule: ftoa_fill.induct)
    (subst ftoa_fill.simps, simp add: PRINTF_FTOA_BUFFER_SIZE_def)

lemma length_ftoa_put: "length buf \<le> 32 \<Longrightarrow> length (ftoa_put buf c) \<le> 32"
  by (simp add: ftoa_put_def PRINTF_FTOA_BUFFER_SIZE_def)

lemma length_ftoa_point: "length buf \<le> 32 \<Longrightarrow> length (ftoa_point prec f buf) \<le> 32"
  using length_ftoa_frac [of buf f prec]
  by (cases "ftoa_frac f prec buf") (simp add: ftoa_point_def length_ftoa_put length_ftoa_zeros)

lemma length_ftoa_sign: "length buf \<le> 32 \<Longrightarrow> length (ftoa_sign negative flags buf) \<le> 32"
  by (simp add: ftoa_sign_def length_ftoa_put)

lemmas length_ftoa = length_ftoa_whole length_ftoa_fill length_ftoa_point length_ftoa_sign

lemma length_ftoa_fixed: "ftoa_fixed value prec width flags = Some (buf, w) \<Longrightarrow> length buf \<le> 32"
proof -
  assume r: "ftoa_fixed value prec width flags = Some (buf, w)"
  obtain n b where l: "ftoa_limit (ftoa_prec prec flags) [] = (n, b)" by fastforce
  then have "length b \<le> 32" using length_ftoa_limit [of "[]" "ftoa_prec prec flags"] by simp
  then show ?thesis
    using r unfolding ftoa_fixed_def Let_def ftoa_prec_def [symmetric] l prod.case
    by (auto simp: length_ftoa split: prod.splits option.splits if_splits)
qed

text \<open>Up to precision 41 the table of powers is read inside its bounds; beyond, it is not.\<close>

lemma ftoa_limit_beyond:
  "unat prec > 41 - length buf \<Longrightarrow> length buf \<le> 32 \<Longrightarrow> 9 < fst (ftoa_limit prec buf)"
proof (induction prec buf rule: ftoa_limit.induct)
  case (1 prec buf)
  then have "9 < unat prec" by simp
  then have p: "9 < prec" by (simp add: word_less_nat_alt)
  show ?case
  proof (cases "length buf < PRINTF_FTOA_BUFFER_SIZE")
    case True
    have "unat (prec - 1) = unat prec - 1" using p by (intro unat_minus_one) auto
    then show ?thesis using 1 p True by (subst ftoa_limit.simps) (simp add: PRINTF_FTOA_BUFFER_SIZE_def)
  next
    case False
    then show ?thesis using p by (subst ftoa_limit.simps) simp
  qed
qed

lemma ftoa_fixed_returns: "(\<exists>r. ftoa_fixed value prec width flags = Some r) \<longleftrightarrow> unat (ftoa_prec prec flags) \<le> 41"
proof (cases "unat (ftoa_prec prec flags) \<le> 41")
  case True
  note l = ftoa_limit_cases [OF True] and p10 = pow10_value [of "min (unat (ftoa_prec prec flags)) 9", simplified]
  show ?thesis
    using True unfolding ftoa_fixed_def Let_def ftoa_prec_def [symmetric] l prod.case p10 option.case
    by (simp split: prod.split)
next
  case False
  obtain n b where l: "ftoa_limit (ftoa_prec prec flags) [] = (n, b)" by fastforce
  moreover have "9 < fst (ftoa_limit (ftoa_prec prec flags) [])" using False by (intro ftoa_limit_beyond) simp_all
  ultimately have n: "pow10 n = None" by (simp add: pow10_def not_le)
  show ?thesis
    using False unfolding ftoa_fixed_def Let_def ftoa_prec_def [symmetric] l prod.case n option.case by simp
qed

text \<open>The values for which \<^verbatim>\<open>_ftoa\<close> does not hand over to \<^verbatim>\<open>_etoa\<close>.\<close>

lemma large_values:
  "val DBL_MAX = (2 ^ 53 - 1) * 2 powi 971" "is_finite DBL_MAX"
  "val PRINTF_MAX_FLOAT = 1000000000" "is_finite PRINTF_MAX_FLOAT"
  using of_integer_exact [of 1000000000] by (simp_all add: DBL_MAX_def PRINTF_MAX_FLOAT_def)

lemma not_beyond_max:
  assumes "canonical value"
  shows "\<not> flt DBL_MAX value" "\<not> flt value (fneg DBL_MAX)" "value \<noteq> NaN"
proof -
  obtain s m e where d: "value = Finite s m e" using assms by (cases "value") auto
  have "real m * 2 powi e \<le> (2 ^ 53 - 1) * 2 powi 971"
  proof (rule mult_mono)
    have "real (m + 1) \<le> real (2 ^ 53)" using assms unfolding d by (simp only: of_nat_le_iff) simp
    then show "real m \<le> 2 ^ 53 - 1" by simp
    show "(2 :: real) powi e \<le> 2 powi 971" using assms by (intro powi_mono) (simp add: d)
  qed simp_all
  then have "\<bar>val value\<bar> \<le> val DBL_MAX" unfolding large_values(1) d by (simp add: abs_mult)
  then show "\<not> flt DBL_MAX value" "\<not> flt value (fneg DBL_MAX)" "value \<noteq> NaN"
    using large_values(2) by (auto simp: flt_val d)
qed

lemma ftoa_small:
  assumes c: "canonical value" and v: "\<bar>val value\<bar> \<le> 1000000000"
  shows "ftoa (Suc n) out buffer idx maxlen value prec width flags s =
    map_option (\<lambda>(buf, w). out_chars out buffer maxlen (justify flags w (rev buf)) (idx, s)) (ftoa_fixed value prec width flags)"
proof -
  have "\<not> flt PRINTF_MAX_FLOAT value" "\<not> flt value (fneg PRINTF_MAX_FLOAT)"
    using v c large_values by (simp_all add: flt_val abs_le_iff)
  then have "ftoa (Suc n) out buffer idx maxlen value prec width flags s =
      map_option (\<lambda>(buf, w). out_rev out buffer idx maxlen buf w flags s) (ftoa_fixed value prec width flags)"
    using not_beyond_max [OF c] by (simp add: ftoa.simps)
  also have "\<dots> = map_option (\<lambda>(buf, w). out_chars out buffer maxlen (justify flags w (rev buf)) (idx, s)) (ftoa_fixed value prec width flags)"
    using length_ftoa_fixed [of "value" prec width flags] by (auto simp: out_rev_text intro!: option.map_cong0)
  finally show ?thesis .
qed

text \<open>A fraction of \<open>10^count\<close>: one digit too many, and the count wraps around.\<close>

lemma ftoa_zeros_full:
  "32 - length buf \<le> unat count \<Longrightarrow> length buf \<le> 32 \<Longrightarrow> ftoa_zeros count buf = buf @ replicate (32 - length buf) CHR ''0''"
proof (induction count buf rule: ftoa_zeros.induct)
  case (1 count buf)
  show ?case
  proof (cases "length buf = 32")
    case True
    then show ?thesis by (subst ftoa_zeros.simps) (simp add: PRINTF_FTOA_BUFFER_SIZE_def)
  next
    case False
    then have l: "length buf < PRINTF_FTOA_BUFFER_SIZE" "32 - length buf = Suc (32 - length (buf @ ''0''))"
      using 1(3) by (simp_all add: PRINTF_FTOA_BUFFER_SIZE_def)
    then have "0 < unat count" using 1(2) by simp
    then have c: "0 < count" "unat (count - 1) = unat count - 1" by (simp_all add: unat_gt_0 word_neq_0_conv unat_minus_one)
    show ?thesis
      using 1(1) l 1(2,3) c by (subst ftoa_zeros.simps) (simp add: PRINTF_FTOA_BUFFER_SIZE_def)
  qed
qed

lemma ftoa_frac_overflow:
  "unat count + length buf < 32 \<Longrightarrow>
    ftoa_frac (10 ^ unat count) count buf = (- 1, buf @ replicate (unat count) CHR ''0'' @ ''1'')"
proof (induction "unat count" arbitrary: count buf)
  case 0
  then have "count = 0" by (simp add: unat_eq_zero)
  moreover have "char_of (49 :: nat) = CHR ''1''" by (simp add: char_of_def bit_0)
  ultimately show ?case using 0 by (subst ftoa_frac.simps) (simp add: PRINTF_FTOA_BUFFER_SIZE_def Let_def)
next
  case (Suc k)
  have "0 < unat count" using Suc(2) by simp
  then have k: "k = unat (count - 1)" using Suc(2) by (simp add: unat_gt_0 unat_minus_one)
  have "char_of (48 :: nat) = CHR ''0''" by (simp add: char_of_def bit_0)
  then have "ftoa_frac (10 ^ unat count) count buf = ftoa_frac (10 ^ unat (count - 1)) (count - 1) (buf @ ''0'')"
    using Suc(2,3) k by (subst ftoa_frac.simps) (simp add: PRINTF_FTOA_BUFFER_SIZE_def Let_def flip: Suc(2))
  also have "\<dots> = (- 1, (buf @ ''0'') @ replicate (unat (count - 1)) CHR ''0'' @ ''1'')"
    using Suc(3) k by (intro Suc(1)) (simp_all flip: Suc(2))
  finally show ?case using k by (simp flip: Suc(2))
qed

lemma ftoa_fixed_tie:
  assumes c: "canonical value" and v: "\<bar>val value\<bar> \<le> 1000000000" and fl: "\<not> has flags FLAGS_ZEROPAD"
    and n: "0 < unat (ftoa_prec prec flags)" "unat (ftoa_prec prec flags) \<le> 9"
    and tie: "scaled (ftoa_abs value) (unat (ftoa_prec prec flags)) = 10 ^ unat (ftoa_prec prec flags) - 1 / 2"
  defines "n \<equiv> unat (ftoa_prec prec flags)"
  shows "ftoa_fixed value prec width flags = Some (rev (replicate (31 - n) CHR ''0'' @ ''1'' @ replicate n CHR ''0''), width)"
proof -
  let ?v = "ftoa_abs value" and ?p = "ftoa_prec prec flags"
  have "\<bar>val value\<bar> \<le> 2 ^ 1000" using v by simp
  note a = ftoa_abs_value [OF c this]
  have v52: "val ?v < 2 ^ 52" "0 \<le> val ?v" using v by (simp_all add: a(2))
  define K where "K = (10 :: nat) ^ n - 1"
  have K: "K + 1 = 10 ^ n" by (simp add: K_def)
  then have "real (K + 1) = real (10 ^ n)" by (rule arg_cong)
  then have T: "scaled ?v n = real K + 1 / 2" using tie by (simp add: n_def)
  then have F: "nat \<lfloor>scaled ?v n\<rfloor> = K" by linarith
  have d: "scaled ?v n - real K = 1 / 2" using T by simp
  have "even (K + 1)" using n(1) unfolding K by (simp add: n_def)
  then have "odd K" by simp
  then obtain w where w: "ftoa_split ?v (of_integer (10 ^ n)) = (w, 10 ^ n)"
    using ftoa_split_cases [OF a(1) v52(2,1) n(2) [folded n_def], unfolded F d] K by simp
  have p: "(of_nat n :: u32) = ?p" by (simp add: n_def)
  have "unat (- 1 :: u32) = 4294967295" by (simp add: unsigned_minus_1_eq_mask mask_eq_exp_minus_1)
  then have "ftoa_point ?p (10 ^ n) [] = replicate n CHR ''0'' @ ''1'' @ replicate (31 - n) CHR ''0''"
    using ftoa_frac_overflow [of ?p "[]"] n(2) ftoa_zeros_full [of "replicate n CHR ''0'' @ ''1''" "- 1"]
    by (simp add: ftoa_point_def n_def [symmetric] ftoa_put_def PRINTF_FTOA_BUFFER_SIZE_def)
  moreover have "ftoa_whole w' (replicate n CHR ''0'' @ ''1'' @ replicate (31 - n) CHR ''0'') =
      replicate n CHR ''0'' @ ''1'' @ replicate (31 - n) CHR ''0''" for w'
    using n(2) by (subst ftoa_whole.simps) (simp add: PRINTF_FTOA_BUFFER_SIZE_def n_def [symmetric])
  ultimately show ?thesis
    using ftoa_fixed_eq [OF _ fl, of prec "value" width] n w p
    by (simp add: n_def [symmetric] Let_def ftoa_sign_def ftoa_put_def PRINTF_FTOA_BUFFER_SIZE_def)
qed

lemma conv_float_f:
  assumes "canonical value" and "\<bar>val value\<bar> \<le> 1000000000"
  shows "conv_float out buffer maxlen CHR ''f'' flags width prec value (idx, s) =
    map_option (\<lambda>(buf, w). out_chars out buffer maxlen (justify flags w (rev buf)) (idx, s)) (ftoa_fixed value prec width flags)"
  using ftoa_small [OF assms, of 2] by (simp add: conv_float_def numeral_3_eq_3)

section \<open>Properties\<close>

text \<open>C30: \<^verbatim>\<open>%f\<close> prints the number. For a value up to 1e9 and a precision from 1 to 20 the
  output is the sign, the whole part, the point and the digits of the precision, of which at most 9 are computed and
  the others are zeros; what is printed differs from the value by at most half a unit of the last computed digit plus
  the error of one multiplication. The exception are fractions that end up halfway below 1.\<close>

theorem ftoa_correct:
  assumes "canonical value" and "\<bar>val value\<bar> \<le> 1000000000" and "\<not> has flags FLAGS_ZEROPAD"
    and "n = unat (ftoa_prec prec flags)" and "0 < n" and "n \<le> 20" and "q = min n 9"
    and "scaled (ftoa_abs value) q \<noteq> 10 ^ q - 1 / 2"
  shows "\<exists>w f. f < 10 ^ q \<and> \<bar>real w + real f / 10 ^ q - \<bar>val value\<bar>\<bar> \<le> 1 / 2 / 10 ^ q + 2 powi - 53 \<and>
    conv_float out buffer maxlen CHR ''f'' flags width prec value (idx, s) =
      Some (out_chars out buffer maxlen
        (justify flags width (sign_text (val value < 0) flags @ nat_text (digit 0) 10 w @ ''.'' @
           fixed_digits q f @ replicate (n - 9) CHR ''0'')) (idx, s))"
proof -
  obtain w f where "f < 10 ^ q" "\<bar>real w + real f / 10 ^ q - \<bar>val value\<bar>\<bar> \<le> 1 / 2 / 10 ^ q + 2 powi - 53"
    "ftoa_fixed value prec width flags = Some (rev (sign_text (val value < 0) flags @ nat_text (digit 0) 10 w @ ''.'' @
       fixed_digits q f @ replicate (n - 9) CHR ''0''), width)"
    using ftoa_fixed_text [of "value" flags prec width] assms by metis
  moreover from this(3) have "conv_float out buffer maxlen CHR ''f'' flags width prec value (idx, s) =
      Some (out_chars out buffer maxlen
        (justify flags width (sign_text (val value < 0) flags @ nat_text (digit 0) 10 w @ ''.'' @
           fixed_digits q f @ replicate (n - 9) CHR ''0'')) (idx, s))"
    unfolding conv_float_f [OF assms(1,2)] by simp
  ultimately show ?thesis by blast
qed

text \<open>2.5 with one digit.\<close>

lemma ftoa_demo_scaled: "scaled (ftoa_abs (Finite False 5629499534213120 (- 51))) 1 = 5"
  by (simp add: scaled_def ftoa_abs_def double_eval)

theorem ftoa_correct_witness:
  "conv_float out_char 0 100 CHR ''f'' FLAGS_PRECISION 0 1 (Finite False 5629499534213120 (- 51)) (0, []) = Some (3, ''2.5'')"
proof -
  let ?x = "Finite False 5629499534213120 (- 51)"
  have n: "(1 :: nat) = unat (ftoa_prec 1 FLAGS_PRECISION)" "\<not> has FLAGS_PRECISION FLAGS_ZEROPAD"
    by (simp_all add: ftoa_prec_def has_def FLAGS_defs)
  have v: "val ?x = 5 / 2" by (simp add: powi_minus_nat)
  obtain w f where f: "f < 10 ^ 1" "\<bar>real w + real f / 10 ^ 1 - \<bar>val ?x\<bar>\<bar> \<le> 1 / 2 / 10 ^ 1 + 2 powi - 53"
    and r: "conv_float out_char 0 100 CHR ''f'' FLAGS_PRECISION 0 1 ?x (0, []) =
      Some (out_chars out_char 0 100 (justify FLAGS_PRECISION 0 (sign_text (val ?x < 0) FLAGS_PRECISION @
        nat_text (digit 0) 10 w @ ''.'' @ fixed_digits 1 f @ replicate (1 - 9) CHR ''0'')) (0, []))"
  proof -
    have "canonical ?x" "\<bar>val ?x\<bar> \<le> 1000000000" by (simp_all add: powi_minus_nat)
    from ftoa_correct [OF this n(2,1), of 1 out_char 0 100 0 0 "[]"] show thesis using ftoa_demo_scaled that by auto
  qed
  have "\<bar>real w + real f / 10 - 5 / 2\<bar> \<le> 1 / 11" using f(2) unfolding v by simp
  then have "real w + real f / 10 - 5 / 2 \<le> 1 / 11" "- (real w + real f / 10 - 5 / 2) \<le> 1 / 11" by (simp_all only: abs_le_iff)
  then have "10 * w + f = 25" by linarith
  then have "w = 2 \<and> f = 5" using f(1) unfolding power_one_right by presburger
  then show ?thesis
    using r v by (simp add: justify_def has_def FLAGS_defs sign_text_def nat_text.simps digit_char_of [symmetric]
      out_char_def NUL_def char_of_def bit_0)
qed

text \<open>A rounding error of \<^verbatim>\<open>%f\<close>. When the fraction times the power of ten comes out halfway below the full
  power, the carry into the whole part is missing: for a precision up to 9 the output is then a string of 32 digits,
  a one among zeros without point and sign, that depends on nothing but the precision.\<close>

theorem ftoa_missing_carry:
  assumes "canonical value" and "\<bar>val value\<bar> \<le> 1000000000" and "\<not> has flags FLAGS_ZEROPAD"
    and "n = unat (ftoa_prec prec flags)" and "0 < n" and "n \<le> 9"
    and "scaled (ftoa_abs value) n = 10 ^ n - 1 / 2"
  shows "conv_float out buffer maxlen CHR ''f'' flags width prec value (idx, s) =
    Some (out_chars out buffer maxlen
      (justify flags width (replicate (31 - n) CHR ''0'' @ ''1'' @ replicate n CHR ''0'')) (idx, s))"
  unfolding conv_float_f [OF assms(1,2)] using ftoa_fixed_tie [of "value" flags prec width] assms by simp

text \<open>The double nearest to 0.95, with one digit.\<close>

lemma ftoa_tie_scaled: "scaled (ftoa_abs (Finite False 8556839292003942 (- 53))) 1 = 10 ^ 1 - 1 / 2"
  by (simp add: scaled_def ftoa_abs_def double_eval)

theorem ftoa_missing_carry_witness:
  "conv_float out_char 0 100 CHR ''f'' FLAGS_PRECISION 0 1 (Finite False 8556839292003942 (- 53)) (0, []) =
     Some (32, ''00000000000000000000000000000010'')"
proof -
  let ?x = "Finite False 8556839292003942 (- 53)"
  have "1 = unat (ftoa_prec 1 FLAGS_PRECISION)" "\<not> has FLAGS_PRECISION FLAGS_ZEROPAD"
    by (simp_all add: ftoa_prec_def has_def FLAGS_defs)
  moreover have "\<bar>val ?x\<bar> \<le> 1000000000" by (simp add: powi_minus_nat)
  ultimately have "conv_float out_char 0 100 CHR ''f'' FLAGS_PRECISION 0 1 ?x (0, []) =
      Some (out_chars out_char 0 100 (justify FLAGS_PRECISION 0 (replicate (31 - 1) CHR ''0'' @ ''1'' @ replicate 1 CHR ''0'')) (0, []))"
    using ftoa_tie_scaled by (intro ftoa_missing_carry [where n = 1]) simp_all
  moreover have "replicate (31 - 1) CHR ''0'' @ ''1'' @ replicate 1 CHR ''0'' = ''00000000000000000000000000000010''"
    by (simp add: numeral_eq_Suc)
  ultimately show ?thesis by (simp only:) (simp add: justify_def has_def FLAGS_defs out_char_def NUL_def)
qed

text \<open>\<^verbatim>\<open>%f\<close> reads the table of powers of ten within its bounds exactly for precisions up to 41.\<close>

theorem ftoa_table_bounds:
  assumes "canonical value" and "\<bar>val value\<bar> \<le> 1000000000"
  shows "(\<exists>r. conv_float out buffer maxlen CHR ''f'' flags width prec value st = Some r) \<longleftrightarrow>
    \<not> has flags FLAGS_PRECISION \<or> prec \<le> 41"
proof -
  have "unat (ftoa_prec prec flags) \<le> 41 \<longleftrightarrow> \<not> has flags FLAGS_PRECISION \<or> prec \<le> 41"
    by (simp add: ftoa_prec_def PRINTF_DEFAULT_FLOAT_PRECISION_def word_le_nat_alt)
  then show ?thesis
    using ftoa_fixed_returns [of "value" prec width flags] conv_float_f [OF assms, of out buffer maxlen flags width prec "fst st" "snd st"]
    by auto
qed

end
