(* ===== verification/Printk_Exp_Spec.thy ===== *)
theory Printk_Exp_Spec
  imports Printk_Float_Spec
begin

text \<open>
  \<^verbatim>\<open>_etoa\<close> for every value: the approximation of the decimal exponent and of the power of ten,
  followed through the rounding of each operation, is good enough for the scaled value to stay far
  below \<^verbatim>\<open>PRINTF_MAX_FLOAT\<close>. So \<^verbatim>\<open>_ftoa\<close> and \<^verbatim>\<open>_etoa\<close> call each other at most
  twice, and every conversion of a double returns.
\<close>

section \<open>Intervals\<close>

text \<open>A finite double between two bounds; each operation widens them by \<open>2^-40\<close> at most.\<close>

definition in_range :: "double \<Rightarrow> real \<Rightarrow> real \<Rightarrow> bool" where
  "in_range d l h \<longleftrightarrow> is_finite d \<and> l \<le> val d \<and> val d \<le> h"

abbreviation eps :: real where
  "eps \<equiv> 1 / 1099511627776"

lemma rounds_in_range:
  assumes "rounds x d" and "\<bar>x\<bar> \<le> 4096" and "l + eps \<le> x" and "x + eps \<le> h"
  shows "in_range d l h"
proof -
  have "\<bar>x\<bar> * 2 powi - 53 \<le> 4096 * 2 powi - 53" using assms(2) by (intro mult_right_mono) simp_all
  also have "\<dots> \<le> eps" by simp
  finally have "\<bar>x\<bar> * 2 powi - 53 \<le> eps" .
  moreover have "(2 :: real) powi - 1075 \<le> 2 powi - 40" by (intro powi_mono) simp
  then have "(2 :: real) powi - 1075 \<le> eps" by simp
  ultimately have "max (\<bar>x\<bar> * 2 powi - 53) (2 powi - 1075) \<le> eps" by (simp only: max.bounded_iff)
  then have "\<bar>val d - x\<bar> \<le> eps" using roundsD(3) [OF assms(1)] by linarith
  then show ?thesis using assms(3,4) roundsD(2) [OF assms(1)] unfolding in_range_def by linarith
qed

lemma below_bound: "\<bar>x\<bar> \<le> 4096 \<Longrightarrow> \<bar>x\<bar> < dbl_bound"
  using dbl_bound_large by simp

lemma in_range_add:
  "in_range a la ha \<Longrightarrow> in_range b lb hb \<Longrightarrow> - 4096 \<le> la + lb \<Longrightarrow> ha + hb \<le> 4096 \<Longrightarrow>
    l + eps \<le> la + lb \<Longrightarrow> ha + hb + eps \<le> h \<Longrightarrow> in_range (fadd a b) l h"
  by (rule rounds_in_range [OF fadd_rounds]) (simp_all add: in_range_def below_bound abs_le_iff)

lemma in_range_sub:
  "in_range a la ha \<Longrightarrow> in_range b lb hb \<Longrightarrow> - 4096 \<le> la - hb \<Longrightarrow> ha - lb \<le> 4096 \<Longrightarrow>
    l + eps \<le> la - hb \<Longrightarrow> ha - lb + eps \<le> h \<Longrightarrow> in_range (fsub a b) l h"
  by (rule rounds_in_range [OF fsub_rounds]) (simp_all add: in_range_def below_bound abs_le_iff)

text \<open>A product with an integer.\<close>

lemma in_range_int_mul:
  assumes k: "\<bar>k\<bar> \<le> 1024" and a: "in_range a (x - eps) (x + eps)" and x: "0 \<le> x" "x \<le> 3.9"
  shows "in_range (fmul (of_integer k) a) (of_int k * x - 1100 * eps) (of_int k * x + 1100 * eps)"
proof -
  have o: "val (of_integer k) = of_int k" "is_finite (of_integer k)" using of_integer_exact [of k] k by simp_all
  have k': "\<bar>real_of_int k\<bar> \<le> 1024" using k by simp
  have "\<bar>val a - x\<bar> \<le> eps" using a unfolding in_range_def abs_le_iff by linarith
  then have "\<bar>real_of_int k\<bar> * \<bar>val a - x\<bar> \<le> 1024 * eps" using k' by (intro mult_mono) simp_all
  then have e: "\<bar>of_int k * val a - of_int k * x\<bar> \<le> 1024 * eps" by (simp only: abs_mult right_diff_distrib [symmetric])
  have "\<bar>real_of_int k\<bar> * x \<le> 1024 * 3.9" using k' x by (intro mult_mono) simp_all
  then have "\<bar>of_int k * x\<bar> \<le> 1024 * 3.9" using x(1) by (simp add: abs_mult)
  then have b: "\<bar>of_int k * val a\<bar> \<le> 4096" using e by linarith
  then have "rounds (of_int k * val a) (fmul (of_integer k) a)"
    using fmul_rounds [of "of_integer k" a] o a below_bound unfolding in_range_def by simp
  then show ?thesis by (rule rounds_in_range [OF _ b]) (use e in linarith)+
qed

lemma in_range_literal:
  "of_int n / 10 ^ k = x \<Longrightarrow> \<bar>x\<bar> \<le> 4096 \<Longrightarrow> in_range (literal n k) (x - eps) (x + eps)"
  using literal_rounds [of n k] by (intro rounds_in_range [of x]) (auto simp: below_bound)

lemma in_range_of_integer: "\<bar>k\<bar> < 2 ^ 53 \<Longrightarrow> in_range (of_integer k) (of_int k) (of_int k)"
  using of_integer_exact [of k] by (simp add: in_range_def)

text \<open>Products and quotients of numbers that are not negative.\<close>

lemma in_range_mul:
  assumes "in_range a 0 ha" and "in_range b 0 hb" and "ha * hb \<le> 4096" and "ha * hb + eps \<le> h"
  shows "in_range (fmul a b) 0 h"
proof -
  have v: "0 \<le> val a" "val a \<le> ha" "0 \<le> val b" "val b \<le> hb" "is_finite a" "is_finite b" using assms(1,2) by (simp_all add: in_range_def)
  then have p: "0 \<le> val a * val b" "val a * val b \<le> ha * hb" by (auto intro: mult_mono)
  then have r: "rounds (val a * val b) (fmul a b)" using v assms(3) by (intro fmul_rounds below_bound) simp_all
  then have "in_range (fmul a b) (- 1) h" using p assms(3,4) by (intro rounds_in_range [OF r]) simp_all
  then show ?thesis using rounds_nonneg [OF r p(1)] by (simp add: in_range_def)
qed

lemma in_range_div:
  assumes "in_range a 0 ha" and "in_range b lb hb" and "0 < lb" and "ha / lb \<le> 4096" and "ha / lb + eps \<le> h"
  shows "in_range (fdiv a b) 0 h"
proof -
  have v: "0 \<le> val a" "val a \<le> ha" "lb \<le> val b" "is_finite a" "is_finite b" using assms(1,2) by (simp_all add: in_range_def)
  then have p: "0 \<le> val a / val b" "val a / val b \<le> ha / lb" using assms(3) by (auto intro: frac_le)
  then have r: "rounds (val a / val b) (fdiv a b)" using v assms(3,4) by (intro fdiv_rounds below_bound) simp_all
  then have "in_range (fdiv a b) (- 1) h" using p assms(4,5) by (intro rounds_in_range [OF r]) simp_all
  then show ?thesis using rounds_nonneg [OF r p(1)] by (simp add: in_range_def)
qed

lemma in_range_mono: "in_range d l h \<Longrightarrow> l' \<le> l \<Longrightarrow> h \<le> h' \<Longrightarrow> in_range d l' h'"
  by (simp add: in_range_def)

lemma in_range_mul_abs:
  assumes "in_range a (- ha) ha" and "in_range b (- hb) hb" and "ha * hb \<le> 4096" and "ha * hb + eps \<le> h"
  shows "in_range (fmul a b) (- h) h"
proof -
  have v: "\<bar>val a\<bar> \<le> ha" "\<bar>val b\<bar> \<le> hb" "is_finite a" "is_finite b" using assms(1,2) by (auto simp: in_range_def)
  then have p: "\<bar>val a * val b\<bar> \<le> ha * hb" unfolding abs_mult by (intro mult_mono) auto
  then have "\<bar>val a * val b\<bar> \<le> 4096" using assms(3) by linarith
  then show ?thesis
    using v p assms(4) by (intro rounds_in_range [OF fmul_rounds]) (auto simp: below_bound abs_le_iff)
qed

lemma truncate_bounds:
  assumes "is_finite d"
  shows "0 \<le> val d \<Longrightarrow> of_int (truncate d) \<le> val d" and "val d \<le> 0 \<Longrightarrow> val d \<le> of_int (truncate d)"
    and "val d < of_int (truncate d) + 1" and "of_int (truncate d) < val d + 1"
proof -
  have t: "truncate d = (if 0 \<le> val d then \<lfloor>val d\<rfloor> else - \<lfloor>- val d\<rfloor>)"
    using truncate_nonneg [OF assms] truncate_nonneg [of "fneg d"] assms by (cases "0 \<le> val d") (simp_all add: truncate_fneg)
  show "0 \<le> val d \<Longrightarrow> of_int (truncate d) \<le> val d" by (simp add: t)
  show "val d \<le> 0 \<Longrightarrow> val d \<le> of_int (truncate d)"
  proof (cases "val d = 0")
    case False
    assume "val d \<le> 0"
    with False have "of_int (truncate d) = - real_of_int \<lfloor>- val d\<rfloor>" by (simp add: t)
    then show ?thesis using of_int_floor_le [of "- val d"] by linarith
  qed (simp add: t)
  show "val d < of_int (truncate d) + 1" by (simp add: t) linarith
  show "of_int (truncate d) < val d + 1" by (simp add: t) linarith
qed

section \<open>The decimal exponent\<close>

text \<open>The binary exponent that \<^verbatim>\<open>_etoa\<close> reads off the bits.\<close>

definition exponent2 :: "double \<Rightarrow> int" where
  "exponent2 v = int (unat (drop_bit 52 (bits_of_double v) AND 0x7FF)) - 1023"

definition mantissa2 :: "double \<Rightarrow> double" where
  "mantissa2 v = double_of_bits ((bits_of_double v AND (push_bit 52 1 - 1)) OR push_bit 52 1023)"

lemma fields_or: "f < 2 ^ 52 \<Longrightarrow> (of_nat f OR push_bit 52 1023 :: u64) = fields 1023 f"
proof -
  assume f: "f < 2 ^ 52"
  have "(of_nat f :: u64) = take_bit 52 (of_nat f)"
    using f by (intro word_unat_eq_iff [THEN iffD2]) (simp add: unsigned_take_bit_eq unat_of_nat take_bit_nat_eq_self)
  then have "\<not> bit (of_nat f :: u64) n \<or> \<not> bit (push_bit 52 1023 :: u64) n" for n
    by (metis bit_push_bit_iff bit_take_bit_iff not_le)
  then have "of_nat f + push_bit 52 1023 = (of_nat f OR push_bit 52 1023 :: u64)" by (rule disjunctive_add)
  moreover have "push_bit 52 1023 = (1023 * 2 ^ 52 :: u64)" by (simp add: push_bit_eq_mult)
  ultimately show ?thesis by (simp add: fields_def add.commute)
qed

lemma exponent_fields:
  assumes c: "canonical v" and v: "0 \<le> val v"
  obtains x f where "x < 2047" "f < 2 ^ 52" "exponent2 v = int x - 1023" "mantissa2 v = Finite False (f + 2 ^ 52) (- 52)"
    "val v = (if x = 0 then real f * 2 powi - 1074 else (real f + 2 ^ 52) * 2 powi (int x - 1075))"
proof -
  obtain s m e where d: "v = Finite s m e" using c by (cases v) auto
  obtain x f where xf: "x < 2047" "f < 2 ^ 52" "unat (drop_bit 52 (bits_of_double v) AND 0x7FF) = x"
    "bits_of_double v AND 0xFFFFFFFFFFFFF = of_nat f"
    "val v = (if x = 0 then real f * 2 powi - 1074 else (real f + 2 ^ 52) * 2 powi (int x - 1075))"
  proof (cases s)
    case True
    then have "m = 0" using v by (auto simp: d zero_le_mult_iff mult_le_0_iff)
    then have "v = Finite True 0 (- 1074)" using c True by (simp add: d)
    then show thesis by (intro that [of 0 0]) simp_all
  next
    case False
    define x where "x = (if m < 2 ^ 52 then 0 else nat (e + 1075))"
    define f where "f = (if m < 2 ^ 52 then m else m - 2 ^ 52)"
    have b: "bits_of_double v = fields x f"
      using bits_of_double_fields [of m e] c False by (simp add: d x_def f_def)
    have xf: "x < 2047" "f < 2 ^ 52" using c by (auto simp: d x_def f_def)
    then have u: "unat (fields x f) = x * 2 ^ 52 + f" by (intro unat_fields) simp_all
    have "unat (fields x f AND 0xFFFFFFFFFFFFF) = f" unfolding double_fields u using xf by simp
    then have "of_nat (unat (fields x f AND 0xFFFFFFFFFFFFF)) = (of_nat f :: u64)" by (rule arg_cong)
    then have "fields x f AND 0xFFFFFFFFFFFFF = of_nat f" by simp
    moreover have "unat (drop_bit 52 (fields x f) AND 0x7FF) = x" unfolding double_fields u using xf by simp
    moreover have "val v = (if x = 0 then real f * 2 powi - 1074 else (real f + 2 ^ 52) * 2 powi (int x - 1075))"
    proof (cases "m < 2 ^ 52")
      case True
      then show ?thesis using c False by (simp add: d x_def f_def)
    next
      case ge: False
      have "- 1074 \<le> e" using c by (simp add: d)
      then have "int x - 1075 = e" "x \<noteq> 0" using ge by (simp_all add: x_def)
      moreover have "real f + 2 ^ 52 = real m" using ge by (simp add: f_def)
      ultimately show ?thesis using False by (simp add: d)
    qed
    ultimately show thesis using xf by (intro that [of x f]) (simp_all add: b)
  qed
  have "(push_bit 52 1 - 1 :: u64) = 0xFFFFFFFFFFFFF" by simp
  then have "mantissa2 v = double_of_bits (fields 1023 f)"
    unfolding mantissa2_def xf(4) [symmetric] using fields_or [OF xf(2)] xf(4) by simp
  then have "mantissa2 v = Finite False (f + 2 ^ 52) (- 52)" using double_of_fields [of 1023 f] xf(2) by simp
  then show thesis using that [of x f] xf by (simp add: exponent2_def)
qed

lemma exponent_mantissa:
  assumes "canonical v" and "0 \<le> val v"
  shows "- 1023 \<le> exponent2 v" "exponent2 v \<le> 1023" "val v < 2 powi (exponent2 v + 1)" "in_range (mantissa2 v) 1 2"
proof -
  obtain x f where xf: "x < 2047" "f < 2 ^ 52" "exponent2 v = int x - 1023" "mantissa2 v = Finite False (f + 2 ^ 52) (- 52)"
    "val v = (if x = 0 then real f * 2 powi - 1074 else (real f + 2 ^ 52) * 2 powi (int x - 1075))"
    by (rule exponent_fields [OF assms])
  have f: "real f < 2 ^ 52" using xf(2) by simp
  show "- 1023 \<le> exponent2 v" "exponent2 v \<le> 1023" using xf(1,3) by simp_all
  show "in_range (mantissa2 v) 1 2" using f by (simp add: xf(4) in_range_def powi_minus_nat)
  show "val v < 2 powi (exponent2 v + 1)"
  proof (cases "x = 0")
    case True
    have "real f * 2 powi - 1074 < 2 ^ 52 * 2 powi - 1074" using f by (rule mult_strict_right_mono) simp
    also have "\<dots> = 2 powi - 1022" using powi_add [of 52 "- 1074"] by simp
    finally show ?thesis using True by (simp only: xf(3,5)) simp
  next
    case False
    have "(real f + 2 ^ 52) * 2 powi (int x - 1075) < 2 ^ 53 * 2 powi (int x - 1075)" using f by (intro mult_strict_right_mono) simp_all
    also have "\<dots> = 2 powi (53 + (int x - 1075))" by (simp only: powi_add) simp
    also have "\<dots> = 2 powi (exponent2 v + 1)" by (rule arg_cong [where f = "(powi) 2"]) (simp add: xf(3))
    finally show ?thesis using False by (simp only: xf(5) if_False)
  qed
qed

text \<open>The approximation: within 1.2 of the binary exponent over the logarithm of ten.\<close>

lemma etoa_exponent_bounds:
  assumes "canonical v" and "0 \<le> val v"
  defines "E \<equiv> real_of_int (exponent2 v)" and "n \<equiv> etoa_exponent v"
  shows "E * (301029995663981 / 1000000000000000) - (97 / 100) < of_int n" and "- 307 \<le> n" and "n \<le> 308"
    and "of_int n < E * (301029995663981 / 1000000000000000) + (133 / 100)"
    and "0 \<le> n \<or> E * (301029995663981 / 1000000000000000) < of_int n"
proof -
  note e = exponent_mantissa [OF assms(1,2)]
  have E: "- 1023 \<le> E" "E \<le> 1023" using e(1,2) by (simp_all add: E_def)
  have L: "in_range (literal 1760912590558 13) ((1760912590558 / 10000000000000) - eps) ((1760912590558 / 10000000000000) + eps)"
    "in_range (literal 301029995663981 15) ((301029995663981 / 1000000000000000) - eps) ((301029995663981 / 1000000000000000) + eps)"
    "in_range (literal 15 1) ((15 / 10) - eps) ((15 / 10) + eps)"
    "in_range (literal 289529654602168 15) ((289529654602168 / 1000000000000000) - eps) ((289529654602168 / 1000000000000000) + eps)"
    by (rule in_range_literal; simp)+
  have a: "in_range (fmul (of_integer (exponent2 v)) (literal 301029995663981 15))
      (E * (301029995663981 / 1000000000000000) - 1100 * eps) (E * (301029995663981 / 1000000000000000) + 1100 * eps)"
    unfolding E_def by (rule in_range_int_mul [OF _ L(2)]) (use e(1,2) in simp_all)
  have b: "in_range (fadd (literal 1760912590558 13) (fmul (of_integer (exponent2 v)) (literal 301029995663981 15)))
      (E * (301029995663981 / 1000000000000000) + (17609 / 100000)) (E * (301029995663981 / 1000000000000000) + (17610 / 100000))"
    by (rule in_range_add [OF L(1) a]) (use E in linarith)+
  have c: "in_range (fsub (mantissa2 v) (literal 15 1)) (- (501 / 1000)) (501 / 1000)"
    by (rule in_range_sub [OF e(4) L(3)]) simp_all
  have d: "in_range (literal 289529654602168 15) (- (2896 / 10000)) (2896 / 10000)"
    by (rule in_range_mono [OF L(4)]) simp_all
  have f: "in_range (fmul (fsub (mantissa2 v) (literal 15 1)) (literal 289529654602168 15)) (- (1452 / 10000)) (1452 / 10000)"
    by (rule in_range_mul_abs [OF c d]) simp_all
  define D where "D = fadd (fadd (literal 1760912590558 13) (fmul (of_integer (exponent2 v)) (literal 301029995663981 15)))
      (fmul (fsub (mantissa2 v) (literal 15 1)) (literal 289529654602168 15))"
  have g: "in_range D (E * (301029995663981 / 1000000000000000) + (3 / 100)) (E * (301029995663981 / 1000000000000000) + (322 / 1000))"
    unfolding D_def by (rule in_range_add [OF b f]) (use E in linarith)+
  have n: "n = truncate D"
    by (simp only: n_def etoa_exponent_def Let_def D_def exponent2_def mantissa2_def)
  have D: "is_finite D" "E * (301029995663981 / 1000000000000000) + (3 / 100) \<le> val D" "val D \<le> E * (301029995663981 / 1000000000000000) + (322 / 1000)"
    using g by (simp_all add: in_range_def)
  note t = truncate_bounds [OF D(1), folded n]
  show "E * (301029995663981 / 1000000000000000) - (97 / 100) < of_int n" using t(3) D(2) by linarith
  show "of_int n < E * (301029995663981 / 1000000000000000) + (133 / 100)" using t(4) D(3) by linarith
  show "0 \<le> n \<or> E * (301029995663981 / 1000000000000000) < of_int n"
  proof (cases "0 \<le> val D")
    case True
    then have "- 1 < real_of_int n" using t(3) by linarith
    then show ?thesis by simp
  next
    case False
    then have "val D \<le> of_int n" using t(2) by linarith
    then show ?thesis using D(2) by linarith
  qed
  have "- 308 < real_of_int n"
  proof (cases "0 \<le> val D")
    case True
    then show ?thesis using t(3) by linarith
  next
    case False
    then have "val D \<le> of_int n" using t(2) by linarith
    then show ?thesis using D(2) E(1) by linarith
  qed
  then show "- 307 \<le> n" by linarith
  have "real_of_int n < 309"
  proof (cases "0 \<le> val D")
    case True
    then show ?thesis using t(1) D(3) E(2) by linarith
  next
    case False
    then show ?thesis using t(4) by linarith
  qed
  then show "n \<le> 308" by linarith
qed

section \<open>The power of ten\<close>

text \<open>The factor \<^verbatim>\<open>1 + 2z / (2 - z + ...)\<close> of the continued fraction, for the arguments that occur.\<close>

definition etoa_factor :: "double \<Rightarrow> double" where
  "etoa_factor z =
     (let z2 = fmul z z;
          d = fadd (fsub (of_integer 2) z)
                (fdiv z2 (fadd (of_integer 6) (fdiv z2 (fadd (of_integer 10) (fdiv z2 (of_integer 14))))))
      in fadd (of_integer 1) (fdiv (fmul (of_integer 2) z) d))"

lemma etoa_factor_bounds:
  assumes z: "in_range z (- (11 / 10)) (4 / 10)"
  shows "in_range (etoa_factor z) (2 / 10) (16 / 10)"
proof -
  define x where "x = val z"
  define z2 where "z2 = fmul z z"
  define d where "d = fadd (fsub (of_integer 2) z)
    (fdiv z2 (fadd (of_integer 6) (fdiv z2 (fadd (of_integer 10) (fdiv z2 (of_integer 14))))))"
  have x: "- (11 / 10) \<le> x" "x \<le> (4 / 10)" "is_finite z" using z by (simp_all add: in_range_def x_def)
  have i: "in_range (of_integer 14) 14 14" "in_range (of_integer 10) 10 10" "in_range (of_integer 6) 6 6"
    "in_range (of_integer 2) 2 2" "in_range (of_integer 1) 1 1"
    using in_range_of_integer [of 14] in_range_of_integer [of 10] in_range_of_integer [of 6]
      in_range_of_integer [of 2] in_range_of_integer [of 1] by simp_all
  have xz: "in_range z x x" using x(3) by (simp add: in_range_def x_def)
  have "0 \<le> (11 / 10 - x) * (11 / 10 + x)" using x by (intro mult_nonneg_nonneg) simp_all
  then have xx: "0 \<le> x * x" "x * x \<le> 121 / 100" by (simp_all add: algebra_simps)
  have a2: "in_range z2 0 (13 / 10)"
  proof -
    define y where "y = x * x"
    have y: "0 \<le> y" "y \<le> 121 / 100" "\<bar>y\<bar> \<le> 4096" using xx by (simp_all add: y_def)
    have "rounds (val z * val z) (fmul z z)"
      by (rule fmul_rounds [OF x(3) x(3)]) (rule below_bound [OF y(3) [unfolded y_def x_def]])
    then have r: "rounds y z2" by (simp only: z2_def x_def y_def)
    have "in_range z2 (- 1) (13 / 10)" using y by (intro rounds_in_range [OF r]) simp_all
    then show ?thesis using rounds_nonneg [OF r y(1)] by (simp add: in_range_def)
  qed
  have b1: "in_range (fdiv z2 (of_integer 14)) 0 (1 / 10)" by (rule in_range_div [OF a2 i(1)]) simp_all
  have b2: "in_range (fadd (of_integer 10) (fdiv z2 (of_integer 14))) 9 11" by (rule in_range_add [OF i(2) b1]) simp_all
  have b3: "in_range (fdiv z2 (fadd (of_integer 10) (fdiv z2 (of_integer 14)))) 0 (2 / 10)" by (rule in_range_div [OF a2 b2]) simp_all
  have b4: "in_range (fadd (of_integer 6) (fdiv z2 (fadd (of_integer 10) (fdiv z2 (of_integer 14))))) 5 7"
    by (rule in_range_add [OF i(3) b3]) simp_all
  have b5: "in_range (fdiv z2 (fadd (of_integer 6) (fdiv z2 (fadd (of_integer 10) (fdiv z2 (of_integer 14)))))) 0 (3 / 10)"
    by (rule in_range_div [OF a2 b4]) simp_all
  have b6: "in_range (fsub (of_integer 2) z) (2 - x - eps) (2 - x + eps)"
    by (rule in_range_sub [OF i(4) xz]) (use x in linarith)+
  have b7: "in_range d ((1999 / 1000) - x) ((24 / 10) - x)"
    unfolding d_def by (rule in_range_add [OF b6 b5]) (use x in linarith)+
  have b8: "in_range (fmul (of_integer 2) z) (2 * x - (1 / 1000)) (2 * x + (1 / 1000))"
  proof -
    have "rounds (2 * x) (fmul (of_integer 2) z)"
      using fmul_rounds [of "of_integer 2" z] of_integer_exact [of 2] x below_bound [of "2 * x"] by (simp add: x_def abs_le_iff)
    then show ?thesis by (rule rounds_in_range) (use x in \<open>simp_all add: abs_le_iff\<close>)
  qed
  have q: "in_range (fdiv (fmul (of_integer 2) z) d) (- (79 / 100)) (55 / 100)"
  proof -
    define a where "a = val (fmul (of_integer 2) z)"
    define b where "b = val d"
    have fin: "is_finite (fmul (of_integer 2) z)" "is_finite d" using b7 b8 by (simp_all add: in_range_def)
    have a: "2 * x - (1 / 1000) \<le> a" "a \<le> 2 * x + (1 / 1000)" "(1999 / 1000) - x \<le> b" using b7 b8 by (simp_all add: in_range_def a_def b_def)
    then have b0: "0 < b" using x by linarith
    have "- (78 / 100) * b \<le> a" using a x by linarith
    then have lo: "- (78 / 100) \<le> a / b" using b0 by (simp only: pos_le_divide_eq)
    have "a \<le> (54 / 100) * b" using a x by linarith
    then have hi: "a / b \<le> (54 / 100)" using b0 by (simp only: pos_divide_le_eq)
    have le: "\<bar>a / b\<bar> \<le> 4096" unfolding abs_le_iff using lo hi by linarith
    have r: "rounds (a / b) (fdiv (fmul (of_integer 2) z) d)"
      unfolding a_def b_def
      by (rule fdiv_rounds [OF fin])
        (use b0 in \<open>simp add: b_def\<close>, rule below_bound [OF le [unfolded a_def b_def]])
    show ?thesis by (rule rounds_in_range [OF r le]) (use lo hi in linarith)+
  qed
  have "in_range (fadd (of_integer 1) (fdiv (fmul (of_integer 2) z) d)) (2 / 10) (16 / 10)"
    by (rule in_range_add [OF i(5) q]) simp_all
  then show ?thesis by (simp only: etoa_factor_def Let_def d_def z2_def)
qed

text \<open>The binary exponent of the power and the argument of the fraction.\<close>

definition power2 :: "int \<Rightarrow> int" where
  "power2 n = truncate (fadd (fmul (of_integer n) (literal 3321928094887362 15)) (literal 5 1))"

lemma power2_bounds:
  assumes n: "- 307 \<le> n" "n \<le> 308"
  shows "real_of_int n * (3321928094887362 / 1000000000000000) - (51 / 100) < of_int (power2 n)" and "real_of_int (power2 n) < of_int n * (3321928094887362 / 1000000000000000) + (151 / 100)"
    and "- 1022 \<le> power2 n" and "power2 n \<le> 1023"
proof -
  define r where "r = real_of_int n"
  have r: "- 307 \<le> r" "r \<le> 308" using n by (simp_all add: r_def)
  have L: "in_range (literal 3321928094887362 15) ((3321928094887362 / 1000000000000000) - eps) ((3321928094887362 / 1000000000000000) + eps)"
    by (rule in_range_literal; simp)
  define D where "D = fadd (fmul (of_integer n) (literal 3321928094887362 15)) (literal 5 1)"
  have h: "in_range (literal 5 1) (1 / 2) (1 / 2)" using half_value by (simp add: in_range_def)
  have m: "in_range (fmul (of_integer n) (literal 3321928094887362 15))
      (r * (3321928094887362 / 1000000000000000) - 1100 * eps) (r * (3321928094887362 / 1000000000000000) + 1100 * eps)"
    unfolding r_def by (rule in_range_int_mul [OF _ L]) (use n in simp_all)
  have "in_range D (r * (3321928094887362 / 1000000000000000) + (499 / 1000)) (r * (3321928094887362 / 1000000000000000) + (501 / 1000))"
    unfolding D_def by (rule in_range_add [OF m h]) (use r in linarith)+
  then have D: "is_finite D" "r * (3321928094887362 / 1000000000000000) + (499 / 1000) \<le> val D" "val D \<le> r * (3321928094887362 / 1000000000000000) + (501 / 1000)"
    by (simp_all add: in_range_def)
  note t = truncate_bounds [OF D(1)]
  have p: "power2 n = truncate D" by (simp only: power2_def D_def)
  show "real_of_int n * (3321928094887362 / 1000000000000000) - (51 / 100) < of_int (power2 n)" "real_of_int (power2 n) < of_int n * (3321928094887362 / 1000000000000000) + (151 / 100)"
    unfolding p r_def [symmetric] using t(3,4) D(2,3) by linarith+
  have "- 1023 < real_of_int (truncate D)" using t(3) D(2) r by linarith
  then show "- 1022 \<le> power2 n" unfolding p by linarith
  have "real_of_int (truncate D) < 1024"
  proof (cases "0 \<le> val D")
    case True
    then show ?thesis using t(1) D(3) r by linarith
  next
    case False
    then show ?thesis using t(4) by linarith
  qed
  then show "power2 n \<le> 1023" unfolding p by linarith
qed

lemma power_field: "- 1022 \<le> k \<Longrightarrow> k \<le> 1023 \<Longrightarrow> double_of_bits (push_bit 52 (of_int (k + 1023))) = Finite False (2 ^ 52) (k - 52)"
proof -
  assume k: "- 1022 \<le> k" "k \<le> 1023"
  define x where "x = nat (k + 1023)"
  have x: "k + 1023 = int x" "x < 2047" "x \<noteq> 0" using k by (simp_all add: x_def)
  have "push_bit 52 (of_int (k + 1023)) = fields x 0" unfolding x(1) by (simp add: fields_def push_bit_eq_mult)
  moreover have "int x - 1075 = k - 52" using x(1) by simp
  ultimately show ?thesis using double_of_fields [of x 0] x(2,3) by simp
qed

definition etoa_arg :: "int \<Rightarrow> double" where
  "etoa_arg n = fsub (fmul (of_integer n) (literal 2302585092994046 15)) (fmul (of_integer (power2 n)) (literal 6931471805599453 16))"

lemma etoa_power_eq:
  assumes "- 307 \<le> n" and "n \<le> 308"
  shows "etoa_power n = fmul (Finite False (2 ^ 52) (power2 n - 52)) (etoa_factor (etoa_arg n))"
  using power_field [OF power2_bounds(3,4) [OF assms]] by (simp only: etoa_power_def etoa_factor_def Let_def power2_def etoa_arg_def)

lemma etoa_argument:
  assumes "- 307 \<le> n" and "n \<le> 308"
  defines "x \<equiv> of_int n * (2302585092994046 / 1000000000000000) - of_int (power2 n) * (6931471805599453 / 10000000000000000)"
  shows "in_range (etoa_arg n) (x - 2300 * eps) (x + 2300 * eps)" and "in_range (etoa_arg n) (- (105 / 100)) (4 / 10)"
proof -
  define r where "r = real_of_int n"
  define k where "k = real_of_int (power2 n)"
  note p = power2_bounds [OF assms(1,2), folded r_def k_def]
  have r: "- 307 \<le> r" "r \<le> 308" using assms(1,2) by (simp_all add: r_def)
  have L: "in_range (literal 2302585092994046 15) ((2302585092994046 / 1000000000000000) - eps) ((2302585092994046 / 1000000000000000) + eps)"
    "in_range (literal 6931471805599453 16) ((6931471805599453 / 10000000000000000) - eps) ((6931471805599453 / 10000000000000000) + eps)"
    by (rule in_range_literal; simp)+
  have a: "in_range (fmul (of_integer n) (literal 2302585092994046 15))
      (r * (2302585092994046 / 1000000000000000) - 1100 * eps) (r * (2302585092994046 / 1000000000000000) + 1100 * eps)"
    unfolding r_def by (rule in_range_int_mul [OF _ L(1)]) (use assms(1,2) in simp_all)
  have b: "in_range (fmul (of_integer (power2 n)) (literal 6931471805599453 16))
      (k * (6931471805599453 / 10000000000000000) - 1100 * eps) (k * (6931471805599453 / 10000000000000000) + 1100 * eps)"
    unfolding k_def by (rule in_range_int_mul [OF _ L(2)]) (use p(3,4) in simp_all)
  show "in_range (etoa_arg n) (x - 2300 * eps) (x + 2300 * eps)"
    unfolding etoa_arg_def x_def r_def [symmetric] k_def [symmetric] by (rule in_range_sub [OF a b]) (use p(1,2) r in linarith)+
  show "in_range (etoa_arg n) (- (105 / 100)) (4 / 10)"
    unfolding etoa_arg_def by (rule in_range_sub [OF a b]) (use p(1,2) r in linarith)+
qed

text \<open>A power of two times a factor up to two, rounded.\<close>

lemma rounded_power2_error:
  assumes r: "rounds (2 powi k * f) d" and k: "- 1022 \<le> k" and f: "0 \<le> f" "f \<le> 2"
  shows "\<bar>val d - 2 powi k * f\<bar> \<le> 2 powi k / 2 ^ 52"
proof -
  define P where "P = (2 :: real) powi k"
  have P: "0 < P" by (simp add: P_def)
  have "(2 :: real) powi - 1075 \<le> 2 powi (- 53 + k)" using k by (intro powi_mono) simp
  then have "(2 :: real) powi - 1075 \<le> P * 2 powi - 53" by (simp only: powi_add P_def mult.commute)
  then have e1: "(2 :: real) powi - 1075 \<le> P / 2 ^ 52" using P by (simp add: powi_minus_nat)
  have "P * f \<le> P * 2" using P f by (intro mult_left_mono) simp_all
  then have "\<bar>P * f\<bar> * 2 powi - 53 \<le> P * 2 * 2 powi - 53" using P f by (intro mult_right_mono) simp_all
  then have "\<bar>P * f\<bar> * 2 powi - 53 \<le> P / 2 ^ 52" by (simp add: powi_minus_nat)
  then show ?thesis using roundsD(3) [OF r, folded P_def] e1 unfolding P_def [symmetric] by linarith
qed

lemma rounded_power2:
  assumes r: "rounds (2 powi k * f) d" and k: "- 1022 \<le> k" and f: "l + 1 / 2 ^ 51 \<le> f" "f \<le> 2"
    and l: "0 \<le> l"
  shows "2 powi k * l \<le> val d" and "val d \<le> 2 powi k * 3"
proof -
  define P where "P = (2 :: real) powi k"
  have P: "0 < P" by (simp add: P_def)
  have "0 \<le> f" using f l by (smt (verit) divide_nonneg_nonneg zero_le_power)
  note e = rounded_power2_error [OF r k this f(2), folded P_def]
  have up: "P * f \<le> P * 2" using P f by (intro mult_left_mono) simp_all
  have "P * (l + 1 / 2 ^ 51) \<le> P * f" using P f by (intro mult_left_mono) simp_all
  then have lo: "P * l + P / 2 ^ 51 \<le> P * f" by (simp add: distrib_left)
  have P52: "P / 2 ^ 52 \<le> P / 2 ^ 51" "P / 2 ^ 52 \<le> P" using P by simp_all
  show "2 powi k * l \<le> val d" using e lo P52 unfolding P_def [symmetric] abs_le_iff by linarith
  show "val d \<le> 2 powi k * 3" using e up P52 unfolding P_def [symmetric] abs_le_iff by linarith
qed

lemma etoa_power_rounds:
  assumes "- 307 \<le> n" and "n \<le> 308"
  defines "g \<equiv> etoa_factor (etoa_arg n)"
  shows "rounds (2 powi power2 n * val g) (etoa_power n)" and "2 / 10 \<le> val g" and "val g \<le> 16 / 10"
proof -
  define F where "F = Finite False (2 ^ 52) (power2 n - 52)"
  define P where "P = (2 :: real) powi power2 n"
  note k = power2_bounds(3,4) [OF assms(1,2)]
  have "in_range (etoa_arg n) (- (11 / 10)) (4 / 10)" by (rule in_range_mono [OF etoa_argument(2) [OF assms(1,2)]]) simp_all
  then have g: "2 / 10 \<le> val g" "val g \<le> 16 / 10" "is_finite g"
    using etoa_factor_bounds by (simp_all add: in_range_def g_def)
  then show "2 / 10 \<le> val g" "val g \<le> 16 / 10" by simp_all
  have "val F = 2 ^ 52 * 2 powi (power2 n - 52)" by (simp add: F_def)
  also have "\<dots> = 2 powi (52 + (power2 n - 52))" by (simp only: powi_add) simp
  finally have F: "val F = P" by (simp add: P_def)
  have P: "0 < P" "P \<le> 2 powi 1023" using k(2) powi_mono [of "power2 n" 1023] by (simp_all add: P_def)
  have "\<bar>P * val g\<bar> = P * val g" using P g by simp
  also have "P * val g \<le> 2 powi 1023 * (16 / 10)" using P g by (intro mult_mono) simp_all
  also have "\<dots> < dbl_bound" using powi_add [of 3 1020] by (simp add: dbl_bound_def)
  finally have "rounds (val F * val g) (fmul F g)" using g F by (intro fmul_rounds) (simp_all add: F_def)
  then show "rounds (2 powi power2 n * val g) (etoa_power n)"
    by (simp only: F etoa_power_eq [OF assms(1,2)] F_def [symmetric] g_def [symmetric]) (simp only: P_def)
qed

lemma etoa_power_bounds:
  assumes "- 307 \<le> n" and "n \<le> 308"
  shows "canonical (etoa_power n)" and "2 powi power2 n * (1 / 8) \<le> val (etoa_power n)"
    and "val (etoa_power n) \<le> 2 powi power2 n * 3"
proof -
  note r = etoa_power_rounds [OF assms] and k = power2_bounds(3) [OF assms]
  show "canonical (etoa_power n)" by (rule roundsD(1) [OF r(1)])
  show "2 powi power2 n * (1 / 8) \<le> val (etoa_power n)" "val (etoa_power n) \<le> 2 powi power2 n * 3"
    by (rule rounded_power2 [OF r(1) k, of "1 / 8"]; use r(2,3) in simp)+
qed

section \<open>The scaled value\<close>

lemma canonical_max: "canonical d \<Longrightarrow> \<bar>val d\<bar> \<le> 2 powi 1024"
proof -
  assume c: "canonical d"
  then obtain s m e where d: "d = Finite s m e" by (cases d) auto
  have "real m * 2 powi e \<le> 2 ^ 53 * 2 powi 971"
  proof (rule mult_mono)
    have "real m < real (2 ^ 53)" unfolding of_nat_less_iff using c by (simp add: d)
    then show "real m \<le> 2 ^ 53" by simp
    show "(2 :: real) powi e \<le> 2 powi 971" using c by (intro powi_mono) (simp add: d)
  qed simp_all
  also have "\<dots> = 2 powi 1024" using powi_add [of 53 971] by simp
  finally show ?thesis by (simp add: d abs_mult)
qed

lemma etoa_tenth:
  assumes "- 307 \<le> n" and "n \<le> 308"
  obtains f where "rounds (2 powi power2 n * f) (fdiv (etoa_power n) (of_integer 10))"
    and "1 / 80 \<le> f" and "f \<le> 3 / 10" and "2 powi power2 n * f = val (etoa_power n) / 10"
proof -
  define f where "f = val (etoa_power n) / 2 powi power2 n / 10"
  note b = etoa_power_bounds [OF assms]
  have f: "1 / 80 \<le> f" "f \<le> 3 / 10" "2 powi power2 n * f = val (etoa_power n) / 10"
    using b(2,3) powi_pos [of "power2 n"] by (simp_all add: f_def field_simps)
  have ten: "is_finite (of_integer 10)" "val (of_integer 10) = 10" using of_integer_exact [of 10] by simp_all
  have "\<bar>val (etoa_power n) / 10\<bar> \<le> 2 powi 1024 / 10" using canonical_max [OF b(1)] by simp
  also have "\<dots> < dbl_bound" using powi_add [of 4 1020] by (simp add: dbl_bound_def)
  finally have "rounds (val (etoa_power n) / val (of_integer 10)) (fdiv (etoa_power n) (of_integer 10))"
    using ten b(1) by (intro fdiv_rounds) simp_all
  then have "rounds (2 powi power2 n * f) (fdiv (etoa_power n) (of_integer 10))" by (simp only: ten f(3))
  then show thesis by (rule that [OF _ f])
qed

lemma etoa_scale_bounds:
  assumes c: "canonical v" and v: "0 \<le> val v" and r: "etoa_scale v = (expval, F)"
  shows "canonical F" and "val v / val F \<le> 1600" and "0 < val F"
    and "expval = etoa_exponent v \<or> expval = etoa_exponent v - 1"
proof -
  define n where "n = etoa_exponent v"
  define k where "k = power2 n"
  define P where "P = (2 :: real) powi k"
  note e = etoa_exponent_bounds [OF c v, folded n_def]
  note p = power2_bounds [OF e(2,3), folded k_def]
  note b = etoa_power_bounds [OF e(2,3), folded k_def, folded P_def]
  have P: "0 < P" by (simp add: P_def)
  have F: "canonical F \<and> P * (1 / 100) \<le> val F \<and> (expval = n \<or> expval = n - 1)"
  proof (cases "flt v (etoa_power n)")
    case False
    then show ?thesis using r b P by (auto simp: etoa_scale_def Let_def n_def)
  next
    case True
    obtain f where t: "rounds (2 powi k * f) (fdiv (etoa_power n) (of_integer 10))" "1 / 80 \<le> f" "f \<le> 3 / 10"
      unfolding k_def by (rule etoa_tenth [OF e(2,3)])
    have "P * (1 / 100) \<le> val (fdiv (etoa_power n) (of_integer 10))"
      unfolding P_def by (rule rounded_power2 [OF t(1) p(3)]) (use t(2,3) in simp_all)
    moreover have "F = fdiv (etoa_power n) (of_integer 10)" "expval = n - 1"
      using r True by (auto simp: etoa_scale_def Let_def n_def)
    ultimately show ?thesis using roundsD(1) [OF t(1)] by simp
  qed
  show "canonical F" "0 < val F" "expval = etoa_exponent v \<or> expval = etoa_exponent v - 1"
    using F P by (auto simp: n_def)
  have "real_of_int (exponent2 v) - 4 < k" using p(1) e(1) exponent_mantissa(1,2) [OF c v] by linarith
  then have "exponent2 v + 1 \<le> 4 + k" by linarith
  then have "(2 :: real) powi (exponent2 v + 1) \<le> 2 powi (4 + k)" by (rule powi_mono)
  then have "val v \<le> 16 * P" using exponent_mantissa(3) [OF c v] by (simp add: powi_add P_def)
  then have "val v \<le> 1600 * val F" using F by linarith
  then show "val v / val F \<le> 1600" using \<open>0 < val F\<close> by (simp add: pos_divide_le_eq)
qed

lemma etoa_exponent_small:
  assumes "canonical v" and "0 \<le> val v"
  shows "etoa_exponent v \<le> 1 \<Longrightarrow> val v \<le> 1000000000"
    and "1 / 10001 \<le> val v \<Longrightarrow> - 4 \<le> etoa_exponent v"
proof -
  note e = etoa_exponent_bounds [OF assms]
  note m = exponent_mantissa [OF assms]
  show "val v \<le> 1000000000" if "etoa_exponent v \<le> 1"
  proof -
    have "real_of_int (exponent2 v) < 7" using e(1) that by linarith
    then have "exponent2 v + 1 \<le> 7" by linarith
    then have "(2 :: real) powi (exponent2 v + 1) \<le> 2 powi 7" by (rule powi_mono)
    then show ?thesis using m(3) by simp
  qed
  show "- 4 \<le> etoa_exponent v" if v: "1 / 10001 \<le> val v"
  proof -
    have "\<not> exponent2 v + 1 \<le> - 14"
    proof
      assume "exponent2 v + 1 \<le> - 14"
      then have "(2 :: real) powi (exponent2 v + 1) \<le> 2 powi - 14" by (rule powi_mono)
      then show False using m(3) v by (simp add: powi_minus_nat)
    qed
    then have "- 14 \<le> real_of_int (exponent2 v)" by linarith
    then show ?thesis using e(5) by linarith
  qed
qed

section \<open>Every conversion returns\<close>

lemma ftoa_prec_bound: "\<not> has flags FLAGS_PRECISION \<or> prec \<le> 41 \<Longrightarrow> unat (ftoa_prec prec flags) \<le> 41"
  by (auto simp: ftoa_prec_def PRINTF_DEFAULT_FLOAT_PRECISION_def word_le_nat_alt)

lemma ftoa_special:
  assumes "value = NaN \<or> flt value (fneg DBL_MAX) \<or> flt DBL_MAX value"
  shows "\<exists>r. ftoa (Suc n) out buffer idx maxlen value prec width flags s = Some r"
  using assms by (auto simp: ftoa.simps)

lemma ftoa_small_returns:
  assumes "canonical value" and "\<bar>val value\<bar> \<le> 1000000000" and "\<not> has flags FLAGS_PRECISION \<or> prec \<le> 41"
  shows "\<exists>r. ftoa (Suc n) out buffer idx maxlen value prec width flags s = Some r"
  using ftoa_fixed_returns [of "value" prec width flags] ftoa_prec_bound [OF assms(3)]
  by (fastforce simp: ftoa_small [OF assms(1,2)])

text \<open>The mode \<^verbatim>\<open>%g\<close>: a precision that stays within the table, and no exponent for small values.\<close>

lemma etoa_adapt_cases:
  assumes "etoa_adapt v prec flags expval0 = (prec2, flags2, minwidth, expval)"
  shows "fle (literal 1 4) v \<and> flt v (literal 1000000 0) \<and> expval = 0 \<and> prec2 = (if expval0 < sint prec then prec - of_int expval0 - 1 else 0) \<or>
    expval = expval0 \<and> (prec2 = prec \<or> 0 < prec \<and> prec2 = prec - 1)"
proof (cases "has flags FLAGS_ADAPT_EXP")
  case True
  then show ?thesis
    using assms by (cases "fle (literal 1 4) v \<and> flt v (literal 1000000 0)") (simp_all add: etoa_adapt_def Let_def split: if_splits)
qed (use assms in \<open>simp add: etoa_adapt_def Let_def\<close>)

lemma literal_values:
  "is_finite (literal 1 4)" "1 / 10001 \<le> val (literal 1 4)" "is_finite (literal 1000000 0)" "val (literal 1000000 0) = 1000000"
proof -
  have "rounds (1 / 10000) (literal 1 4)" using literal_rounds [of 1 4] below_bound [of "1 / 10000"] by simp
  then have "in_range (literal 1 4) (1 / 10001) 1" by (rule rounds_in_range) simp_all
  then show "is_finite (literal 1 4)" "1 / 10001 \<le> val (literal 1 4)" by (simp_all add: in_range_def)
  have "rounds 1000000 (literal 1000000 0)" using literal_rounds [of 1000000 0] dbl_bound_large by simp
  moreover have "representable 1000000" unfolding representable_def by (rule exI [of _ 1000000], rule exI [of _ 0]) simp
  ultimately show "is_finite (literal 1000000 0)" "val (literal 1000000 0) = 1000000" using roundsD by blast+
qed

lemma adapted_precision:
  fixes prec :: u32
  assumes "prec \<le> 37" and "- 5 \<le> e"
  shows "(if e < sint prec then prec - of_int e - 1 else 0) \<le> 41"
proof (cases "e < sint prec")
  case True
  have u: "unat prec \<le> 37" using assms(1) by (simp add: word_le_nat_alt)
  then have "sint prec = int (unat prec)" using sint_small [of "unat prec"] by simp
  then have i: "0 \<le> int (unat prec) - e - 1" "int (unat prec) - e - 1 \<le> 41" using True assms(2) u by linarith+
  define k where "k = nat (int (unat prec) - e - 1)"
  have "prec - of_int e - 1 = of_int (int (unat prec) - e - 1)" by simp
  also have "int (unat prec) - e - 1 = int k" using i by (simp add: k_def)
  finally have "prec - of_int e - 1 = of_nat k" by simp
  moreover have "unat (of_nat k :: u32) \<le> 41" using i by (simp add: k_def unat_of_nat del: of_nat_nat)
  ultimately have "prec - of_int e - 1 \<le> 41" by (simp only: word_le_nat_alt) simp
  then show ?thesis using True by simp
qed simp

lemma etoa_adapt_bounds:
  assumes c: "canonical v" "0 \<le> val v" and e: "expval0 = etoa_exponent v \<or> expval0 = etoa_exponent v - 1"
    and p: "prec \<le> 37" and r: "etoa_adapt v prec flags expval0 = (prec2, flags2, minwidth, expval)"
  shows "prec2 \<le> 41" and "expval = 0 \<Longrightarrow> val v \<le> 1000000000"
proof -
  consider "1 / 10001 \<le> val v" "val v < 1000000" "prec2 = (if expval0 < sint prec then prec - of_int expval0 - 1 else 0)"
    | "expval = expval0" "prec2 = prec \<or> 0 < prec \<and> prec2 = prec - 1"
    using etoa_adapt_cases [OF r] literal_values canonical_finite [OF c(1)] by (auto simp: fle_val flt_val)
  note cases = this
  show "prec2 \<le> 41" using cases
  proof cases
    case 1
    have "- 5 \<le> expval0" using etoa_exponent_small(2) [OF c 1(1)] e by linarith
    then show ?thesis unfolding 1(3) by (rule adapted_precision [OF p])
  next
    case 2
    have "unat prec \<le> 37" using p by (simp add: word_le_nat_alt)
    then show ?thesis using 2(2) by (auto simp: word_le_nat_alt unat_minus_one word_gt_0)
  qed
  assume z: "expval = 0"
  show "val v \<le> 1000000000" using cases
  proof cases
    case 2
    then have "etoa_exponent v \<le> 1" using e z by linarith
    then show ?thesis by (rule etoa_exponent_small(1) [OF c])
  qed simp
qed

lemma etoa_returns:
  assumes c: "canonical value" and p: "\<not> has flags FLAGS_PRECISION \<or> prec \<le> 37"
  shows "\<exists>r. etoa (Suc (Suc n)) out buffer idx maxlen value prec width flags s = Some r"
proof -
  define v where "v = (if flt value (of_integer 0) then fneg value else value)"
  have v: "canonical v" "0 \<le> val v" using c zero_value by (auto simp: v_def flt_val)
  define prec1 where "prec1 = (if has flags FLAGS_PRECISION then prec else PRINTF_DEFAULT_FLOAT_PRECISION)"
  obtain expval0 F where sc: "etoa_scale v = (expval0, F)" by (cases "etoa_scale v")
  obtain prec2 flags2 minwidth expval where ad: "etoa_adapt v prec1 flags expval0 = (prec2, flags2, minwidth, expval)"
    by (cases "etoa_adapt v prec1 flags expval0")
  note b = etoa_scale_bounds [OF v sc]
  have "prec1 \<le> 37" using p by (auto simp: prec1_def PRINTF_DEFAULT_FLOAT_PRECISION_def)
  note a = etoa_adapt_bounds [OF v b(4) this ad]
  define v2 where "v2 = (if expval \<noteq> 0 then fdiv v F else v)"
  have v2: "canonical v2 \<and> \<bar>val v2\<bar> \<le> 1000000000"
  proof (cases "expval = 0")
    case True
    then show ?thesis using a(2) v by (simp add: v2_def)
  next
    case False
    have q: "0 \<le> val v / val F" "\<bar>val v / val F\<bar> \<le> 4096" using v(2) b(2,3) by simp_all
    have r: "rounds (val v / val F) (fdiv v F)"
      using v b by (intro fdiv_rounds below_bound) (simp_all add: q)
    have "in_range (fdiv v F) (- 1) 1000000000" using q b(2) by (intro rounds_in_range [OF r]) simp_all
    then show ?thesis using roundsD(1) [OF r] False by (auto simp: v2_def in_range_def abs_le_iff)
  qed
  have "canonical (if flt value (of_integer 0) then fneg v2 else v2)" "\<bar>val (if flt value (of_integer 0) then fneg v2 else v2)\<bar> \<le> 1000000000"
    using v2 by simp_all
  note f = ftoa_small_returns [OF this disjI2 [OF a(1)], where flags = "flags2 AND NOT FLAGS_ADAPT_EXP" and n = n and out = out and buffer = buffer and idx = idx and maxlen = maxlen and s = s and width = "etoa_fwidth width minwidth flags2"]
  then obtain x where "ftoa (Suc n) out buffer idx maxlen (if flt value (of_integer 0) then fneg v2 else v2) prec2
      (etoa_fwidth width minwidth flags2) (flags2 AND NOT FLAGS_ADAPT_EXP) s = Some x" by blast
  moreover have "etoa (Suc (Suc n)) out buffer idx maxlen value prec width flags s =
      map_option (etoa_suffix out buffer idx maxlen width flags2 minwidth expval)
        (ftoa (Suc n) out buffer idx maxlen (if flt value (of_integer 0) then fneg v2 else v2) prec2
          (etoa_fwidth width minwidth flags2) (flags2 AND NOT FLAGS_ADAPT_EXP) s)"
    by (simp only: etoa.simps Let_def v_def [symmetric] prec1_def [symmetric] sc ad prod.case v2_def [symmetric]
      not_beyond_max [OF c] if_False simp_thms)
  ultimately show ?thesis by simp
qed

lemma ftoa_returns:
  assumes c: "canonical value" and p: "\<not> has flags FLAGS_PRECISION \<or> prec \<le> 37"
  shows "\<exists>r. ftoa (Suc (Suc (Suc n))) out buffer idx maxlen value prec width flags s = Some r"
proof (cases "\<bar>val value\<bar> \<le> 1000000000")
  case True
  have "prec \<le> 37 \<Longrightarrow> prec \<le> 41" by (simp add: word_le_nat_alt)
  then show ?thesis using p by (intro ftoa_small_returns [OF c True]) blast
next
  case False
  then have "flt PRINTF_MAX_FLOAT value \<or> flt value (fneg PRINTF_MAX_FLOAT)"
    using c large_values by (auto simp: flt_val)
  then show ?thesis
    using not_beyond_max [OF c] etoa_returns [OF c p, of n out buffer idx maxlen width s] by (simp add: ftoa.simps)
qed

text \<open>The value of a word is special or canonical.\<close>

lemma special_or_canonical:
  "double_of_bits u = NaN \<or> flt (double_of_bits u) (fneg DBL_MAX) \<or> flt DBL_MAX (double_of_bits u) \<or> canonical (double_of_bits u)"
  using canonical_of_bits [of u] by (auto simp: DBL_MAX_def)

section \<open>Properties\<close>

text \<open>C32: Every floating-point conversion returns. For each double and each of \<^verbatim>\<open>%f\<close>, \<^verbatim>\<open>%F\<close>, \<^verbatim>\<open>%e\<close>,
  \<^verbatim>\<open>%E\<close>, \<^verbatim>\<open>%g\<close> and \<^verbatim>\<open>%G\<close>, with the default precision or one up to 37, \<^verbatim>\<open>_ftoa\<close> and
  \<^verbatim>\<open>_etoa\<close> end after at most three nested calls and stay inside the table of powers of ten.\<close>

theorem float_returns:
  assumes "\<not> has flags FLAGS_PRECISION \<or> prec \<le> 37"
  shows "\<exists>r. conv_float out buffer maxlen c flags width prec (double_of_bits u) (idx, s) = Some r"
proof -
  define d where "d = double_of_bits u"
  have f: "\<exists>r. ftoa 3 out buffer idx maxlen d prec width f s = Some r"
    if p: "\<not> has f FLAGS_PRECISION \<or> prec \<le> 37" for f
    using special_or_canonical [of u, folded d_def] ftoa_returns [OF _ p, of d 0 out buffer idx maxlen width s]
      ftoa_special [of d 2 out buffer idx maxlen prec width f s]
    unfolding numeral_3_eq_3 numeral_2_eq_2 by blast
  have e: "\<exists>r. etoa 3 out buffer idx maxlen d prec width f s = Some r"
    if p: "\<not> has f FLAGS_PRECISION \<or> prec \<le> 37" for f
  proof (cases "canonical d")
    case True
    then show ?thesis using etoa_returns [OF _ p, of d "Suc 0" out buffer idx maxlen width s] by (simp add: numeral_3_eq_3)
  next
    case False
    then have special: "d = NaN \<or> flt d (fneg DBL_MAX) \<or> flt DBL_MAX d" using special_or_canonical [of u, folded d_def] by blast
    then have "etoa 3 out buffer idx maxlen d prec width f s = ftoa 2 out buffer idx maxlen d prec width f s"
      by (auto simp: numeral_3_eq_3 numeral_2_eq_2 etoa.simps)
    then show ?thesis using ftoa_special [OF special, of 1 out buffer idx maxlen prec width f s] by (simp add: numeral_2_eq_2)
  qed
  have "has (flags OR FLAGS_UPPERCASE) FLAGS_PRECISION = has flags FLAGS_PRECISION"
    "has (flags OR FLAGS_ADAPT_EXP) FLAGS_PRECISION = has flags FLAGS_PRECISION"
    "has (flags OR FLAGS_ADAPT_EXP OR FLAGS_UPPERCASE) FLAGS_PRECISION = has flags FLAGS_PRECISION"
    "has ((flags OR FLAGS_ADAPT_EXP) OR FLAGS_UPPERCASE) FLAGS_PRECISION = has flags FLAGS_PRECISION"
    by (simp_all add: has_def FLAGS_defs FLAGS_ADAPT_EXP_def word_ao_dist)
  then show ?thesis using assms f e by (simp add: conv_float_def Let_def d_def)
qed

text \<open>The greatest finite double as \<^verbatim>\<open>%e\<close> and as \<^verbatim>\<open>%f\<close>, which switches to the exponent form.\<close>

theorem float_returns_witness:
  "(\<exists>r. conv_float out_char 0 100 CHR ''e'' FLAGS_PRECISION 0 3 (double_of_bits 0x7FEFFFFFFFFFFFFF) (0, []) = Some r) \<and>
   (\<exists>r. conv_float out_char 0 100 CHR ''f'' FLAGS_LEFT 30 0 (double_of_bits 0xFFEFFFFFFFFFFFFF) (0, []) = Some r)"
proof (intro conjI float_returns)
  show "\<not> has FLAGS_PRECISION FLAGS_PRECISION \<or> (3 :: u32) \<le> 37" by simp
  show "\<not> has FLAGS_LEFT FLAGS_PRECISION \<or> (0 :: u32) \<le> 37" by simp
qed

end
