(* ===== verification/Logarithms.thy ===== *)
theory Logarithms
  imports Complex_Main
begin

text \<open>
  The continued fraction with which \<^verbatim>\<open>_etoa\<close> computes the exponential function is the quotient
  \<open>pade z\<close> of two polynomials. Its logarithm is \<open>z\<close> up to an error of the order of \<open>z^9\<close>, shown
  by comparing derivatives; from that bound come the digits of the logarithms of 2, 10 and 1.5.
\<close>

section \<open>The continued fraction and the logarithm\<close>

definition pade_poly :: "real \<Rightarrow> real" where
  "pade_poly z = 1680 + 840 * z + 180 * z ^ 2 + 20 * z ^ 3 + z ^ 4"

definition pade :: "real \<Rightarrow> real" where
  "pade z = pade_poly z / pade_poly (- z)"

lemma pade_poly_pos: "\<bar>z\<bar> \<le> 11 / 10 \<Longrightarrow> 700 \<le> pade_poly z"
proof -
  assume z: "\<bar>z\<bar> \<le> 11 / 10"
  have "\<bar>z\<bar> ^ 3 \<le> (11 / 10) ^ 3" using z by (intro power_mono) simp_all
  also have "(11 / 10 :: real) ^ 3 = 1331 / 1000" by (simp add: power3_eq_cube)
  finally have "\<bar>z ^ 3\<bar> \<le> 1331 / 1000" by (simp only: power_abs)
  moreover have "0 \<le> z ^ 2" "0 \<le> z ^ 4" by simp_all
  ultimately show ?thesis using z unfolding pade_poly_def abs_le_iff by linarith
qed

lemma pade_minus: "pade (- z) = inverse (pade z)"
  by (simp add: pade_def)

lemma pade_pos: "\<bar>z\<bar> \<le> 11 / 10 \<Longrightarrow> 0 < pade z"
  using pade_poly_pos [of z] pade_poly_pos [of "- z"] by (simp add: pade_def)

lemma pade_product:
  assumes "\<bar>z\<bar> \<le> 11 / 10"
  shows "2700000 \<le> pade_poly z * pade_poly (- z)"
proof -
  define u where "u = z ^ 2"
  have "\<bar>z\<bar> ^ 2 \<le> (11 / 10) ^ 2" using assms by (intro power_mono) simp_all
  then have u: "0 \<le> u" "u \<le> 121 / 100" by (simp_all add: u_def power2_eq_square)
  have "pade_poly z * pade_poly (- z) = 2822400 - 100800 * z ^ 2 + 2160 * z ^ 4 - 40 * z ^ 6 + z ^ 8"
    by (simp add: pade_poly_def algebra_simps power_numeral_reduce)
  also have "\<dots> = 2822400 - 100800 * u + u ^ 2 * (2160 - 40 * u) + u ^ 4" 
    by (simp add: u_def algebra_simps power_numeral_reduce)
  also have "0 \<le> u ^ 2 * (2160 - 40 * u)" using u by (intro mult_nonneg_nonneg) simp_all
  moreover have "0 \<le> u ^ 4" by simp
  ultimately show ?thesis using u by linarith
qed

lemma ln_pade_derivative:
  assumes "\<bar>x\<bar> \<le> 11 / 10"
  shows "((\<lambda>z. ln (pade z) - z) has_real_derivative - (x ^ 8) / (pade_poly x * pade_poly (- x))) (at x)"
proof -
  let ?d = "840 + 360 * x + 60 * x ^ 2 + 4 * x ^ 3" and ?e = "- 840 + 360 * x - 60 * x ^ 2 + 4 * x ^ 3"
  have p: "0 < pade_poly x" "0 < pade_poly (- x)" using pade_poly_pos [of x] pade_poly_pos [of "- x"] assms by simp_all
  have 1: "(pade_poly has_real_derivative ?d) (at x)"
    unfolding pade_poly_def [abs_def] by (auto intro!: derivative_eq_intros simp: algebra_simps)
  have 2: "((\<lambda>z. pade_poly (- z)) has_real_derivative ?e) (at x)"
    unfolding pade_poly_def [abs_def] by (auto intro!: derivative_eq_intros simp: algebra_simps)
  have "((\<lambda>z. ln (pade_poly z / pade_poly (- z)) - z) has_real_derivative
      inverse (pade_poly x / pade_poly (- x)) * ((?d * pade_poly (- x) - pade_poly x * ?e) / (pade_poly (- x) * pade_poly (- x))) - 1) (at x)"
    using p by (auto intro!: derivative_eq_intros 1 2)
  moreover have "inverse (pade_poly x / pade_poly (- x)) * ((?d * pade_poly (- x) - pade_poly x * ?e) / (pade_poly (- x) * pade_poly (- x))) - 1 =
      (?d * pade_poly (- x) - pade_poly x * ?e - pade_poly x * pade_poly (- x)) / (pade_poly x * pade_poly (- x))"
    using p by (simp add: field_simps)
  moreover have "?d * pade_poly (- x) - pade_poly x * ?e - pade_poly x * pade_poly (- x) = - (x ^ 8)"
    by (simp add: pade_poly_def algebra_simps power_numeral_reduce)
  ultimately show ?thesis unfolding pade_def [abs_def] by simp
qed

lemma ln_pade_nonneg:
  assumes "0 \<le> z" and "z \<le> 11 / 10"
  shows "ln (pade z) \<le> z" and "z - 42 / 10 ^ 9 * z ^ 9 \<le> ln (pade z)"
proof -
  have 0: "ln (pade 0) - 0 = 0" by (simp add: pade_def pade_poly_def)
  have "ln (pade z) - z \<le> ln (pade 0) - 0"
  proof (rule DERIV_nonpos_imp_nonincreasing [OF assms(1), where f = "\<lambda>z. ln (pade z) - z"])
    fix x assume "0 \<le> x" "x \<le> z"
    then have x: "\<bar>x\<bar> \<le> 11 / 10" using assms(2) by simp
    show "\<exists>y. ((\<lambda>z. ln (pade z) - z) has_real_derivative y) (at x) \<and> y \<le> 0"
      using ln_pade_derivative [OF x] pade_product [OF x] by (intro exI conjI) (auto intro: divide_nonpos_pos)
  qed
  then show "ln (pade z) \<le> z" using 0 by simp
  have "ln (pade 0) - 0 + 42 / 10 ^ 9 * 0 ^ 9 \<le> ln (pade z) - z + 42 / 10 ^ 9 * z ^ 9"
  proof (rule DERIV_nonneg_imp_nondecreasing [OF assms(1), where f = "\<lambda>z. ln (pade z) - z + 42 / 10 ^ 9 * z ^ 9"])
    fix x assume "0 \<le> x" "x \<le> z"
    then have x: "\<bar>x\<bar> \<le> 11 / 10" using assms(2) by simp
    let ?p = "pade_poly x * pade_poly (- x)"
    have "((\<lambda>z. ln (pade z) - z + 42 / 10 ^ 9 * z ^ 9) has_real_derivative - (x ^ 8) / ?p + 378 / 10 ^ 9 * x ^ 8) (at x)"
      by (rule derivative_eq_intros ln_pade_derivative [OF x] refl)+ simp
    moreover have "x ^ 8 / ?p \<le> x ^ 8 / 2700000" using pade_product [OF x] by (intro divide_left_mono) simp_all
    then have "x ^ 8 / ?p \<le> 378 / 10 ^ 9 * x ^ 8" by (rule order_trans) simp
    then have "0 \<le> - (x ^ 8) / ?p + 378 / 10 ^ 9 * x ^ 8" by simp
    ultimately show "\<exists>y. ((\<lambda>z. ln (pade z) - z + 42 / 10 ^ 9 * z ^ 9) has_real_derivative y) (at x) \<and> 0 \<le> y" by blast
  qed
  then show "z - 42 / 10 ^ 9 * z ^ 9 \<le> ln (pade z)" using 0 by simp
qed

lemma ln_pade:
  assumes "\<bar>z\<bar> \<le> 11 / 10"
  shows "\<bar>ln (pade z) - z\<bar> \<le> 42 / 10 ^ 9 * \<bar>z\<bar> ^ 9"
proof (cases "0 \<le> z")
  case True
  then show ?thesis using ln_pade_nonneg [of z] assms by (simp add: abs_le_iff)
next
  case False
  then have "ln (pade (- z)) = - ln (pade z)" using pade_pos [OF assms] by (simp add: pade_minus ln_inverse)
  then show ?thesis using ln_pade_nonneg [of "- z"] assms False by (simp add: abs_le_iff)
qed

section \<open>The logarithms of 2, 10 and 1.5\<close>

text \<open>A bound of the fraction gives a bound of the logarithm.\<close>

lemma ln_pade_less:
  assumes "0 \<le> z" and "z \<le> 11 / 10" and "0 < a" and "pade_poly z \<le> a * pade_poly (- z)"
  shows "z - 42 / 10 ^ 9 * z ^ 9 \<le> ln a"
proof -
  have p: "0 < pade_poly (- z)" using pade_poly_pos [of "- z"] assms by simp
  then have "pade z \<le> a" using assms(4) by (simp add: pade_def pos_divide_le_eq)
  then have "ln (pade z) \<le> ln a" using assms pade_pos [of z] by (subst ln_le_cancel_iff) simp_all
  then show ?thesis using ln_pade_nonneg(2) [OF assms(1,2)] by linarith
qed

lemma ln_pade_greater:
  assumes "0 \<le> z" and "z \<le> 11 / 10" and "0 < a" and "a * pade_poly (- z) \<le> pade_poly z"
  shows "ln a \<le> z"
proof -
  have p: "0 < pade_poly (- z)" using pade_poly_pos [of "- z"] assms by simp
  then have "a \<le> pade z" using assms(4) by (simp add: pade_def pos_le_divide_eq)
  then have "ln a \<le> ln (pade z)" using assms pade_pos [of z] by (subst ln_le_cancel_iff) simp_all
  then show ?thesis using ln_pade_nonneg(1) [OF assms(1,2)] by linarith
qed

lemma ln_2_bounds: "6931471805594 / 10 ^ 13 \<le> (ln 2 :: real)" "ln 2 \<le> (6931471805601 / 10 ^ 13 :: real)"
proof -
  have "1732867951399 / 10 ^ 13 - 42 / 10 ^ 9 * (1732867951399 / 10 ^ 13) ^ 9 \<le> ln (118920711500265 / 10 ^ 14 :: real)"
    by (rule ln_pade_less) (simp_all add: pade_poly_def power_divide)
  moreover have "ln ((118920711500265 / 10 ^ 14 :: real) ^ 4) \<le> ln 2" by (subst ln_le_cancel_iff) (simp_all add: power_divide)
  then have "4 * ln (118920711500265 / 10 ^ 14 :: real) \<le> ln 2" by (simp add: ln_realpow)
  ultimately show "6931471805594 / 10 ^ 13 \<le> (ln 2 :: real)" by (simp add: power_divide)
  have "ln (118920711500273 / 10 ^ 14 :: real) \<le> 1732867951400 / 10 ^ 13"
    by (rule ln_pade_greater) (simp_all add: pade_poly_def power_divide)
  moreover have "ln 2 \<le> ln ((118920711500273 / 10 ^ 14 :: real) ^ 4)" by (subst ln_le_cancel_iff) (simp_all add: power_divide)
  then have "ln 2 \<le> 4 * ln (118920711500273 / 10 ^ 14 :: real)" by (simp add: ln_realpow)
  ultimately show "ln 2 \<le> (6931471805601 / 10 ^ 13 :: real)" by simp
qed

lemma ln_10_bounds: "23025850929922 / 10 ^ 13 \<le> (ln 10 :: real)" "ln 10 \<le> (23025850929948 / 10 ^ 13 :: real)"
proof -
  have "2231435513141 / 10 ^ 13 - 42 / 10 ^ 9 * (2231435513141 / 10 ^ 13) ^ 9 \<le> ln (5 / 4 :: real)"
    by (rule ln_pade_less) (simp_all add: pade_poly_def power_divide)
  then have lo: "2231435513140 / 10 ^ 13 \<le> ln (5 / 4 :: real)" by (simp add: power_divide)
  have hi: "ln (5 / 4 :: real) \<le> 2231435513144 / 10 ^ 13"
    by (rule ln_pade_greater) (simp_all add: pade_poly_def power_divide)
  have "ln (10 :: real) = ln (2 ^ 3 * (5 / 4))" by simp
  also have "\<dots> = 3 * ln 2 + ln (5 / 4)" by (subst ln_mult) (simp_all only: ln_realpow, simp_all)
  finally have e: "ln (10 :: real) = 3 * ln 2 + ln (5 / 4)" .
  show "23025850929922 / 10 ^ 13 \<le> (ln 10 :: real)" "ln 10 \<le> (23025850929948 / 10 ^ 13 :: real)"
    unfolding e using lo hi ln_2_bounds by simp_all
qed

lemma ln_1_5_bounds: "405465108 / 10 ^ 9 \<le> (ln (3 / 2) :: real)" "ln (3 / 2) \<le> (405465109 / 10 ^ 9 :: real)"
proof -
  have "40546510810 / 10 ^ 11 - 42 / 10 ^ 9 * (40546510810 / 10 ^ 11) ^ 9 \<le> ln (3 / 2 :: real)"
    by (rule ln_pade_less) (simp_all add: pade_poly_def power_divide)
  then show "405465108 / 10 ^ 9 \<le> ln (3 / 2 :: real)" by (simp add: power_divide)
  have "ln (3 / 2 :: real) \<le> 40546510813 / 10 ^ 11"
    by (rule ln_pade_greater) (simp_all add: pade_poly_def power_divide)
  then show "ln (3 / 2) \<le> (405465109 / 10 ^ 9 :: real)" by simp
qed

section \<open>Bounds\<close>

text \<open>Logarithms of numbers that differ by a small relative error.\<close>

lemma ln_close:
  fixes a b \<delta> :: real
  assumes "0 < a" and "0 \<le> \<delta>" and "\<delta> \<le> 1 / 2" and "\<bar>b - a\<bar> \<le> \<delta> * a"
  shows "0 < b" and "\<bar>ln b - ln a\<bar> \<le> 2 * \<delta>"
proof -
  have "\<delta> * a \<le> 1 / 2 * a" using assms(1,3) by (intro mult_right_mono) simp_all
  then show b: "0 < b" using assms(1,4) by linarith
  have "\<bar>b / a - 1\<bar> = \<bar>b - a\<bar> / a" using assms(1) by (simp add: field_simps)
  also have "\<dots> \<le> \<delta>" using assms(1,4) by (simp add: pos_divide_le_eq)
  finally have q: "\<bar>b / a - 1\<bar> \<le> \<delta>" .
  have e: "ln b - ln a = ln (b / a)" using b assms(1) by (simp add: ln_div)
  have "ln (b / a) \<le> b / a - 1" using b assms(1) by (intro ln_le_minus_one) simp
  then have up: "ln (b / a) \<le> \<delta>" using q by linarith
  have "ln (a / b) \<le> a / b - 1" using b assms(1) by (intro ln_le_minus_one) simp
  also have "a / b - 1 = (a - b) / b" using b by (simp add: field_simps)
  also have "\<dots> \<le> \<delta> * a / (1 / 2 * a)"
  proof (rule frac_le)
    show "a - b \<le> \<delta> * a" using assms(4) by linarith
    show "1 / 2 * a \<le> b" using \<open>\<delta> * a \<le> 1 / 2 * a\<close> assms(4) by linarith
  qed (use assms in simp_all)
  also have "\<dots> = 2 * \<delta>" using assms(1) by simp
  finally have "- (2 * \<delta>) \<le> ln (b / a)" using b assms(1) by (simp add: ln_div)
  then show "\<bar>ln b - ln a\<bar> \<le> 2 * \<delta>" unfolding e using up assms(2) by linarith
qed

lemma ln_powi: "0 < a \<Longrightarrow> ln (a powi k :: real) = of_int k * ln a"
  by (cases "0 \<le> k") (simp_all add: power_int_def ln_realpow power_inverse ln_inverse)

lemma exp_small:
  assumes "0 \<le> t" and "t \<le> (1 / 2 :: real)"
  shows "exp t \<le> 1 + 2 * t"
proof -
  have "(1 + 2 * t) * (1 - t) = 1 + t * (1 - 2 * t)" by (simp add: algebra_simps)
  moreover have "0 \<le> t * (1 - 2 * t)" using assms by (intro mult_nonneg_nonneg) simp_all
  ultimately have "1 \<le> (1 + 2 * t) * (1 - t)" by linarith
  also have "\<dots> \<le> (1 + 2 * t) * exp (- t)" using exp_ge_add_one_self [of "- t"] assms by (intro mult_left_mono) simp_all
  finally show ?thesis by (simp add: exp_minus field_simps)
qed

lemma ln_close_abs:
  assumes "0 < a" and "0 < b" and "\<bar>ln b - ln a\<bar> \<le> 82 / 10 ^ 9"
  shows "\<bar>b - a\<bar> \<le> 9 / 10 ^ 8 * (a :: real)"
proof -
  define t where "t = ln b - ln a"
  have "exp t = b / a" using assms by (simp add: t_def exp_diff)
  then have q: "b - a = a * (exp t - 1)" using assms(1) by (simp add: right_diff_distrib)
  have t: "\<bar>t\<bar> \<le> 82 / 10 ^ 9" using assms(3) by (simp add: t_def)
  then have "1 - 82 / 10 ^ 9 \<le> exp t" using exp_ge_add_one_self [of t] by linarith
  moreover have "exp t \<le> 1 + 83 / 10 ^ 9"
  proof -
    have "exp t \<le> exp (82 / 10 ^ 9)" using t by simp
    also have "\<dots> \<le> 1 / (1 - 82 / 10 ^ 9)"
      using exp_ge_add_one_self [of "- (82 / 10 ^ 9) :: real"] by (simp add: exp_minus field_simps)
    also have "\<dots> \<le> 1 + 83 / 10 ^ 9" by simp
    finally show ?thesis .
  qed
  ultimately have "\<bar>exp t - 1\<bar> \<le> 9 / 10 ^ 8" unfolding abs_le_iff by simp
  then have "a * \<bar>exp t - 1\<bar> \<le> a * (9 / 10 ^ 8)" using assms(1) by (intro mult_left_mono) simp_all
  moreover have "\<bar>b - a\<bar> = a * \<bar>exp t - 1\<bar>" using assms(1) by (simp add: q abs_mult)
  ultimately show ?thesis by simp
qed

text \<open>The tangent of the logarithm at 1.5.\<close>

lemma ln_near_1_5:
  assumes "1 \<le> x" and "x \<le> (2 :: real)"
  shows "ln x \<le> ln (3 / 2) + (x - 3 / 2) * (2 / 3)" and "ln (3 / 2) + (x - 3 / 2) * (2 / 3) \<le> ln x + 1 / 6"
proof -
  have "ln (3 / 2 * (x / (3 / 2))) = ln (3 / 2) + ln (x / (3 / 2))" using assms by (subst ln_mult) simp_all
  then have e: "ln x = ln (3 / 2) + ln (x / (3 / 2))" by simp
  have "ln (x / (3 / 2)) \<le> x / (3 / 2) - 1" using assms by (intro ln_le_minus_one) simp
  then show "ln x \<le> ln (3 / 2) + (x - 3 / 2) * (2 / 3)" unfolding e by (simp add: field_simps)
  define u where "u = 3 / 2 / x"
  have "ln u \<le> u - 1" using assms unfolding u_def by (intro ln_le_minus_one) simp
  moreover have "ln u = - ln (x / (3 / 2))" using assms ln_inverse [of "x / (3 / 2)"] by (simp add: u_def mult.commute)
  ultimately have l: "1 - u \<le> ln (x / (3 / 2))" by linarith
  have "(x - 1) * (x - 9 / 4) \<le> 0" using assms by (intro mult_nonneg_nonpos) simp_all
  moreover have "(x - 1) * (x - 9 / 4) = x * x + 9 / 4 - 13 / 4 * x" by (simp add: field_simps)
  ultimately have "(x * x + 9 / 4) / x \<le> 13 / 4" using assms by (simp add: pos_divide_le_eq)
  moreover have "(x * x + 9 / 4) / x = x + 3 / 2 * u" using assms by (simp add: u_def field_simps)
  ultimately have "x + 3 / 2 * u \<le> 13 / 4" by linarith
  then have "(x - 3 / 2) * (2 / 3) \<le> 1 - u + 1 / 6" by (simp add: left_diff_distrib)
  also have "\<dots> \<le> ln (x / (3 / 2)) + 1 / 6" using l by (intro add_right_mono)
  finally show "ln (3 / 2) + (x - 3 / 2) * (2 / 3) \<le> ln x + 1 / 6" by (simp only: e add.assoc add_le_cancel_left)
qed

end
