(* ===== verification/Printk_Etoa_Error.thy ===== *)
theory Printk_Etoa_Error
  imports Printk_Exp_Spec Logarithms
begin

text \<open>
  The rounding errors of \<^verbatim>\<open>_etoa\<close>, on the logarithmic scale: the power of ten has a relative
  error below 1e-7, the exponent is that of the number or one more, and the quotient of number and
  power is as exact as the power.
\<close>

section \<open>Errors of the scaling\<close>

text \<open>A finite double within \<open>e\<close> of a real number.\<close>

definition near :: "double \<Rightarrow> real \<Rightarrow> real \<Rightarrow> bool" where
  "near d x e \<longleftrightarrow> is_finite d \<and> \<bar>val d - x\<bar> \<le> e"

lemma rounds_near:
  assumes "rounds y d" and "\<bar>y\<bar> \<le> 4096" and "\<bar>y - x\<bar> + eps \<le> e"
  shows "near d x e"
proof -
  have "in_range d (y - eps) (y + eps)" by (rule rounds_in_range [OF assms(1,2)]) simp_all
  then show ?thesis using assms(3) unfolding in_range_def near_def by linarith
qed

lemma near_exact: "is_finite d \<Longrightarrow> near d (val d) 0"
  by (simp add: near_def)

lemma near_of_integer: "\<bar>k\<bar> < 2 ^ 53 \<Longrightarrow> near (of_integer k) (of_int k) 0"
  using of_integer_exact [of k] by (simp add: near_def)

lemma near_add:
  assumes "near a x ea" and "near b y eb" and "\<bar>x\<bar> \<le> 1000" and "\<bar>y\<bar> \<le> 1000" and "ea + eb + eps \<le> e" and "e \<le> 1"
  shows "near (fadd a b) (x + y) e"
proof -
  have v: "is_finite a" "is_finite b" "\<bar>val a - x\<bar> \<le> ea" "\<bar>val b - y\<bar> \<le> eb" using assms(1,2) by (simp_all add: near_def)
  then have "\<bar>val a + val b\<bar> \<le> 4096" "\<bar>val a + val b - (x + y)\<bar> + eps \<le> e" using assms(3-6) by linarith+
  then show ?thesis using v by (intro rounds_near [OF fadd_rounds]) (simp_all add: below_bound)
qed

lemma near_sub:
  assumes "near a x ea" and "near b y eb" and "\<bar>x\<bar> \<le> 1000" and "\<bar>y\<bar> \<le> 1000" and "ea + eb + eps \<le> e" and "e \<le> 1"
  shows "near (fsub a b) (x - y) e"
proof -
  have v: "is_finite a" "is_finite b" "\<bar>val a - x\<bar> \<le> ea" "\<bar>val b - y\<bar> \<le> eb" using assms(1,2) by (simp_all add: near_def)
  then have "\<bar>val a - val b\<bar> \<le> 4096" "\<bar>val a - val b - (x - y)\<bar> + eps \<le> e" using assms(3-6) by linarith+
  then show ?thesis using v by (intro rounds_near [OF fsub_rounds]) (simp_all add: below_bound)
qed

lemma near_mul_exact: "is_finite a \<Longrightarrow> is_finite b \<Longrightarrow> \<bar>val a * val b\<bar> \<le> 4096 \<Longrightarrow> near (fmul a b) (val a * val b) eps"
  by (rule rounds_near [OF fmul_rounds]) (simp_all add: below_bound)

lemma near_div:
  assumes "near a x ea" and "near b y eb" and "\<bar>x\<bar> \<le> y" and "m + eb \<le> y" and "0 < m"
    and "(ea + eb) / m + eps \<le> e" and "e \<le> 1"
  shows "near (fdiv a b) (x / y) e"
proof -
  have v: "is_finite a" "is_finite b" "\<bar>val a - x\<bar> \<le> ea" "\<bar>val b - y\<bar> \<le> eb" using assms(1,2) by (simp_all add: near_def)
  then have b: "m \<le> val b" "0 < val b" "0 < y" "0 \<le> eb" using assms(4,5) by linarith+
  have "val a / val b - x / y = ((val a - x) - x / y * (val b - y)) / val b" using b by (simp add: field_simps)
  then have "\<bar>val a / val b - x / y\<bar> = \<bar>(val a - x) - x / y * (val b - y)\<bar> / val b" using b by simp
  also have "\<dots> \<le> (ea + eb) / m"
  proof (rule frac_le)
    have "\<bar>x / y\<bar> \<le> 1" using assms(3) b by simp
    then have "\<bar>x / y\<bar> * \<bar>val b - y\<bar> \<le> 1 * eb" using v(4) by (intro mult_mono) simp_all
    then show "\<bar>(val a - x) - x / y * (val b - y)\<bar> \<le> ea + eb" using v(3) unfolding abs_mult [symmetric] by linarith
    show "0 \<le> ea + eb" using v by linarith
  qed (use b assms(5) in simp_all)
  finally have e: "\<bar>val a / val b - x / y\<bar> + eps \<le> e" using assms(6) by linarith
  have "\<bar>x / y\<bar> \<le> 1" using assms(3) b by simp
  then have le: "\<bar>val a / val b\<bar> \<le> 4096" using e assms(7) by linarith
  have "rounds (val a / val b) (fdiv a b)" by (rule fdiv_rounds [OF v(1,2)]) (use b in simp, rule below_bound [OF le])
  then show ?thesis by (rule rounds_near [OF _ le e])
qed

lemma near_mul:
  assumes "near a x ea" and "near b y eb" and "\<bar>x\<bar> \<le> 1" and "\<bar>y\<bar> \<le> 1" and "2 * ea + eb + eps \<le> e" and "e \<le> 1"
    and "0 \<le> ea" and "0 \<le> eb"
  shows "near (fmul a b) (x * y) e"
proof -
  have v: "is_finite a" "is_finite b" "\<bar>val a - x\<bar> \<le> ea" "\<bar>val b - y\<bar> \<le> eb" using assms(1,2) by (simp_all add: near_def)
  have "\<bar>val b\<bar> \<le> 2" using v(4) assms(4-8) by linarith
  then have "\<bar>(val a - x) * val b\<bar> \<le> ea * 2" unfolding abs_mult using v(3) assms(7) by (intro mult_mono) simp_all
  moreover have "\<bar>x * (val b - y)\<bar> \<le> 1 * eb" unfolding abs_mult using v(4) assms(3,8) by (intro mult_mono) simp_all
  moreover have "val a * val b - x * y = (val a - x) * val b + x * (val b - y)" by (simp add: algebra_simps)
  ultimately have e: "\<bar>val a * val b - x * y\<bar> + eps \<le> e" using assms(5) by linarith
  have "\<bar>x * y\<bar> \<le> 1 * 1" unfolding abs_mult using assms(3,4) by (intro mult_mono) simp_all
  then have le: "\<bar>val a * val b\<bar> \<le> 4096" using e assms(6) by linarith
  show ?thesis by (rule rounds_near [OF fmul_rounds [OF v(1,2) below_bound [OF le]] le e])
qed

lemma near_literal: "of_int n / 10 ^ k = x \<Longrightarrow> \<bar>x\<bar> \<le> 4096 \<Longrightarrow> near (literal n k) x eps"
  using in_range_literal [of n k x] unfolding in_range_def near_def abs_le_iff by linarith

lemma pade_fraction:
  assumes "\<bar>x\<bar> \<le> 11 / 10"
  shows "pade x = 1 + 2 * x / (2 - x + x * x / (6 + x * x / (10 + x * x / 14)))"
proof -
  have p: "0 < pade_poly (- x)" using pade_poly_pos [of "- x"] assms by simp
  have q: "0 < 140 + x * x" "0 < 840 + 20 * (x * x)" by (simp_all add: add_pos_nonneg)
  have "x * x / (10 + x * x / 14) = 14 * (x * x) / (140 + x * x)" using q by (simp add: field_simps)
  then have "6 + x * x / (10 + x * x / 14) = (840 + 20 * (x * x)) / (140 + x * x)" using q by (simp add: field_simps)
  then have "x * x / (6 + x * x / (10 + x * x / 14)) = x * x * (140 + x * x) / (840 + 20 * (x * x))" by simp
  then have "2 - x + x * x / (6 + x * x / (10 + x * x / 14)) = pade_poly (- x) / (840 + 20 * (x * x))"
    using q by (simp add: field_simps pade_poly_def power_numeral_reduce)
  then have "1 + 2 * x / (2 - x + x * x / (6 + x * x / (10 + x * x / 14))) =
      1 + 2 * x * (840 + 20 * (x * x)) / pade_poly (- x)" by simp
  also have "\<dots> = (pade_poly (- x) + 2 * x * (840 + 20 * (x * x))) / pade_poly (- x)" using p by (simp add: field_simps)
  also have "pade_poly (- x) + 2 * x * (840 + 20 * (x * x)) = pade_poly x" by (simp add: pade_poly_def algebra_simps power_numeral_reduce)
  finally show ?thesis by (simp add: pade_def)
qed

lemma etoa_factor_near:
  assumes z: "is_finite z" "- (11 / 10) \<le> val z" "val z \<le> 4 / 10"
  shows "near (etoa_factor z) (pade (val z)) (7 * eps)"
proof -
  define x where "x = val z"
  define w where "w = x * x"
  define z2 where "z2 = fmul z z"
  have x: "- (11 / 10) \<le> x" "x \<le> 4 / 10" using z by (simp_all add: x_def)
  have "0 \<le> (11 / 10 - x) * (11 / 10 + x)" using x by (intro mult_nonneg_nonneg) simp_all
  then have w: "0 \<le> w" "w \<le> 121 / 100" by (simp_all add: w_def algebra_simps)
  note i = near_of_integer [of 14, simplified] near_of_integer [of 10, simplified] near_of_integer [of 6, simplified]
    near_of_integer [of 2, simplified] near_of_integer [of 1, simplified]
  have "\<bar>val z * val z\<bar> \<le> 4096" using w by (simp add: w_def x_def)
  from near_mul_exact [OF z(1) z(1) this] have z2: "near z2 w eps" by (simp add: z2_def w_def x_def)
  define u where "u = w / (10 + w / 14)"
  define t where "t = w / (6 + u)"
  define y where "y = 2 - x + t"
  have u: "0 \<le> u" "u \<le> 1" using w by (simp_all add: u_def pos_divide_le_eq)
  then have t: "0 \<le> t" "t \<le> 1" using w by (simp_all add: t_def pos_divide_le_eq)
  define d1 where "d1 = fadd (of_integer 10) (fdiv z2 (of_integer 14))"
  define d2 where "d2 = fadd (of_integer 6) (fdiv z2 d1)"
  define d where "d = fadd (fsub (of_integer 2) z) (fdiv z2 d2)"
  have "near (fdiv z2 (of_integer 14)) (w / 14) (2 * eps)"
    by (rule near_div [OF z2 i(1), where m = 14]) (use w in simp_all)
  then have b1: "near d1 (10 + w / 14) (3 * eps)"
    unfolding d1_def by (rule near_add [OF i(2)]) (use w in simp_all)
  have "near (fdiv z2 d1) u (2 * eps)"
    unfolding u_def by (rule near_div [OF z2 b1, where m = 9]) (use w in simp_all)
  then have b2: "near d2 (6 + u) (3 * eps)"
    unfolding d2_def by (rule near_add [OF i(3)]) (use u in simp_all)
  have b3: "near (fdiv z2 d2) t (2 * eps)"
    unfolding t_def by (rule near_div [OF z2 b2, where m = 5]) (use w u in simp_all)
  have b4: "near (fsub (of_integer 2) z) (2 - x) eps"
    by (rule near_sub [OF i(4) near_exact [OF z(1), folded x_def]]) (use x in simp_all)
  have b5: "near d y (4 * eps)" unfolding d_def y_def by (rule near_add [OF b4 b3]) (use x t in simp_all)
  have v2: "val (of_integer 2) = 2" "is_finite (of_integer 2)" using of_integer_exact [of 2] by simp_all
  have "\<bar>val (of_integer 2) * val z\<bar> \<le> 4096" using x by (simp add: v2 x_def abs_le_iff)
  from near_mul_exact [OF v2(2) z(1) this] have b8: "near (fmul (of_integer 2) z) (2 * x) eps" by (simp add: v2 x_def)
  have b9: "near (fdiv (fmul (of_integer 2) z) d) (2 * x / y) (6 * eps)"
    by (rule near_div [OF b8 b5, where m = 1]) (use x t in \<open>simp_all add: y_def abs_le_iff\<close>)
  have "\<bar>2 * x\<bar> \<le> y" "0 < y" using x t by (simp_all add: y_def abs_le_iff)
  then have "\<bar>2 * x / y\<bar> \<le> 1" by simp
  then have "near (fadd (of_integer 1) (fdiv (fmul (of_integer 2) z) d)) (1 + 2 * x / y) (7 * eps)"
    by (intro near_add [OF i(5) b9]) simp_all
  moreover have "pade x = 1 + 2 * x / y"
    unfolding y_def t_def u_def w_def by (rule pade_fraction) (use x in \<open>simp add: abs_le_iff\<close>)
  ultimately show ?thesis by (simp only: etoa_factor_def Let_def d_def d1_def d2_def z2_def x_def)
qed

text \<open>The power of ten, on the logarithmic scale.\<close>

lemma etoa_power_pade:
  assumes n: "- 307 \<le> n" "n \<le> 308"
  defines "x \<equiv> val (etoa_arg n)"
  shows "\<bar>ln (val (etoa_power n)) - (of_int (power2 n) * ln 2 + ln (pade x))\<bar> \<le> 100 * eps"
proof -
  define g where "g = val (etoa_factor (etoa_arg n))"
  define P where "P = (2 :: real) powi power2 n"
  have P: "0 < P" "ln P = of_int (power2 n) * ln 2" by (simp_all add: P_def ln_powi)
  have "- (105 / 100) \<le> x" "x \<le> 4 / 10" "is_finite (etoa_arg n)"
    using etoa_argument(2) [OF n] by (simp_all add: in_range_def x_def)
  then have "near (etoa_factor (etoa_arg n)) (pade x) (7 * eps)"
    unfolding x_def by (intro etoa_factor_near) simp_all
  then have g: "\<bar>g - pade x\<bar> \<le> 7 * eps" by (simp add: near_def g_def)
  note pr = etoa_power_rounds [OF n, folded g_def]
  then have e: "\<bar>val (etoa_power n) - P * g\<bar> \<le> P / 2 ^ 52"
    unfolding P_def by (intro rounded_power2_error [OF pr(1) power2_bounds(3) [OF n]]) simp_all
  have pade0: "19 / 100 \<le> pade x" using g pr(2) by linarith
  have "\<bar>P * g - P * pade x\<bar> = P * \<bar>g - pade x\<bar>" using P(1) by (simp add: abs_mult flip: right_diff_distrib)
  also have "\<dots> \<le> P * (7 * eps)" using P(1) g by (intro mult_left_mono) simp_all
  finally have "\<bar>P * g - P * pade x\<bar> \<le> P * (7 * eps)" .
  moreover have "P / 2 ^ 52 \<le> P * eps" using P(1) by simp
  ultimately have "\<bar>val (etoa_power n) - P * pade x\<bar> \<le> P * (8 * eps)" using e unfolding abs_le_iff by linarith
  also have "P * (8 * eps) \<le> P * (50 * eps * pade x)" using P(1) pade0 by (intro mult_left_mono) simp_all
  finally have c: "\<bar>val (etoa_power n) - P * pade x\<bar> \<le> 50 * eps * (P * pade x)" by simp
  have "\<bar>ln (val (etoa_power n)) - ln (P * pade x)\<bar> \<le> 2 * (50 * eps)"
    by (rule ln_close(2) [OF _ _ _ c]) (use P(1) pade0 in simp_all)
  moreover have "ln (P * pade x) = of_int (power2 n) * ln 2 + ln (pade x)" using P pade0 by (subst ln_mult) simp_all
  ultimately show ?thesis by simp
qed

text \<open>The two constants of the source against the logarithms.\<close>

lemma etoa_constants:
  assumes "\<bar>r\<bar> \<le> 308" and "\<bar>k\<bar> \<le> (1023 :: real)"
  shows "\<bar>(r * (2302585092994046 / 1000000000000000) - k * (6931471805599453 / 10000000000000000)) - (r * ln 10 - k * ln 2)\<bar> \<le> 3 / 10 ^ 9"
proof -
  have a: "\<bar>2302585092994046 / 1000000000000000 - ln 10 :: real\<bar> \<le> 3 / 10 ^ 12" using ln_10_bounds unfolding abs_le_iff by simp
  have b: "\<bar>6931471805599453 / 10000000000000000 - ln 2 :: real\<bar> \<le> 1 / 10 ^ 12" using ln_2_bounds unfolding abs_le_iff by simp
  have "\<bar>r * (2302585092994046 / 1000000000000000 - ln 10)\<bar> \<le> 308 * (3 / 10 ^ 12)"
    unfolding abs_mult using a assms(1) by (intro mult_mono) simp_all
  moreover have "\<bar>k * (6931471805599453 / 10000000000000000 - ln 2)\<bar> \<le> 1023 * (1 / 10 ^ 12)"
    unfolding abs_mult using b assms(2) by (intro mult_mono) simp_all
  ultimately show ?thesis unfolding right_diff_distrib abs_le_iff by simp
qed

lemma etoa_power_ln:
  assumes n: "- 307 \<le> n" "n \<le> 308"
  shows "\<bar>ln (val (etoa_power n)) - of_int n * ln 10\<bar> \<le> 8 / 10 ^ 8"
proof -
  define k where "k = real_of_int (power2 n)"
  define r where "r = real_of_int n"
  define x where "x = val (etoa_arg n)"
  have r: "\<bar>r\<bar> \<le> 308" "\<bar>k\<bar> \<le> 1023" using n power2_bounds(3,4) [OF n] by (simp_all add: r_def k_def abs_le_iff)
  have x: "\<bar>x\<bar> \<le> 11 / 10" "\<bar>x\<bar> \<le> 105 / 100"
    "\<bar>x - (r * (2302585092994046 / 1000000000000000) - k * (6931471805599453 / 10000000000000000))\<bar> \<le> 2300 * eps"
    using etoa_argument [OF n, folded k_def r_def] unfolding in_range_def x_def abs_le_iff by linarith+
  have "\<bar>x\<bar> ^ 9 \<le> (105 / 100) ^ 9" using x(2) by (intro power_mono) simp_all
  then have "42 / 10 ^ 9 * \<bar>x\<bar> ^ 9 \<le> 42 / 10 ^ 9 * (105 / 100) ^ 9" by (intro mult_left_mono) simp_all
  also have "\<dots> \<le> 66 / 10 ^ 9" by (simp add: power_divide)
  finally have "\<bar>ln (pade x) - x\<bar> \<le> 66 / 10 ^ 9" using ln_pade [OF x(1)] by linarith
  then show ?thesis
    unfolding r_def [symmetric]
    using etoa_power_pade [OF n, folded k_def x_def] etoa_constants [OF r] x(3) unfolding abs_le_iff by simp
qed

section \<open>The exponent\<close>

lemma normal_value:
  assumes "canonical v" and "2 powi - 1022 \<le> val v"
  shows "val v = 2 powi exponent2 v * val (mantissa2 v)" and "0 < val v" and "- 1022 \<le> exponent2 v"
proof -
  have v0: "0 < (2 :: real) powi - 1022" by simp
  then show v: "0 < val v" using assms(2) by linarith
  then have "0 \<le> val v" by simp
  then obtain x f where xf: "x < 2047" "f < 2 ^ 52" "exponent2 v = int x - 1023" "mantissa2 v = Finite False (f + 2 ^ 52) (- 52)"
    "val v = (if x = 0 then real f * 2 powi - 1074 else (real f + 2 ^ 52) * 2 powi (int x - 1075))"
    by (rule exponent_fields [OF assms(1)])
  have "x \<noteq> 0"
  proof
    assume "x = 0"
    then have "val v = real f * 2 powi - 1074" using xf(5) by simp
    also have "\<dots> < 2 ^ 52 * 2 powi - 1074" using xf(2) by (intro mult_strict_right_mono) simp_all
    also have "\<dots> = 2 powi - 1022" using powi_add [of 52 "- 1074"] by simp
    finally show False using assms(2) by linarith
  qed
  then show "- 1022 \<le> exponent2 v" using xf(3) by simp
  have "val v = (real f + 2 ^ 52) * 2 powi (exponent2 v + - 52)"
    using xf(3,5) \<open>x \<noteq> 0\<close> by simp
  also have "\<dots> = 2 powi exponent2 v * ((real f + 2 ^ 52) * 2 powi - 52)" by (simp only: powi_add mult_ac)
  also have "(real f + 2 ^ 52) * 2 powi - 52 = val (mantissa2 v)" by (simp add: xf(4))
  finally show "val v = 2 powi exponent2 v * val (mantissa2 v)" .
qed

text \<open>The approximation of the logarithm to base 10, before it is cut off.\<close>

definition etoa_log :: "double \<Rightarrow> double" where
  "etoa_log v = fadd (fadd (literal 1760912590558 13) (fmul (of_integer (exponent2 v)) (literal 301029995663981 15)))
     (fmul (fsub (mantissa2 v) (literal 15 1)) (literal 289529654602168 15))"

lemma etoa_exponent_log: "etoa_exponent v = truncate (etoa_log v)"
  by (simp only: etoa_exponent_def Let_def etoa_log_def exponent2_def mantissa2_def)

lemma etoa_log_near:
  assumes "canonical v" and "0 \<le> val v"
  shows "near (etoa_log v) (1760912590558 / 10 ^ 13 + of_int (exponent2 v) * (301029995663981 / 10 ^ 15) +
    (val (mantissa2 v) - 3 / 2) * (289529654602168 / 10 ^ 15)) (2000 * eps)"
proof -
  note e = exponent_mantissa [OF assms]
  define E where "E = real_of_int (exponent2 v)"
  have E: "- 1023 \<le> E" "E \<le> 1023" using e(1,2) by (simp_all add: E_def)
  have m: "is_finite (mantissa2 v)" "1 \<le> val (mantissa2 v)" "val (mantissa2 v) \<le> 2" using e(4) by (simp_all add: in_range_def)
  have L: "in_range (literal 301029995663981 15) (301029995663981 / 10 ^ 15 - eps) (301029995663981 / 10 ^ 15 + eps)"
    by (rule in_range_literal) simp_all
  have "in_range (fmul (of_integer (exponent2 v)) (literal 301029995663981 15))
      (E * (301029995663981 / 10 ^ 15) - 1100 * eps) (E * (301029995663981 / 10 ^ 15) + 1100 * eps)"
    unfolding E_def by (rule in_range_int_mul [OF _ L]) (use e(1,2) in simp_all)
  then have a: "near (fmul (of_integer (exponent2 v)) (literal 301029995663981 15)) (E * (301029995663981 / 10 ^ 15)) (1100 * eps)"
    unfolding in_range_def near_def abs_le_iff by linarith
  have b: "near (fadd (literal 1760912590558 13) (fmul (of_integer (exponent2 v)) (literal 301029995663981 15)))
      (1760912590558 / 10 ^ 13 + E * (301029995663981 / 10 ^ 15)) (1102 * eps)"
    by (rule near_add [OF near_literal a]) (use E in \<open>simp_all add: abs_le_iff\<close>)
  have c: "near (fsub (mantissa2 v) (literal 15 1)) (val (mantissa2 v) - 3 / 2) (2 * eps)"
    by (rule near_sub [OF near_exact [OF m(1)] near_literal]) (use m in \<open>simp_all add: abs_le_iff\<close>)
  have d: "near (fmul (fsub (mantissa2 v) (literal 15 1)) (literal 289529654602168 15))
      ((val (mantissa2 v) - 3 / 2) * (289529654602168 / 10 ^ 15)) (6 * eps)"
    by (rule near_mul [OF c near_literal]) (use m in \<open>simp_all add: abs_le_iff\<close>)
  show ?thesis
    unfolding etoa_log_def E_def [symmetric] by (rule near_add [OF b d]) (use m E in \<open>simp_all add: abs_le_iff\<close>)
qed

lemma etoa_log_ln:
  assumes "canonical v" and "2 powi - 1022 \<le> val v"
  shows "is_finite (etoa_log v)" and "ln (val v) - 1 / 10 ^ 7 \<le> val (etoa_log v) * ln 10"
    and "val (etoa_log v) * ln 10 \<le> ln (val v) + 1 / 6 + 1 / 10 ^ 7"
proof -
  note n = normal_value [OF assms]
  then have v0: "0 \<le> val v" by simp
  note m = exponent_mantissa [OF assms(1) v0]
  define E where "E = real_of_int (exponent2 v)"
  define x where "x = val (mantissa2 v)"
  define l where "l = (ln 10 :: real)"
  define D where "D = 1760912590558 / 10 ^ 13 + E * (301029995663981 / 10 ^ 15) + (x - 3 / 2) * (289529654602168 / 10 ^ 15)"
  have E: "- 1023 \<le> E" "E \<le> 1023" using m(1,2) by (simp_all add: E_def)
  have x: "1 \<le> x" "x \<le> 2" using m(4) by (simp_all add: in_range_def x_def)
  have l: "23025850929922 / 10 ^ 13 \<le> l" "l \<le> 23025850929948 / 10 ^ 13" using ln_10_bounds by (simp_all add: l_def)
  have "near (etoa_log v) D (2000 * eps)" unfolding D_def E_def x_def by (rule etoa_log_near [OF assms(1) v0])
  then have d: "is_finite (etoa_log v)" "\<bar>val (etoa_log v) - D\<bar> \<le> 2000 * eps" by (simp_all add: near_def)
  then show "is_finite (etoa_log v)" by simp
  have "\<bar>(val (etoa_log v) - D) * l\<bar> \<le> 2000 * eps * 3" unfolding abs_mult using d(2) l by (intro mult_mono) simp_all
  then have 1: "\<bar>val (etoa_log v) * l - D * l\<bar> \<le> 6000 * eps" by (simp add: left_diff_distrib)
  have a: "\<bar>1760912590558 / 10 ^ 13 * l - ln (3 / 2)\<bar> \<le> 1 / 10 ^ 8" using l ln_1_5_bounds unfolding abs_le_iff by simp
  have b: "\<bar>301029995663981 / 10 ^ 15 * l - ln 2\<bar> \<le> 1 / 10 ^ 11" using l ln_2_bounds unfolding abs_le_iff by simp
  have c: "\<bar>289529654602168 / 10 ^ 15 * l - 2 / 3\<bar> \<le> 1 / 10 ^ 11" using l unfolding abs_le_iff by simp
  have b': "\<bar>E * (301029995663981 / 10 ^ 15 * l - ln 2)\<bar> \<le> 1023 * (1 / 10 ^ 11)"
    unfolding abs_mult using b E by (intro mult_mono) (simp_all add: abs_le_iff)
  have c': "\<bar>(x - 3 / 2) * (289529654602168 / 10 ^ 15 * l - 2 / 3)\<bar> \<le> 1 * (1 / 10 ^ 11)"
    unfolding abs_mult using c x by (intro mult_mono) (simp_all add: abs_le_iff)
  define T where "T = ln (3 / 2) + E * ln 2 + (x - 3 / 2) * (2 / 3)"
  have "D * l - T = (1760912590558 / 10 ^ 13 * l - ln (3 / 2)) + E * (301029995663981 / 10 ^ 15 * l - ln 2) +
      (x - 3 / 2) * (289529654602168 / 10 ^ 15 * l - 2 / 3)"
    by (simp add: D_def T_def algebra_simps)
  then have 2: "\<bar>D * l - T\<bar> \<le> 3 / 10 ^ 8" using a b' c' unfolding abs_le_iff by simp
  have "ln (val v) = ln (2 powi exponent2 v) + ln x" unfolding n(1) x_def [symmetric] using x by (subst ln_mult) simp_all
  then have v: "ln (val v) = E * ln 2 + ln x" by (simp add: ln_powi E_def)
  have 3: "ln (val v) \<le> T" "T \<le> ln (val v) + 1 / 6" using ln_near_1_5 [OF x] by (simp_all add: v T_def)
  show "ln (val v) - 1 / 10 ^ 7 \<le> val (etoa_log v) * ln 10" "val (etoa_log v) * ln 10 \<le> ln (val v) + 1 / 6 + 1 / 10 ^ 7"
    unfolding l_def [symmetric] using 1 2 3 unfolding abs_le_iff by simp_all
qed

lemma etoa_exponent_ln:
  assumes "canonical v" and "2 powi - 1022 \<le> val v"
  shows "ln (val v) \<le> (of_int (etoa_exponent v) + 1) * ln 10 + 1 / 10 ^ 7"
    and "(of_int (etoa_exponent v) - 1) * ln 10 \<le> ln (val v) + 1 / 6 + 1 / 10 ^ 7"
proof -
  note d = etoa_log_ln [OF assms]
  note t = truncate_bounds(3,4) [OF d(1), folded etoa_exponent_log]
  have l: "0 < (ln 10 :: real)" by simp
  have "val (etoa_log v) * ln 10 \<le> (of_int (etoa_exponent v) + 1) * ln 10" using t(1) l by (intro mult_right_mono) simp_all
  then show "ln (val v) \<le> (of_int (etoa_exponent v) + 1) * ln 10 + 1 / 10 ^ 7" using d(2) by linarith
  have "(of_int (etoa_exponent v) - 1) * ln 10 \<le> val (etoa_log v) * ln 10" using t(2) l by (intro mult_right_mono) simp_all
  then show "(of_int (etoa_exponent v) - 1) * ln 10 \<le> ln (val v) + 1 / 6 + 1 / 10 ^ 7" using d(3) by linarith
qed

section \<open>The quotient\<close>

lemma etoa_scale_ln:
  assumes c: "canonical v" and v: "2 powi - 1022 \<le> val v" and r: "etoa_scale v = (X, F)"
  shows "canonical F" and "0 < val F" and "\<bar>ln (val F) - of_int X * ln 10\<bar> \<le> 81 / 10 ^ 9"
    and "- (1 / 6) - 2 / 10 ^ 7 \<le> ln (val v) - of_int X * ln 10" and "ln (val v) - of_int X * ln 10 \<le> ln 10 + 2 / 10 ^ 7"
proof -
  define n where "n = etoa_exponent v"
  note pos = normal_value(2) [OF c v]
  then have v0: "0 \<le> val v" by simp
  note s = etoa_scale_bounds [OF c v0 r]
  then show "canonical F" "0 < val F" by simp_all
  note nb = etoa_exponent_bounds(2,3) [OF c v0, folded n_def]
  note P = etoa_power_bounds [OF nb]
  have P0: "0 < val (etoa_power n)" using P(2) powi_pos [of "power2 n"] by linarith
  note ln_P = etoa_power_ln [OF nb]
  note e = etoa_exponent_ln [OF c v, folded n_def]
  have fin: "is_finite v" "is_finite (etoa_power n)" using c P(1) by simp_all
  consider "X = n" "F = etoa_power n" "val (etoa_power n) \<le> val v"
    | "X = n - 1" "F = fdiv (etoa_power n) (of_integer 10)" "val v < val (etoa_power n)"
    using r fin by (auto simp: etoa_scale_def Let_def n_def flt_val split: if_splits)
  note cases = this
  show "\<bar>ln (val F) - of_int X * ln 10\<bar> \<le> 81 / 10 ^ 9" using cases
  proof cases
    case 1
    then show ?thesis using ln_P by simp
  next
    case 2
    define d where "d = val (etoa_power n) / 10"
    obtain f where t: "rounds (2 powi power2 n * f) (fdiv (etoa_power n) (of_integer 10))" "1 / 80 \<le> f" "f \<le> 3 / 10"
      "2 powi power2 n * f = d" unfolding d_def by (rule etoa_tenth [OF nb])
    have "\<bar>val F - d\<bar> \<le> 2 powi power2 n / 2 ^ 52"
      using rounded_power2_error [OF t(1) power2_bounds(3) [OF nb]] t(2,3) by (simp add: t(4) 2(2))
    also have "2 powi power2 n \<le> 80 * d" using P(2) by (simp add: d_def)
    then have "2 powi power2 n / 2 ^ 52 \<le> 100 / 2 ^ 52 * d" using P0 by (simp add: d_def)
    finally have "\<bar>val F - d\<bar> \<le> 100 / 2 ^ 52 * d" .
    then have "\<bar>ln (val F) - ln d\<bar> \<le> 2 * (100 / 2 ^ 52)" using P0 by (intro ln_close(2)) (simp_all add: d_def)
    moreover have "ln d = ln (val (etoa_power n)) - ln 10" using P0 by (simp add: d_def ln_div)
    moreover have "real_of_int X * ln 10 = real_of_int n * ln 10 - ln 10" using 2(1) by (simp add: left_diff_distrib)
    ultimately show ?thesis using ln_P unfolding abs_le_iff by simp
  qed
  have l: "ln (val (etoa_power n)) \<le> ln (val v) \<longleftrightarrow> val (etoa_power n) \<le> val v" using pos P0 by (intro ln_le_cancel_iff)
  show "- (1 / 6) - 2 / 10 ^ 7 \<le> ln (val v) - of_int X * ln 10" using cases
  proof cases
    case 1
    then show ?thesis using l ln_P unfolding abs_le_iff by simp
  next
    case 2
    then show ?thesis using e(2) by simp
  qed
  show "ln (val v) - of_int X * ln 10 \<le> ln 10 + 2 / 10 ^ 7" using cases
  proof cases
    case 1
    then show ?thesis using e(1) by (simp add: algebra_simps)
  next
    case 2
    then have "ln (val v) \<le> ln (val (etoa_power n))" using pos P0 by (subst ln_le_cancel_iff) simp_all
    moreover have "real_of_int X * ln 10 = real_of_int n * ln 10 - ln 10" using 2(1) by (simp add: left_diff_distrib)
    ultimately show ?thesis using ln_P unfolding abs_le_iff by simp
  qed
qed

lemma etoa_quotient_ln:
  assumes c: "canonical v" and v: "2 powi - 1022 \<le> val v" and r: "etoa_scale v = (X, F)"
  defines "d \<equiv> (if X \<noteq> 0 then fdiv v F else v)"
  shows "canonical d \<and> 0 < val d \<and> \<bar>ln (val d) - (ln (val v) - of_int X * ln 10)\<bar> \<le> 82 / 10 ^ 9"
proof (cases "X = 0")
  case True
  then show ?thesis using c normal_value(2) [OF c v] by (simp add: d_def)
next
  case False
  note pos = normal_value(2) [OF c v] and s = etoa_scale_ln [OF c v r]
  define y where "y = val v / val F"
  have y: "0 < y" "ln y = ln (val v) - ln (val F)" using pos s(2) by (simp_all add: y_def ln_div)
  have "- (2 / 10) \<le> ln y" using s(3,4) unfolding y(2) abs_le_iff by simp
  moreover have "ln y \<le> y - 1" using y(1) by (rule ln_le_minus_one)
  ultimately have y2: "1 / 2 \<le> y" by linarith
  have "y \<le> 1600" using etoa_scale_bounds(2) [OF c less_imp_le [OF pos] r] by (simp add: y_def)
  then have le: "\<bar>y\<bar> \<le> 4096" using y(1) by simp
  have rd: "rounds y (fdiv v F)"
    unfolding y_def by (rule fdiv_rounds [OF canonical_finite [OF c] canonical_finite [OF s(1)]])
      (use s(2) in simp, rule below_bound [OF le [unfolded y_def]])
  have "(2 :: real) powi - 1075 \<le> 2 powi - 54" by (intro powi_mono) simp
  also have "(2 :: real) powi - 54 = 1 / 2 * 2 powi - 53" using powi_add [of "- 1" "- 53"] by simp
  also have "1 / 2 * 2 powi - 53 \<le> y * 2 powi - 53" using y2 by (intro mult_right_mono) simp_all
  finally have "\<bar>val (fdiv v F) - y\<bar> \<le> 2 powi - 53 * y" using roundsD(3) [OF rd] y(1) by (simp add: mult.commute)
  then have d: "\<bar>val d - y\<bar> \<le> 1 / 2 ^ 53 * y" using False by (simp add: d_def powi_minus_nat)
  note l = ln_close [OF y(1) _ _ d]
  have "0 < val d" by (rule l(1)) simp_all
  moreover have "\<bar>ln (val d) - ln y\<bar> \<le> 2 * (1 / 2 ^ 53)" by (rule l(2)) simp_all
  then have "\<bar>ln (val d) - (ln (val v) - of_int X * ln 10)\<bar> \<le> 82 / 10 ^ 9"
    using s(3) unfolding y(2) abs_le_iff by simp
  ultimately show ?thesis using roundsD(1) [OF rd] False by (simp add: d_def)
qed

text \<open>The quotient times the power of ten is the number up to a relative error of 9e-8, and the quotient
  is not far from the interval between 1 and 10.\<close>

lemma etoa_quotient:
  assumes c: "canonical v" and v: "2 powi - 1022 \<le> val v" and r: "etoa_scale v = (X, F)"
  defines "d \<equiv> (if X \<noteq> 0 then fdiv v F else v)"
  shows "canonical d" and "0 < val d" and "\<bar>val d * 10 powi X - val v\<bar> \<le> 9 / 10 ^ 8 * val v"
    and "8 / 10 * 10 powi X \<le> val v" and "val v \<le> (10 + 1 / 10 ^ 5) * 10 powi X"
proof -
  note pos = normal_value(2) [OF c v]
  note s = etoa_scale_ln [OF c v r]
  note e = etoa_quotient_ln [OF c v r, folded d_def]
  then show "canonical d" "0 < val d" by simp_all
  define T where "T = (10 :: real) powi X"
  have T: "0 < T" "ln T = of_int X * ln 10" by (simp_all add: T_def ln_powi)
  have "ln (val d * T) = ln (val d) + ln T" using e T by (subst ln_mult) simp_all
  then have t: "\<bar>ln (val d * T) - ln (val v)\<bar> \<le> 82 / 10 ^ 9" using e unfolding T(2) abs_le_iff by simp
  have "0 < val d * T" using e T by simp
  from ln_close_abs [OF pos this t] show "\<bar>val d * 10 powi X - val v\<bar> \<le> 9 / 10 ^ 8 * val v" by (simp only: T_def)
  have vT: "val v = T * exp (ln (val v) - of_int X * ln 10)"
    using T pos by (simp add: exp_diff flip: T(2))
  have "8 / 10 \<le> 1 + (ln (val v) - of_int X * ln 10)" using s(4) by simp
  also have "\<dots> \<le> exp (ln (val v) - of_int X * ln 10)" by (rule exp_ge_add_one_self)
  finally have "8 / 10 \<le> exp (ln (val v) - of_int X * ln 10)" .
  then have "T * (8 / 10) \<le> T * exp (ln (val v) - of_int X * ln 10)" using T by (intro mult_left_mono) simp_all
  then show "8 / 10 * 10 powi X \<le> val v" by (simp add: vT [symmetric] T_def [symmetric] mult.commute)
  have "exp (ln (val v) - of_int X * ln 10) \<le> exp (ln 10 + 2 / 10 ^ 7)" using s(5) by simp
  also have "\<dots> = 10 * exp (2 / 10 ^ 7)" by (simp add: exp_add)
  also have "\<dots> \<le> 10 * (1 + 2 * (2 / 10 ^ 7))" by (intro mult_left_mono exp_small) simp_all
  also have "\<dots> \<le> 10 + 1 / 10 ^ 5" by simp
  finally have "T * exp (ln (val v) - of_int X * ln 10) \<le> T * (10 + 1 / 10 ^ 5)" using T by (intro mult_left_mono) simp_all
  then show "val v \<le> (10 + 1 / 10 ^ 5) * 10 powi X" by (simp only: vT [symmetric] T_def [symmetric] mult.commute)
qed

end
