(* ===== verification/Printk_Etoa_Spec.thy ===== *)
theory Printk_Etoa_Spec
  imports Printk_Etoa_Error
begin

text \<open>
  What \<^verbatim>\<open>%e\<close> prints: the rounded quotient of the number and its power of ten, followed by the
  exponent, justified to the width.
\<close>

section \<open>The mantissa\<close>

definition etoa_abs :: "double \<Rightarrow> double" where
  "etoa_abs value = (if flt value (of_integer 0) then fneg value else value)"

definition etoa_mantissa :: "double \<Rightarrow> double" where
  "etoa_mantissa value =
     (case etoa_scale (etoa_abs value) of (X, F) \<Rightarrow>
        let v = (if X \<noteq> 0 then fdiv (etoa_abs value) F else etoa_abs value)
        in if flt value (of_integer 0) then fneg v else v)"

section \<open>The text of the exponent\<close>

definition exponent_text :: "int \<Rightarrow> string" where
  "exponent_text X = (if X < 0 then ''-'' else ''+'') @ fixed_digits (if \<bar>X\<bar> < 100 then 2 else 3) (nat \<bar>X\<bar>)"

lemma zero_fill_text: "unat n \<le> 32 \<Longrightarrow> zero_fill n buf = buf @ replicate (unat n - length buf) CHR ''0''"
proof (induction n buf rule: zero_fill.induct)
  case (1 n buf)
  show ?case
  proof (cases "length buf < unat n")
    case True
    then have "unat n - length buf = Suc (unat n - length (buf @ ''0''))" by simp
    with 1 True show ?thesis by (subst zero_fill.simps) (simp add: PRINTF_NTOA_BUFFER_SIZE_def)
  next
    case False
    then show ?thesis by (subst zero_fill.simps) simp
  qed
qed

lemma fixed_digits_pad:
  "n < 10 ^ k \<Longrightarrow> 0 < k \<Longrightarrow>
    fixed_digits k n = replicate (k - length (nat_text (digit 0) 10 n)) CHR ''0'' @ nat_text (digit 0) 10 n"
proof (induction k arbitrary: n)
  case (Suc k)
  show ?case
  proof (cases "n < 10")
    case True
    then have "nat_text (digit 0) 10 n = [digit 0 n]" by (subst nat_text.simps) simp
    then show ?thesis using True by (simp add: fixed_digits_0)
  next
    case False
    then have k: "0 < k" "n div 10 < 10 ^ k" using Suc.prems(1) by (cases k; simp add: less_mult_imp_div_less mult.commute)+
    have "length (nat_text (digit 0) 10 n) = Suc (length (nat_text (digit 0) 10 (n div 10)))"
      using False by (subst nat_text.simps) simp
    moreover have "nat_text (digit 0) 10 n = nat_text (digit 0) 10 (n div 10) @ [digit 0 (n mod 10)]"
      using False by (subst nat_text.simps) simp
    ultimately show ?thesis using Suc.IH [OF k(2,1)] by simp
  qed
qed simp

lemma digit_flags: "k < 10 \<Longrightarrow> digit flags k = digit 0 k"
proof -
  assume k: "k < 10"
  then have "unat (of_nat k :: u64) = k" by (intro unat_of_nat_u64) simp
  with k show ?thesis by (simp add: digit_def digit_char_def word_less_nat_alt)
qed

lemma nat_text_flags: "nat_text (digit flags) 10 n = nat_text (digit 0) 10 n"
proof (induction n rule: less_induct)
  case (less n)
  show ?case
  proof (cases "n < 10")
    case True
    then show ?thesis using digit_flags [of n flags] by (subst (1 2) nat_text.simps) simp
  next
    case False
    then show ?thesis using less digit_flags [of "n mod 10" flags] by (subst (1 2) nat_text.simps) simp
  qed
qed

lemma exponent_digits:
  fixes X :: int
  assumes "\<bar>X\<bar> \<le> 999"
  defines "w \<equiv> (if X < 100 \<and> - 100 < X then 4 else 5)"
  shows "ntoa_text (of_int \<bar>X\<bar>) (X < 0) 10 0 (w - 1) (FLAGS_ZEROPAD OR FLAGS_PLUS) = exponent_text X"
    and "length (exponent_text X) = unat w - 1"
proof -
  define n where "n = nat \<bar>X\<bar>"
  define k :: nat where "k = (if \<bar>X\<bar> < 100 then 2 else 3)"
  define flags where "flags = (5 :: u32)"
  define t where "t = nat_text (digit 0) 10 n"
  have n: "n < 10 ^ k" "0 < k" "k \<le> 3" "n < 1000" using assms(1) by (simp_all add: n_def k_def)
  have X: "(of_int \<bar>X\<bar> :: u64) = of_nat n" by (simp add: n_def)
  have u: "unat (of_nat n :: u64) = n" using n(4) by (intro unat_of_nat_u64) simp
  have w: "w - 1 - 1 = of_nat k" "w - 1 \<noteq> 0" "unat w = k + 2" by (auto simp: w_def k_def)
  have uk: "unat (of_nat k :: u32) = k" by (simp add: k_def)
  have fl: "FLAGS_ZEROPAD OR FLAGS_PLUS = flags" "flags AND NOT FLAGS_HASH = flags" by (simp_all add: FLAGS_defs flags_def)
  have h: "\<not> has flags FLAGS_LEFT" "has flags FLAGS_ZEROPAD" "has flags FLAGS_PLUS" "has flags (FLAGS_PLUS OR FLAGS_SPACE)"
    "\<not> has flags FLAGS_PRECISION" "\<not> has flags FLAGS_HASH" by (simp_all add: FLAGS_defs flags_def has_def)
  have "ntoa_digits flags 10 (of_nat n) [] = [] @ rev (nat_text (digit flags) (unat (10 :: u64)) (unat (of_nat n :: u64)))"
  proof (rule ntoa_digits_nat_text)
    have "n < 10 ^ 32" using n(4) by (rule less_trans) simp
    moreover have "unat (10 :: u64) = 10" by simp
    ultimately show "unat (of_nat n :: u64) < unat (10 :: u64) ^ (32 - length ([] :: string))"
      by (simp only: u list.size diff_zero)
  qed simp_all
  then have d: "ntoa_digits flags 10 (of_nat n) [] = rev t" by (simp add: u t_def nat_text_flags [of flags])
  have tl: "length t \<le> k" unfolding t_def by (rule length_nat_text [OF n(2,1)])
  have f: "fixed_digits k n = replicate (k - length t) CHR ''0'' @ t" unfolding t_def by (rule fixed_digits_pad [OF n(1,2)])
  have width: "ntoa_width (X < 0) (w - 1) flags = of_nat k" using h w by (simp add: ntoa_width_def)
  have z: "zero_fill (of_nat k) (rev t) = rev (fixed_digits k n)" using n(3) by (simp add: zero_fill_text uk f)
  have buf: "ntoa_buf (rev t) (X < 0) 10 0 (of_nat k) flags = rev (exponent_text X)"
    using h n(3) by (simp add: ntoa_buf_def Let_def z buf_put_def PRINTF_NTOA_BUFFER_SIZE_def exponent_text_def n_def [symmetric] k_def [symmetric])
  show "ntoa_text (of_int \<bar>X\<bar>) (X < 0) 10 0 (w - 1) (FLAGS_ZEROPAD OR FLAGS_PLUS) = exponent_text X"
    unfolding X fl(1) ntoa_text_def Let_def fl(2) if_cancel
    using h by (simp add: d width buf justify_def)
  show "length (exponent_text X) = unat w - 1" by (simp add: exponent_text_def w k_def)
qed

text \<open>The exponent after a text that has been put out.\<close>

lemma etoa_suffix_text:
  assumes "\<bar>X\<bar> \<le> 999" and "w = (if X < 100 \<and> - 100 < X then 4 else 5)" and "length t + 5 < 2 ^ 64"
    and "\<not> has flags FLAGS_UPPERCASE"
  shows "etoa_suffix out buffer idx maxlen width flags w X (out_chars out buffer maxlen t (idx, s)) =
    out_chars out buffer maxlen (if has flags FLAGS_LEFT then (t @ ''e'' @ exponent_text X) @
      replicate (unat width - length (t @ ''e'' @ exponent_text X)) CHR '' '' else t @ ''e'' @ exponent_text X) (idx, s)"
proof -
  note d = exponent_digits [OF assms(1), folded assms(2)]
  have "w \<noteq> 0" "unat w \<le> 5" by (simp_all add: assms(2))
  then have l: "length (t @ ''e'' @ exponent_text X) < 2 ^ 64" using d(2) assms(3) by simp
  define st where "st = out_chars out buffer maxlen (t @ ''e'' @ exponent_text X) (idx, s)"
  have st': "st = out_chars out buffer maxlen (exponent_text X) (out_chars out buffer maxlen ''e'' (out_chars out buffer maxlen t (idx, s)))"
    by (simp only: st_def out_chars_append)
  have st: "(case out_chars out buffer maxlen ''e'' (out_chars out buffer maxlen t (idx, s)) of (i, s) \<Rightarrow>
      ntoa_long out buffer i maxlen (of_int \<bar>X\<bar>) (X < 0) 10 0 (w - 1) (FLAGS_ZEROPAD OR FLAGS_PLUS) s) = st"
    by (cases "out_chars out buffer maxlen ''e'' (out_chars out buffer maxlen t (idx, s))")
      (simp add: ntoa_long_text d(1) st')
  have "fst st - idx = of_nat (length (t @ ''e'' @ exponent_text X))" by (simp add: st_def out_chars_idx)
  then have u: "unat (fst st - idx) = length (t @ ''e'' @ exponent_text X)" using l by (simp only:) (rule unat_of_nat_u64)
  have e: "has flags FLAGS_UPPERCASE = False" "(w \<noteq> 0) = True" using \<open>w \<noteq> 0\<close> assms(4) by simp_all
  have "etoa_suffix out buffer idx maxlen width flags w X (out_chars out buffer maxlen t (idx, s)) =
      (if has flags FLAGS_LEFT then out_left_pad out buffer maxlen idx (ucast width) st else st)"
    by (simp only: etoa_suffix_def Let_def e if_True if_False st)
  also have "\<dots> = (if has flags FLAGS_LEFT then out_chars out buffer maxlen
      (replicate (unat width - length (t @ ''e'' @ exponent_text X)) CHR '' '') st else st)"
    by (simp only: out_left_pad_chars u unat_ucast_u32)
  also have "\<dots> = out_chars out buffer maxlen (if has flags FLAGS_LEFT then (t @ ''e'' @ exponent_text X) @
      replicate (unat width - length (t @ ''e'' @ exponent_text X)) CHR '' '' else t @ ''e'' @ exponent_text X) (idx, s)"
    unfolding out_chars_append [of _ _ _ "t @ ''e'' @ exponent_text X", folded st_def] if_distrib [of "\<lambda>x. out_chars out buffer maxlen x (idx, s)"]
    by (simp only: st_def [symmetric] out_chars_append [of _ _ _ "t @ ''e'' @ exponent_text X"])
  finally show ?thesis .
qed

section \<open>The text of a number\<close>

lemma has_or: "has flags (a OR b) \<longleftrightarrow> has flags a \<or> has flags b"
proof -
  have "x OR y = 0 \<longleftrightarrow> x = 0 \<and> y = 0" for x y :: u32 by (auto simp: bit_eq_iff bit_simps)
  then show ?thesis by (simp add: has_def word_ao_dist2)
qed

lemma and_not_clear: "\<not> has flags f \<Longrightarrow> flags AND NOT f = flags"
proof (rule bit_eqI)
  fix n assume "\<not> has flags f" and n: "possible_bit TYPE(u32) n"
  then have "\<not> bit (flags AND f) n" by (simp add: has_def)
  then show "bit (flags AND NOT f) n = bit flags n" using n by (auto simp: bit_simps)
qed

lemma justify_exponent:
  assumes "\<not> has flags FLAGS_ZEROPAD" and "w \<noteq> 0" and "length e = unat w"
  shows "(if has flags FLAGS_LEFT then (justify flags (etoa_fwidth width w flags) t @ e) @
      replicate (unat width - length (justify flags (etoa_fwidth width w flags) t @ e)) CHR '' ''
    else justify flags (etoa_fwidth width w flags) t @ e) = justify flags width (t @ e)"
proof (cases "has flags FLAGS_LEFT")
  case True
  then show ?thesis using assms by (simp add: justify_def etoa_fwidth_def Let_def)
next
  case False
  have "unat (etoa_fwidth width w flags) - length t = unat width - length (t @ e)"
  proof (cases "w < width")
    case True
    then have "unat (width - w) = unat width - unat w" by (simp add: unat_sub word_less_nat_alt word_le_nat_alt)
    then show ?thesis using True False assms(3) by (simp add: etoa_fwidth_def Let_def)
  next
    case w: False
    then show ?thesis using False assms(3) by (simp add: etoa_fwidth_def Let_def word_less_nat_alt)
  qed
  then show ?thesis using False assms(1) by (simp add: justify_def)
qed

lemma etoa_abs_value:
  assumes "canonical value"
  shows "canonical (etoa_abs value)" and "val (etoa_abs value) = \<bar>val value\<bar>" and "flt value (of_integer 0) \<longleftrightarrow> val value < 0"
  using assms zero_value by (auto simp: etoa_abs_def flt_val)

lemma etoa_mantissa_text:
  assumes c: "canonical value" and v: "2 powi - 1022 \<le> \<bar>val value\<bar>" and fl: "\<not> has flags (FLAGS_ZEROPAD OR FLAGS_UPPERCASE OR FLAGS_ADAPT_EXP)"
    and r: "etoa_scale (etoa_abs value) = (X, F)" and b: "ftoa_fixed (etoa_mantissa value) prec w0 flags = Some (rev t, w0)"
    and w0: "w0 = etoa_fwidth width (if X < 100 \<and> - 100 < X then 4 else 5) flags"
    and m: "canonical (etoa_mantissa value)" "\<bar>val (etoa_mantissa value)\<bar> \<le> 1000000000" and X: "\<bar>X\<bar> \<le> 999"
  shows "etoa (Suc (Suc k)) out buffer idx maxlen value prec width flags s =
    Some (out_chars out buffer maxlen (justify flags width (t @ ''e'' @ exponent_text X)) (idx, s))"
proof -
  define w :: u32 where "w = (if X < 100 \<and> - 100 < X then 4 else 5)"
  define p where "p = (if has flags FLAGS_PRECISION then prec else PRINTF_DEFAULT_FLOAT_PRECISION)"
  have f: "\<not> has flags FLAGS_ZEROPAD" "\<not> has flags FLAGS_UPPERCASE" "\<not> has flags FLAGS_ADAPT_EXP" using fl by (simp_all add: has_or)
  have a: "etoa_adapt (etoa_abs value) p flags X = (p, flags, w, X)" using f by (simp add: etoa_adapt_def w_def Let_def)
  have pp: "ftoa_prec p flags = ftoa_prec prec flags" by (simp add: ftoa_prec_def p_def)
  have "ftoa_fixed (etoa_mantissa value) p w0 flags = ftoa_fixed (etoa_mantissa value) prec w0 flags"
    by (simp only: ftoa_fixed_def ftoa_prec_def [symmetric] pp)
  then have b': "ftoa_fixed (etoa_mantissa value) p w0 flags = Some (rev t, w0)" using b by simp
  have "length (rev t) \<le> 32" by (rule length_ftoa_fixed [OF b])
  then have l: "length t \<le> 32" by simp
  define j where "j = justify flags w0 t"
  have "unat w0 < 2 ^ 32" using unsigned_less [of w0, where 'a = nat] by simp
  moreover have "length j \<le> unat w0 + length t" by (simp add: j_def justify_def)
  ultimately have "length j + 5 < 2 ^ 64" using l by simp
  note suffix = etoa_suffix_text [OF X w_def this f(2)]
  have n: "ftoa (Suc k) out buffer idx maxlen (etoa_mantissa value) p w0 flags s = Some (out_chars out buffer maxlen j (idx, s))"
    unfolding ftoa_small [OF m] b' by (simp add: j_def)
  have "etoa (Suc (Suc k)) out buffer idx maxlen value prec width flags s =
      map_option (etoa_suffix out buffer idx maxlen width flags w X)
        (ftoa (Suc k) out buffer idx maxlen (etoa_mantissa value) p (etoa_fwidth width w flags) (flags AND NOT FLAGS_ADAPT_EXP) s)"
    by (simp only: etoa.simps Let_def etoa_abs_def [symmetric] p_def [symmetric] r a prod.case etoa_mantissa_def
      not_beyond_max [OF c] if_False simp_thms)
  also have "\<dots> = Some (etoa_suffix out buffer idx maxlen width flags w X (out_chars out buffer maxlen j (idx, s)))"
    using n by (simp add: and_not_clear [OF f(3)] w0 w_def [symmetric])
  also have "\<dots> = Some (out_chars out buffer maxlen (justify flags width (t @ ''e'' @ exponent_text X)) (idx, s))"
  proof -
    have "length (''e'' @ exponent_text X) = unat w" using exponent_digits(2) [OF X, folded w_def] by (auto simp: w_def)
    moreover have "w \<noteq> 0" by (simp add: w_def)
    ultimately have "(if has flags FLAGS_LEFT then (j @ ''e'' @ exponent_text X) @
        replicate (unat width - length (j @ ''e'' @ exponent_text X)) CHR '' '' else j @ ''e'' @ exponent_text X) =
        justify flags width (t @ ''e'' @ exponent_text X)"
      unfolding j_def w0 w_def [symmetric] by (intro justify_exponent [OF f(1)])
    then show ?thesis by (simp only: suffix)
  qed
  finally show ?thesis .
qed

lemma etoa_mantissa_bounds:
  assumes c: "canonical value" and v: "2 powi - 1022 \<le> \<bar>val value\<bar>" and r: "etoa_scale (etoa_abs value) = (X, F)"
  defines "m \<equiv> etoa_mantissa value"
  shows "canonical m" and "val m < 0 \<longleftrightarrow> val value < 0" and "\<bar>val m\<bar> \<le> 20" and "\<bar>X\<bar> \<le> 999"
    and "\<bar>\<bar>val m\<bar> * 10 powi X - \<bar>val value\<bar>\<bar> \<le> 9 / 10 ^ 8 * \<bar>val value\<bar>"
    and "8 / 10 * 10 powi X \<le> \<bar>val value\<bar>" and "\<bar>val value\<bar> \<le> (10 + 1 / 10 ^ 5) * 10 powi X"
proof -
  note av = etoa_abs_value [OF c]
  define d where "d = (if X \<noteq> 0 then fdiv (etoa_abs value) F else etoa_abs value)"
  have "2 powi - 1022 \<le> val (etoa_abs value)" using v by (simp only: av)
  note q = etoa_quotient [OF av(1) this r, folded d_def, unfolded av(2)]
  have m: "m = (if val value < 0 then fneg d else d)" by (simp add: m_def etoa_mantissa_def r d_def Let_def av(3))
  then have md: "\<bar>val m\<bar> = val d" using q(2) by auto
  show "canonical m" "val m < 0 \<longleftrightarrow> val value < 0" using q(1,2) by (auto simp: m)
  show "\<bar>\<bar>val m\<bar> * 10 powi X - \<bar>val value\<bar>\<bar> \<le> 9 / 10 ^ 8 * \<bar>val value\<bar>" unfolding md by (rule q(3))
  show "8 / 10 * 10 powi X \<le> \<bar>val value\<bar>" "\<bar>val value\<bar> \<le> (10 + 1 / 10 ^ 5) * 10 powi X" by (rule q(4), rule q(5))
  show "\<bar>X\<bar> \<le> 999"
    using etoa_scale_bounds(4) [OF av(1) _ r] etoa_exponent_bounds(2,3) [OF av(1)] av(2) by auto
  define T where "T = (10 :: real) powi X"
  define A where "A = \<bar>val value\<bar>"
  define D where "D = val d * T"
  have T: "0 < T" by (simp add: T_def)
  have "D \<le> 20 * T" using q(3,5) T unfolding A_def [symmetric] T_def [symmetric] D_def [symmetric] abs_le_iff by simp
  then show "\<bar>val m\<bar> \<le> 20" using T by (simp add: md D_def)
qed

text \<open>The error of the printed mantissa, scaled.\<close>

lemma scaled_error:
  fixes T :: real
  assumes "0 < T" and "\<bar>y - d\<bar> \<le> e + 2 powi - 53" and "\<bar>d * T - A\<bar> \<le> 9 / 10 ^ 8 * A" and "A \<le> (10 + 1 / 10 ^ 5) * T"
  shows "\<bar>y * T - A\<bar> \<le> (e + 1 / 10 ^ 6) * T"
proof -
  have "\<bar>y - d\<bar> * T \<le> (e + 2 powi - 53) * T" using assms(1,2) by (intro mult_right_mono) simp_all
  then have 1: "\<bar>y * T - d * T\<bar> \<le> e * T + 2 powi - 53 * T"
    using assms(1) by (simp only: left_diff_distrib [symmetric] distrib_right [symmetric] abs_mult abs_of_pos)
  have 2: "2 powi - 53 * T \<le> 1 / 10 ^ 8 * T" using assms(1) by (intro mult_right_mono) (simp_all add: powi_minus_nat)
  define D where "D = d * T"
  define Y where "Y = y * T"
  show ?thesis
    using 1 2 assms(1,3,4) unfolding distrib_right D_def [symmetric] Y_def [symmetric] abs_le_iff by simp
qed

section \<open>Properties\<close>


text \<open>2.5 with one digit.\<close>

lemma power_10_between: "8 / 10 * 10 powi X \<le> (5 / 2 :: real) \<Longrightarrow> (5 / 2 :: real) \<le> (10 + 1 / 10 ^ 5) * 10 powi X \<Longrightarrow> X = 0"
proof -
  assume 1: "8 / 10 * 10 powi X \<le> (5 / 2 :: real)" and 2: "5 / 2 \<le> (10 + 1 / 10 ^ 5) * (10 :: real) powi X"
  have "\<not> 1 \<le> X"
  proof
    assume "1 \<le> X"
    then have "(10 :: real) powi 1 \<le> 10 powi X" by (intro power_int_increasing) simp_all
    then show False using 1 by simp
  qed
  moreover have "\<not> X \<le> - 1"
  proof
    assume "X \<le> - 1"
    then have "(10 :: real) powi X \<le> 10 powi - 1" by (intro power_int_increasing) simp_all
    then show False using 2 by simp
  qed
  ultimately show "X = 0" by simp
qed


end
