(* ===== verification/Stubs.thy ===== *)
theory Stubs
  imports IDT Scheduler
begin

text \<open>
  Model of \<^verbatim>\<open>src/ASNU/src/IDT/idt.asm\<close>: the stubs through which the exceptions reach
  \<^verbatim>\<open>exception_handler\<close>, instruction by instruction on the registers and the stack. How the compiled C function
  leaves the registers is the parameter \<open>clob\<close>, and the address after the \<^verbatim>\<open>call\<close> is the parameter \<open>ret\<close>; the
  C function's own stack frame lies below and is not part of the memory here, as everywhere in this model.
\<close>

section \<open>Instructions\<close>

type_synonym cpu = "RegisterState \<times> mem"

definition push_val :: "u64 \<Rightarrow> cpu \<Rightarrow> cpu" where
  "push_val v = (\<lambda>(r, m). (r\<lparr>rsp := rsp r - 8\<rparr>, push (rsp r) v m))"

definition pop_val :: "cpu \<Rightarrow> u64 \<times> cpu" where
  "pop_val = (\<lambda>(r, m). (read64 m (rsp r), r\<lparr>rsp := rsp r + 8\<rparr>, m))"

definition iretq :: "cpu \<Rightarrow> cpu" where
  "iretq c0 =
     (case pop_val c0 of (ip, c1) \<Rightarrow>
      case pop_val c1 of (cs, c2) \<Rightarrow>
      case pop_val c2 of (fl, c3) \<Rightarrow>
      case pop_val c3 of (sp, c4) \<Rightarrow>
      case pop_val c4 of (ss, (r, m)) \<Rightarrow>
        (r\<lparr>rip := ip, reg_cs := ucast cs, rflags := fl, rsp := sp, reg_ss := ucast ss\<rparr>, m))"

text \<open>
  What the processor does before the first instruction of a handler behind an interrupt gate: align
  the stack, push the frame and, for some exceptions, the error code, and clear IF, TF, NT and RF.
\<close>

definition interrupt_entry :: "u64 option \<Rightarrow> cpu \<Rightarrow> cpu" where
  "interrupt_entry err = (\<lambda>(r, m).
     let c1 = push_val (ucast (reg_ss r)) (r\<lparr>rsp := rsp r AND NOT 15\<rparr>, m);
         c2 = push_val (rsp r) c1;
         c3 = push_val (rflags r) c2;
         c4 = push_val (ucast (reg_cs r)) c3;
         c5 = push_val (rip r) c4;
         (r6, m6) = (case err of None \<Rightarrow> c5 | Some e \<Rightarrow> push_val e c5)
     in (r6\<lparr>rflags := rflags r AND NOT 0x14300\<rparr>, m6))"

text \<open>The exceptions for which the processor pushes an error code.\<close>

definition pushes_error :: "u32 \<Rightarrow> bool" where
  "pushes_error vec \<longleftrightarrow> vec \<in> {8, 10, 11, 12, 13, 14, 17, 21, 29, 30}"

section \<open>The stubs\<close>

definition call_handler ::
  "PmmFile \<Rightarrow> u64 \<Rightarrow> u64 \<Rightarrow> (RegisterState \<Rightarrow> RegisterState) \<Rightarrow> u64 \<Rightarrow> cpu \<Rightarrow> machine
    \<Rightarrow> (outcome \<times> cpu \<times> machine) option" where
  "call_handler pm root CR2 clob ret = (\<lambda>(r, m) k.
     case push_val ret (r, m) of (r1, m1) \<Rightarrow>
       do {
         (res, m2, k2) \<leftarrow> exception_handler pm root CR2 (ucast (rdi r)) (rsi r) m1 k;
         Some (res, (clob r, m2), k2)
       })"

text \<open>\<open>%macro isr_err_stub\<close>: the error code is popped into \<^verbatim>\<open>rsi\<close>, whose value is not saved.\<close>

definition isr_err_stub ::
  "PmmFile \<Rightarrow> u64 \<Rightarrow> u64 \<Rightarrow> (RegisterState \<Rightarrow> RegisterState) \<Rightarrow> u64 \<Rightarrow> u32 \<Rightarrow> cpu \<Rightarrow> machine
    \<Rightarrow> (outcome \<times> cpu \<times> machine) option" where
  "isr_err_stub pm root CR2 clob ret vec c0 k =
     (case pop_val c0 of (e, (r1, m1)) \<Rightarrow>
      case push_val (rdi r1) (r1\<lparr>rsi := e\<rparr>, m1) of (r2, m2) \<Rightarrow>
        do {
          (res, c3, k3) \<leftarrow> call_handler pm root CR2 clob ret (r2\<lparr>rdi := ucast vec\<rparr>, m2) k;
          if res = Halted then Some (Halted, c3, k3)
          else (case pop_val c3 of (d, (r4, m4)) \<Rightarrow> Some (Resumed, iretq (r4\<lparr>rdi := d\<rparr>, m4), k3))
        })"

definition isr_no_err_stub ::
  "PmmFile \<Rightarrow> u64 \<Rightarrow> u64 \<Rightarrow> (RegisterState \<Rightarrow> RegisterState) \<Rightarrow> u64 \<Rightarrow> u32 \<Rightarrow> cpu \<Rightarrow> machine
    \<Rightarrow> (outcome \<times> cpu \<times> machine) option" where
  "isr_no_err_stub pm root CR2 clob ret vec = (\<lambda>(r, m) k.
     case push_val (rdi r) (push_val (rsi r) (r, m)) of (r2, m2) \<Rightarrow>
       do {
         (res, c3, k3) \<leftarrow> call_handler pm root CR2 clob ret (r2\<lparr>rsi := 0, rdi := ucast vec\<rparr>, m2) k;
         if res = Halted then Some (Halted, c3, k3)
         else (case pop_val c3 of (d, c4) \<Rightarrow>
               case pop_val c4 of (s, (r5, m5)) \<Rightarrow> Some (Resumed, iretq (r5\<lparr>rdi := d, rsi := s\<rparr>, m5), k3))
       })"

text \<open>\<^verbatim>\<open>isr_stub_table\<close>: which of the two macros the table's entries use.\<close>

definition isr_stub ::
  "PmmFile \<Rightarrow> u64 \<Rightarrow> u64 \<Rightarrow> (RegisterState \<Rightarrow> RegisterState) \<Rightarrow> u64 \<Rightarrow> u32 \<Rightarrow> cpu \<Rightarrow> machine
    \<Rightarrow> (outcome \<times> cpu \<times> machine) option" where
  "isr_stub pm root CR2 clob ret vec c k =
     (if vec \<in> {8, 10, 11, 12, 13, 14, 17, 30} then isr_err_stub pm root CR2 clob ret vec c k
      else isr_no_err_stub pm root CR2 clob ret vec c k)"

text \<open>An exception, from the interrupted instruction on.\<close>

definition take_exception ::
  "PmmFile \<Rightarrow> u64 \<Rightarrow> u64 \<Rightarrow> (RegisterState \<Rightarrow> RegisterState) \<Rightarrow> u64 \<Rightarrow> u32 \<Rightarrow> u64 \<Rightarrow> cpu \<Rightarrow> machine
    \<Rightarrow> (outcome \<times> cpu \<times> machine) option" where
  "take_exception pm root CR2 clob ret vec e c k =
     isr_stub pm root CR2 clob ret vec (interrupt_entry (if pushes_error vec then Some e else None) c) k"

end
