(* ===== verification/Stubs_Spec.thy ===== *)
theory Stubs_Spec
  imports Stubs IDT_Spec
begin

text \<open>
  What happens to the registers across a recovered page fault: the frame on the stack, the way through the
  stub, and the state in which the faulting instruction is tried again.
\<close>

section \<open>The stack of a page fault\<close>

text \<open>The seven words that the processor, the stub and the call put below the aligned stack pointer; \<^verbatim>\<open>rdi\<close> takes
  the place of the error code that the stub has popped.\<close>

definition fault_base :: "RegisterState \<Rightarrow> u64" where
  "fault_base r = (rsp r AND NOT 15) - 56"

definition fault_stack :: "RegisterState \<Rightarrow> u64 \<Rightarrow> mem \<Rightarrow> mem" where
  "fault_stack r ret m =
     (let b = fault_base r
      in write64 (write64 (write64 (write64 (write64 (write64 (write64 m
           (b + 48) (ucast (reg_ss r))) (b + 40) (rsp r)) (b + 32) (rflags r)) (b + 24) (ucast (reg_cs r)))
           (b + 16) (rip r)) (b + 8) (rdi r)) b ret)"

text \<open>Which registers a C function preserves: a hypothesis on the compiled \<^verbatim>\<open>exception_handler\<close>, from the calling
  convention.\<close>

definition sysv :: "(RegisterState \<Rightarrow> RegisterState) \<Rightarrow> bool" where
  "sysv f \<longleftrightarrow> (\<forall>r. rbx (f r) = rbx r \<and> rbp (f r) = rbp r \<and> rsp (f r) = rsp r \<and> r12 (f r) = r12 r \<and>
     r13 (f r) = r13 r \<and> r14 (f r) = r14 r \<and> r15 (f r) = r15 r)"

text \<open>The registers with which the C function is called.\<close>

definition call_regs :: "RegisterState \<Rightarrow> u64 \<Rightarrow> RegisterState" where
  "call_regs r e = r\<lparr>rflags := rflags r AND NOT 0x14300, rsi := e, rsp := fault_base r + 8, rdi := 14\<rparr>"

definition slots :: "u64 list" where
  "slots = [0, 8, 16, 24, 32, 40, 48]"

lemma slot_read:
  assumes "x \<in> set slots" and "y \<in> set slots"
  shows "read64 (write64 m (b + x) v) (b + y) = (if x = y then v else read64 m (b + y))"
proof -
  have "\<forall>x \<in> set slots. x = 8 * (x div 8) \<and> x div 8 < 512" by (simp add: slots_def)
  then obtain i j where ij: "x = 8 * i" "y = 8 * j" "i < 512" "j < 512" using assms by metis
  show ?thesis
  proof (cases "x = y")
    case True
    then show ?thesis by (simp add: read64_write64)
  next
    case False
    then have "region (b + y) 8 \<inter> region (b + x) 8 = {}"
      using ij entry_region_disjoint [of j i b] by auto
    then show ?thesis using False by (simp add: read64_write64_other)
  qed
qed

lemmas slot_reads = slot_read slot_read [where x = 0, simplified] slot_read [where y = 0, simplified]

lemma fault_stack_read:
  fixes r ret m
  defines "b \<equiv> fault_base r" and "m' \<equiv> fault_stack r ret m"
  shows "read64 m' (b + 48) = ucast (reg_ss r)" "read64 m' (b + 40) = rsp r" "read64 m' (b + 32) = rflags r"
    "read64 m' (b + 24) = ucast (reg_cs r)" "read64 m' (b + 16) = rip r" "read64 m' (b + 8) = rdi r"
  by (simp_all add: m'_def fault_stack_def Let_def b_def slot_reads slots_def)

lemma base_left: "numeral n + fault_base r = fault_base r + numeral n"
  by (rule add.commute)

lemma ucast_up_down: "ucast (ucast (x :: u16) :: u64) = x"
  by (rule bit_eqI) (auto simp: bit_simps)

lemma fault_stack_outside: "a \<notin> region (fault_base r) 56 \<Longrightarrow> fault_stack r ret m a = m a"
proof -
  assume a: "a \<notin> region (fault_base r) 56"
  have "a \<notin> region (fault_base r + x) 8" if "unat x + 8 \<le> 56" for x
    using a region_within [OF that, of "fault_base r"] by blast
  from this [of 0] this [of 8] this [of 16] this [of 24] this [of 32] this [of 40] this [of 48]
  show ?thesis by (simp add: fault_stack_def Let_def write64_apply)
qed

text \<open>A stack away from the tables, the bitmap and the free pages.\<close>

lemma fault_stack_tables:
  assumes fits: "pmm_fits pm" and ok: "tables_ok pm m root" and u: "\<forall>a \<in> region (fault_base r) 56. untouched pm root m a"
  shows "same_tables root m (fault_stack r ret m)" and "free_pages pm (fault_stack r ret m) = free_pages pm m"
    and "tables_ok pm (fault_stack r ret m) root"
    and "a \<in> region (fault_base r) 56 \<Longrightarrow> untouched pm root (fault_stack r ret m) a"
proof -
  show s: "same_tables root m (fault_stack r ret m)"
    using u fault_stack_outside unfolding same_tables_def untouched_def by blast
  show f: "free_pages pm (fault_stack r ret m) = free_pages pm m"
    using u fault_stack_outside by (intro free_pages_same [OF fits]) (auto simp: untouched_def)
  show "tables_ok pm (fault_stack r ret m) root" by (rule same_tables_ok [OF ok s]) (simp add: f)
  show "a \<in> region (fault_base r) 56 \<Longrightarrow> untouched pm root (fault_stack r ret m) a"
    using u by (simp add: untouched_def f same_tables_table_at [OF s])
qed

text \<open>The way through the stub.\<close>

lemma take_page_fault:
  assumes "exception_handler pm root CR2 14 e (fault_stack r ret m) k = Some (Resumed, m2, k2)" and "sysv clob"
    and same: "\<And>a. a \<in> region (fault_base r) 56 \<Longrightarrow> m2 a = fault_stack r ret m a"
  shows "take_exception pm root CR2 clob ret 14 e (r, m) k =
    Some (Resumed, ((clob (call_regs r e))\<lparr>rdi := rdi r, rip := rip r, reg_cs := reg_cs r, rflags := rflags r,
      rsp := rsp r, reg_ss := reg_ss r\<rparr>, m2), k2)"
proof -
  let ?b = "fault_base r" and ?m = "fault_stack r ret m"
  let ?f = "write64 (write64 (write64 (write64 (write64 m
           (?b + 48) (ucast (reg_ss r))) (?b + 40) (rsp r)) (?b + 32) (rflags r)) (?b + 24) (ucast (reg_cs r)))
           (?b + 16) (rip r)"
  have rd: "read64 m2 (?b + x) = read64 ?m (?b + x)" if "x \<in> set slots" for x
  proof (rule read64_cong)
    have "unat x + 8 \<le> 56" using that by (auto simp: slots_def)
    then show "\<And>a. a \<in> region (?b + x) 8 \<Longrightarrow> m2 a = ?m a" using region_within [of x 8 56 ?b] same by blast
  qed
  have b: "rsp r AND - 16 = ?b + 56" by (simp add: fault_base_def)
  have entry: "interrupt_entry (Some e) (r, m) =
      (r\<lparr>rsp := ?b + 8, rflags := rflags r AND NOT 0x14300\<rparr>, write64 ?f (?b + 8) e)"
    by (simp add: interrupt_entry_def b push_val_def push_def base_left)
  have call: "call_handler pm root CR2 clob ret (call_regs r e, write64 ?f (?b + 8) (rdi r)) k =
      Some (Resumed, (clob (call_regs r e), m2), k2)"
    using assms(1) by (simp add: base_left call_handler_def push_val_def push_def call_regs_def fault_stack_def Let_def)
  have sp: "rsp (clob x) = rsp x" for x using assms(2) by (simp add: sysv_def)
  have stub: "take_exception pm root CR2 clob ret 14 e (r, m) k =
      Some (Resumed, iretq ((clob (call_regs r e))\<lparr>rsp := ?b + 16, rdi := read64 m2 (?b + 8)\<rparr>, m2), k2)"
    using call by (simp add: base_left take_exception_def isr_stub_def pushes_error_def entry isr_err_stub_def pop_val_def
        push_val_def push_def read64_write64 write64_write64 call_regs_def sp)
  show ?thesis
    unfolding stub using fault_stack_read [of r ret m] rd
    by (simp add: iretq_def pop_val_def slots_def base_left ucast_up_down)
qed

section \<open>Properties\<close>

text \<open>C23: Resuming after a page fault. With three free pages, small pages around the address and a stack apart from tables,
  bitmap and free pages, the fault of an address from 4096 on returns to the faulting instruction with the address
  mapped to itself, the stack pointer, the flags, \<^verbatim>\<open>rdi\<close> and the registers that a C function preserves as they
  were. But \<^verbatim>\<open>rsi\<close> and the registers a C function may change are left as \<^verbatim>\<open>exception_handler\<close> left
  them: the stub saves none of them.\<close>

theorem page_fault_resumes:
  assumes "pool_ok pm" and "tables_ok pm m root" and "no_large_page m root CR2" and "3 \<le> card (free_pages pm m)"
    and "0x1000 \<le> CR2" and "i2s_ok k" and "sysv clob" and "\<forall>a \<in> region (fault_base r) 56. untouched pm root m a"
  shows "\<exists>r2 m2 k2. take_exception pm root CR2 clob ret 14 e (r, m) k = Some (Resumed, (r2, m2), k2) \<and>
     translate m2 root CR2 = Page (leaf_entry CR2 (PAGE_PRESENT OR PAGE_RW)) \<and>
     rip r2 = rip r \<and> rflags r2 = rflags r \<and> rsp r2 = rsp r \<and> reg_cs r2 = reg_cs r \<and> reg_ss r2 = reg_ss r \<and>
     rdi r2 = rdi r \<and> rbx r2 = rbx r \<and> rbp r2 = rbp r \<and> r12 r2 = r12 r \<and> r13 r2 = r13 r \<and> r14 r2 = r14 r \<and>
     r15 r2 = r15 r \<and>
     (let c = clob (call_regs r e)
      in rax r2 = rax c \<and> rcx r2 = rcx c \<and> rdx r2 = rdx c \<and> rsi r2 = rsi c \<and> r8 r2 = r8 c \<and> r9 r2 = r9 c \<and>
         r10 r2 = r10 c \<and> r11 r2 = r11 c)"
proof -
  let ?M = "fault_stack r ret m"
  note t = fault_stack_tables [OF pool_fits [OF assms(1)] assms(2,8), where ret = ret]
  have nl: "no_large_page ?M root CR2" using assms(3) same_tables_translate [OF t(1)] by (simp add: no_large_page_def)
  obtain m2 where m2: "mmap pm root CR2 CR2 (PAGE_PRESENT OR PAGE_RW) ?M = Some m2"
    by (rule mmap_cases [OF assms(1) t(3) nl, where pa = CR2 and flags = "PAGE_PRESENT OR PAGE_RW"])
      (use assms(4) t(2) in simp_all)
  note mm = mmap_translate [OF assms(1) t(3) nl m2]
  obtain k2 where "exception_handler pm root CR2 14 e ?M k = Some (Resumed, m2, k2)"
    using exception_recovers [OF assms(6) _ m2, of 14 e] assms(5) by (auto simp: recoverable_def)
  then have x: "take_exception pm root CR2 clob ret 14 e (r, m) k =
    Some (Resumed, ((clob (call_regs r e))\<lparr>rdi := rdi r, rip := rip r, reg_cs := reg_cs r, rflags := rflags r,
      rsp := rsp r, reg_ss := reg_ss r\<rparr>, m2), k2)"
    by (rule take_page_fault [OF _ assms(7)]) (use mm(5) t(4) in simp)
  show ?thesis
    by (intro exI conjI, rule x) (use assms(7) mm(1) in \<open>simp_all add: sysv_def call_regs_def Let_def\<close>)
qed

text \<open>A handler that returns with 0 in \<^verbatim>\<open>rax\<close> and \<^verbatim>\<open>rsi\<close>.\<close>

definition regs_demo :: RegisterState where
  "regs_demo = zero_regs\<lparr>rax := 5, rsi := 6, rdi := 7, rbx := 8, rsp := 0x6000, rip := 0x400000\<rparr>"

theorem page_fault_resumes_witness:
  "\<exists>r2 m2 k2. take_exception vmm_demo root_demo 0x400123 (\<lambda>r. r\<lparr>rax := 0, rsi := 0\<rparr>) 0x100 14 2 (regs_demo, \<lambda>_. 0) boot_machine =
      Some (Resumed, (r2, m2), k2) \<and> rip r2 = 0x400000 \<and> rsp r2 = 0x6000 \<and> rdi r2 = 7 \<and> rbx r2 = 8 \<and> rax r2 = 0 \<and> rsi r2 = 0"
proof -
  have k: "i2s_ok boot_machine" by (simp add: i2s_ok_def boot_machine_def)
  have f: "3 \<le> card (free_pages vmm_demo (\<lambda>_. 0))" by (simp add: free_pages_demo)
  have s: "sysv (\<lambda>r. r\<lparr>rax := 0, rsi := 0\<rparr>)" by (simp add: sysv_def)
  have b: "fault_base regs_demo = 0x5FC8" by (simp add: fault_base_def regs_demo_def)
  have z: "read64 (\<lambda>_. 0) a = 0" for a by (rule read64_zero) simp
  have t: "table_at (\<lambda>_. 0) root_demo is t \<longleftrightarrow> is = [] \<and> t = root_demo" for "is" t
    by (cases "is") (auto simp: table_at_def z)
  have d: "region 0x5FC8 56 \<inter> region q n = {}" if "0x6000 \<le> unat q" "unat q + n \<le> 2 ^ 64" for q n
    using that by (intro region_disjoint) simp_all
  have "region 0x5FC8 56 \<inter> region p 4096 = {}" if "p \<in> free_pages vmm_demo (\<lambda>_. 0)" for p
  proof -
    have ok: "pmm_ok vmm_demo" using vmm_demo_pool by (simp add: pool_ok_def pmm_fits_def)
    from that obtain i where i: "i < 16" "p = page_addr vmm_demo i" by (auto simp: free_pages_def pmm_pages_def)
    then have "unat p = 0xFFFF800000100000 + i * 4096" using unat_page_addr [OF ok, of i] by simp
    then show ?thesis using i(1) by (intro d) simp_all
  qed
  moreover have "region 0x5FC8 56 \<inter> bitmap_region vmm_demo = {}" "region 0x5FC8 56 \<inter> region root_demo 4096 = {}"
    by (auto simp: bitmap_region_def root_demo_def intro!: d)
  ultimately have "\<forall>a \<in> region (fault_base regs_demo) 56. untouched vmm_demo root_demo (\<lambda>_. 0) a"
    unfolding b untouched_def t by blast
  from page_fault_resumes [OF vmm_demo_pool root_demo_tables root_demo_no_large f _ k s this, of "0x400123" "0x100" 2]
  show ?thesis by (auto simp: regs_demo_def call_regs_def Let_def)
qed
end
